(* ===== verification/Prelude.thy ===== *)
theory Prelude
  imports Main "HOL-Library.Word" "HOL-Library.Signed_Division"
begin

unbundle bit_operations_syntax

section \<open>Shared types, Go integers, byte slices\<close>

text \<open>
  The vocabulary every component shares: bytes and byte slices, the 64-bit integers of Go with
  their wrap-around, the \<open>copy\<close> builtin and slicing, run-time panics as values, and the chunk
  size of \<^verbatim>\<open>internal/cache/pool.go\<close>.

  A Go \<open>int64\<close> or \<open>int\<close> is an \<open>int\<close> that every arithmetic result is reduced into by
  \<open>i64\<close> (two's complement, so the wrap-around is written out where the code computes); a
  \<open>uint64\<close> or \<open>uint32\<close> is a word, whose arithmetic wraps by itself. A Go string is a list of
  bytes, hence a \<open>string\<close> (HOL characters are bytes).
\<close>

named_theorems go_num \<open>facts about the 64-bit integers of Go\<close>
named_theorems go_bytes \<open>facts about byte slices\<close>
named_theorems go_str \<open>facts about the string functions of the Go standard library\<close>

type_synonym byte = "8 word"
type_synonym bytes = "8 word list"
type_synonym u32 = "32 word"
type_synonym u64 = "64 word"

subsection \<open>Panics\<close>

datatype go_panic = SendOnClosedChannel | CloseOfClosedChannel | SliceBounds | IndexBounds | DivideByZero | NilDeref | MakeChanSize

subsection \<open>64-bit signed arithmetic\<close>

definition i64 :: "int \<Rightarrow> int" where
  "i64 x = signed_take_bit 63 x"

abbreviation in_i64 :: "int \<Rightarrow> bool" where
  "in_i64 x \<equiv> - (2 ^ 63) \<le> x \<and> x < 2 ^ 63"

lemma i64_id [go_num]: "in_i64 x \<Longrightarrow> i64 x = x"
  by (simp add: i64_def signed_take_bit_int_eq_self)

lemma i64_range [go_num]: "in_i64 (i64 x)"
  unfolding i64_def
  using signed_take_bit_int_greater_eq_minus_exp [of 63 x] signed_take_bit_int_less_exp [of 63 x]
  by blast

lemma i64_idem [simp]: "i64 (i64 x) = i64 x"
  by (simp add: i64_def)

lemma i64_add_left [simp]: "i64 (i64 x + y) = i64 (x + y)"
  unfolding i64_def by (metis signed_take_bit_add signed_take_bit_signed_take_bit min.idem)

lemma i64_add_right [simp]: "i64 (x + i64 y) = i64 (x + y)"
  using i64_add_left [of y x] by (simp add: add.commute)

lemma i64_diff_left [simp]: "i64 (i64 x - y) = i64 (x - y)"
  using i64_add_left [of x "- y"] by simp

lemma i64_diff_right [simp]: "i64 (x - i64 y) = i64 (x - y)"
  unfolding i64_def by (metis signed_take_bit_diff signed_take_bit_signed_take_bit min.idem)

lemma i64_0 [simp]: "i64 0 = 0"
  by (simp add: i64_def)

text \<open>A conversion \<open>int64(u)\<close> of a \<open>uint64\<close> reinterprets the 64 bits.\<close>

definition int64_of :: "u64 \<Rightarrow> int" where
  "int64_of u = i64 (uint u)"

lemma int64_of_small [go_num]: "uint u < 2 ^ 63 \<Longrightarrow> int64_of u = uint u"
  unfolding int64_of_def using uint_ge_0 [of u] by (intro i64_id) linarith

text \<open>A conversion \<open>uint64(x)\<close> of an \<open>int64\<close> keeps the low 64 bits.\<close>

definition uint64_of :: "int \<Rightarrow> u64" where
  "uint64_of x = word_of_int x"

lemma unat_uint64_of [go_num]:
  "0 \<le> x \<Longrightarrow> x < 2 ^ 64 \<Longrightarrow> unat (uint64_of x) = nat x"
  by (simp add: uint64_of_def unat_eq_nat_uint uint_word_of_int)

subsection \<open>Chunks\<close>

text \<open>\<^verbatim>\<open>const ChunkSize = 4 * 1024 * 1024\<close>, as a length and as an \<open>int64\<close> operand.\<close>

definition ChunkSize :: nat where
  "ChunkSize = 4 * 1024 * 1024"

lemma ChunkSize_val: "ChunkSize = 4194304"
  by (simp add: ChunkSize_def)

lemma ChunkSize_pos [simp]: "0 < ChunkSize"
  by (simp add: ChunkSize_def)

subsection \<open>Byte slices\<close>

text \<open>
  \<open>xs[i:j]\<close> of a slice whose bounds are in range (the callers test the bounds; out of range the
  program panics, which \<open>slice_checked\<close> returns).
\<close>

definition subslice :: "'a list \<Rightarrow> nat \<Rightarrow> nat \<Rightarrow> 'a list" where
  "subslice xs i j = take (j - i) (drop i xs)"

definition slice_checked :: "'a list \<Rightarrow> int \<Rightarrow> int \<Rightarrow> go_panic + 'a list" where
  "slice_checked xs i j =
     (if 0 \<le> i \<and> i \<le> j \<and> j \<le> int (length xs) then Inr (subslice xs (nat i) (nat j)) else Inl SliceBounds)"

lemma length_subslice [go_bytes]: "j \<le> length xs \<Longrightarrow> length (subslice xs i j) = j - i"
  by (simp add: subslice_def)

lemma nth_subslice [go_bytes]: "i + n < j \<Longrightarrow> j \<le> length xs \<Longrightarrow> subslice xs i j ! n = xs ! (i + n)"
  by (simp add: subslice_def)

lemma subslice_all [simp]: "subslice xs 0 (length xs) = xs"
  by (simp add: subslice_def)

lemma subslice_append:
  assumes "i \<le> j" and "j \<le> k"
  shows "subslice xs i j @ subslice xs j k = subslice xs i k"
proof -
  have "k - i = (j - i) + (k - j)"
    using assms by simp
  then have "take (k - i) (drop i xs) = take (j - i) (drop i xs) @ take (k - j) (drop (j - i) (drop i xs))"
    by (simp only: take_add)
  then show ?thesis
    using assms by (simp add: subslice_def)
qed

lemma subslice_take [go_bytes]: "j \<le> n \<Longrightarrow> subslice (take n xs) i j = subslice xs i j"
  by (simp add: subslice_def drop_take min_def)

lemma subslice_drop [go_bytes]: "subslice (drop n xs) i j = subslice xs (n + i) (n + j)"
  by (simp add: subslice_def add.commute)

text \<open>The builtin \<open>copy(dst, src)\<close>: the new contents of \<open>dst\<close> and the number of bytes copied.\<close>

definition copy_bytes :: "'a list \<Rightarrow> 'a list \<Rightarrow> 'a list \<times> nat" where
  "copy_bytes dst src =
     (let n = min (length dst) (length src) in (take n src @ drop n dst, n))"

lemma copy_bytes_length [go_bytes]: "length (fst (copy_bytes dst src)) = length dst"
  by (simp add: copy_bytes_def Let_def)

lemma copy_bytes_take [go_bytes]:
  "copy_bytes dst src = (dst', n) \<Longrightarrow> take n dst' = take (length dst) src"
  by (auto simp: copy_bytes_def Let_def min_def)

text \<open>What a cache should hold for chunk \<open>i\<close> of an object: at most \<open>ChunkSize\<close> bytes at \<open>i * ChunkSize\<close>.\<close>

definition chunk_of :: "'a list \<Rightarrow> nat \<Rightarrow> 'a list" where
  "chunk_of obj i = take ChunkSize (drop (i * ChunkSize) obj)"

lemma chunk_of_subslice: "chunk_of obj i = subslice obj (i * ChunkSize) (i * ChunkSize + ChunkSize)"
  by (simp add: chunk_of_def subslice_def)

lemma length_chunk_of [go_bytes]:
  "length (chunk_of obj i) = min ChunkSize (length obj - i * ChunkSize)"
  by (simp add: chunk_of_def)

subsection \<open>Lists without repetition\<close>

lemma remove1_last: "distinct xs \<Longrightarrow> xs \<noteq> [] \<Longrightarrow> remove1 (last xs) xs = butlast xs"
  by (induction xs rule: rev_induct) (auto simp: remove1_append)

lemma remove1_append_notin: "a \<notin> set xs \<Longrightarrow> remove1 a (xs @ [a]) = xs"
  by (simp add: remove1_append)

lemma distinct_remove1_set [simp]: "distinct xs \<Longrightarrow> set (remove1 a xs) = set xs - {a}"
  by (rule set_remove1_eq)

lemma map_filter_remove1:
  assumes "distinct xs" and "inj_on f (set xs)" and "a \<in> set xs"
  shows "map f (remove1 a xs) = filter (\<lambda>y. y \<noteq> f a) (map f xs)"
proof -
  have "remove1 a xs = filter (\<lambda>x. x \<noteq> a) xs"
    using assms(1) by (simp add: distinct_remove1_removeAll removeAll_filter_not_eq)
      (metis (mono_tags, lifting))
  moreover have "filter (\<lambda>x. x \<noteq> a) xs = filter (\<lambda>x. f x \<noteq> f a) xs"
    using assms(2,3) by (auto intro!: filter_cong dest: inj_onD)
  ultimately show ?thesis
    by (simp add: filter_map o_def)
qed

lemma sum_list_remove1:
  fixes f :: "'a \<Rightarrow> int"
  assumes "a \<in> set xs"
  shows "sum_list (map f (remove1 a xs)) = sum_list (map f xs) - f a"
  using assms by (induction xs) auto

lemma sum_list_nonneg_int: "(\<And>x. x \<in> set xs \<Longrightarrow> 0 \<le> f x) \<Longrightarrow> 0 \<le> sum_list (map f xs)"
  for f :: "'a \<Rightarrow> int"
  by (induction xs) auto

lemma map_of_SomeD_fst: "map_of xs k = Some v \<Longrightarrow> k \<in> fst ` set xs"
  by (metis domI dom_map_of_conv_image_fst)

lemma sum_list_take_nth_drop:
  fixes f :: "'a \<Rightarrow> 'b :: comm_monoid_add"
  assumes "i < length xs"
  shows "sum_list (map f xs) = f (xs ! i) + sum_list (map f (take i xs @ drop (Suc i) xs))"
proof -
  have "sum_list (map f xs) = sum_list (map f (take i xs @ xs ! i # drop (Suc i) xs))"
    using id_take_nth_drop [OF assms] by simp
  then show ?thesis by (simp add: ac_simps)
qed

lemma sum_list_update_eq:
  fixes f :: "'a \<Rightarrow> 'b :: comm_monoid_add"
  assumes "i < length xs"
  shows "sum_list (map f (xs[i := y])) = f y + sum_list (map f (take i xs @ drop (Suc i) xs))"
  using assms by (simp add: upd_conv_take_nth_drop ac_simps)

end
