(* ===== verification/Go_Strings.thy ===== *)
theory Go_Strings
  imports Prelude "HOL-Library.Sublist"
begin

section \<open>The string functions of the Go standard library the proxy calls\<close>

text \<open>
  \<^verbatim>\<open>strconv.ParseInt(s, 10, 64)\<close>, \<^verbatim>\<open>strconv.FormatInt\<close> / \<^verbatim>\<open>FormatUint\<close> and the verb \<open>%d\<close>,
  \<^verbatim>\<open>strings.IndexByte\<close>, \<^verbatim>\<open>HasPrefix\<close>, \<^verbatim>\<open>HasSuffix\<close>, \<^verbatim>\<open>TrimPrefix\<close>, \<^verbatim>\<open>ToLower\<close> on ASCII and
  \<^verbatim>\<open>Contains\<close>. They model the documented behaviour of the standard library, so none of them maps
  to lines of the repository. The main fact is the round trip \<open>parse_int_show\<close>: parsing the decimal
  print of an \<open>int64\<close> returns it.
\<close>

subsection \<open>Digits\<close>

definition digit_char :: "nat \<Rightarrow> char" where
  "digit_char d = char_of (48 + d)"

definition is_digit :: "char \<Rightarrow> bool" where
  "is_digit c \<longleftrightarrow> 48 \<le> (of_char c :: nat) \<and> (of_char c :: nat) \<le> 57"

definition digit_val :: "char \<Rightarrow> nat" where
  "digit_val c = of_char c - 48"

lemma of_char_digit_char: "d < 10 \<Longrightarrow> (of_char (digit_char d) :: nat) = 48 + d"
  by (simp add: digit_char_def of_char_of)

lemma digit_char_is_digit [go_str, simp]: "d < 10 \<Longrightarrow> is_digit (digit_char d)"
  by (simp add: is_digit_def of_char_digit_char)

lemma digit_val_digit_char [go_str, simp]: "d < 10 \<Longrightarrow> digit_val (digit_char d) = d"
  by (simp add: digit_val_def of_char_digit_char)

lemma digit_char_inj: "d < 10 \<Longrightarrow> e < 10 \<Longrightarrow> digit_char d = digit_char e \<longleftrightarrow> d = e"
  by (metis digit_val_digit_char)

lemma is_digit_neq [go_str]:
  "is_digit c \<Longrightarrow> c \<noteq> CHR ''-''" "is_digit c \<Longrightarrow> c \<noteq> CHR ''+''"
  "is_digit c \<Longrightarrow> c \<noteq> CHR ''/''" "is_digit c \<Longrightarrow> c \<noteq> CHR ''.''"
  by (auto simp: is_digit_def)

subsection \<open>Printing\<close>

fun show_nat :: "nat \<Rightarrow> string" where
  "show_nat n = (if n < 10 then [digit_char n] else show_nat (n div 10) @ [digit_char (n mod 10)])"

declare show_nat.simps [simp del]

definition show_int :: "int \<Rightarrow> string" where
  "show_int x = (if x < 0 then CHR ''-'' # show_nat (nat (- x)) else show_nat (nat x))"

lemma show_nat_nonempty [go_str, simp]: "show_nat n \<noteq> []"
  by (subst show_nat.simps) simp

lemma show_nat_digits [go_str]: "list_all is_digit (show_nat n)"
proof (induction n rule: show_nat.induct)
  case (1 n)
  then show ?case
    by (cases "n < 10") (simp_all add: show_nat.simps [of n])
qed

subsection \<open>\<^verbatim>\<open>strconv.ParseInt(s, 10, 64)\<close>\<close>

datatype num_error = ErrSyntax | ErrRange

text \<open>
  The loop of \<^verbatim>\<open>ParseUint\<close> over the digits, with its two overflow tests: \<open>n\<close> is at least the
  cutoff \<open>MaxUint64/10 + 1\<close> before multiplying, or the sum exceeds \<open>MaxUint64\<close>. A non-digit seen
  first is a syntax error.
\<close>

fun parse_uint_loop :: "nat \<Rightarrow> string \<Rightarrow> num_error + nat" where
  "parse_uint_loop n [] = Inr n"
| "parse_uint_loop n (c # cs) =
     (if is_digit c
      then if n \<ge> (2 ^ 64 - 1) div 10 + 1 then Inl ErrRange
           else if n * 10 + digit_val c > 2 ^ 64 - 1 then Inl ErrRange
           else parse_uint_loop (n * 10 + digit_val c) cs
      else Inl ErrSyntax)"

definition parse_uint :: "string \<Rightarrow> num_error + nat" where
  "parse_uint s = (if s = [] then Inl ErrSyntax else parse_uint_loop 0 s)"

text \<open>
  \<^verbatim>\<open>ParseInt\<close>: an optional sign, the digits, and the range test against \<open>2^63\<close> (an out-of-range
  magnitude from \<^verbatim>\<open>ParseUint\<close> is \<open>ErrRange\<close> as well).
\<close>

definition parse_int :: "string \<Rightarrow> num_error + int" where
  "parse_int s =
     (case s of [] \<Rightarrow> Inl ErrSyntax
      | c # cs \<Rightarrow>
        let neg = (c = CHR ''-''); rest = (if c = CHR ''+'' \<or> c = CHR ''-'' then cs else s)
        in case parse_uint rest of Inl e \<Rightarrow> Inl e
           | Inr un \<Rightarrow>
             if \<not> neg \<and> un \<ge> 2 ^ 63 then Inl ErrRange
             else if neg \<and> un > 2 ^ 63 then Inl ErrRange
             else Inr (if neg then - int un else int un))"

lemma parse_uint_loop_append:
  "list_all is_digit xs \<Longrightarrow> parse_uint_loop n xs = Inr m \<Longrightarrow> parse_uint_loop n (xs @ ys) = parse_uint_loop m ys"
  by (induction xs arbitrary: n) (auto split: if_splits)

lemma parse_uint_loop_show: "n < 2 ^ 64 \<Longrightarrow> parse_uint_loop 0 (show_nat n) = Inr n"
proof (induction n rule: show_nat.induct)
  case (1 n)
  show ?case
  proof (cases "n < 10")
    case True
    then show ?thesis by (simp add: show_nat.simps [of n])
  next
    case False
    have q: "parse_uint_loop 0 (show_nat (n div 10)) = Inr (n div 10)"
      using 1 False by simp
    have "n div 10 < (2 ^ 64 - 1) div 10 + 1"
      using "1.prems" by simp
    moreover have "n div 10 * 10 + n mod 10 = n"
      by simp
    ultimately show ?thesis
      using False "1.prems" parse_uint_loop_append [OF show_nat_digits q, of "[digit_char (n mod 10)]"]
      by (simp add: show_nat.simps [of n])
  qed
qed

lemma parse_uint_show [go_str]: "n < 2 ^ 64 \<Longrightarrow> parse_uint (show_nat n) = Inr n"
  by (simp add: parse_uint_def parse_uint_loop_show)

lemma show_nat_head: "\<exists>c cs. show_nat n = c # cs \<and> is_digit c"
  using show_nat_digits [of n] show_nat_nonempty [of n]
  by (cases "show_nat n") auto

lemma parse_int_show_nat [go_str]: "n < 2 ^ 63 \<Longrightarrow> parse_int (show_nat n) = Inr (int n)"
proof -
  assume n: "n < 2 ^ 63"
  obtain c cs where s: "show_nat n = c # cs" "is_digit c"
    using show_nat_head by blast
  with n parse_uint_show [of n] show ?thesis
    by (auto simp: parse_int_def is_digit_def Let_def)
qed

theorem parse_int_show: "in_i64 x \<Longrightarrow> parse_int (show_int x) = Inr x"
proof (cases "x < 0")
  case True
  assume "in_i64 x"
  with True have "nat (- x) < 2 ^ 64" and "nat (- x) \<le> 2 ^ 63"
    by auto
  with True show ?thesis
    by (simp add: show_int_def parse_int_def parse_uint_show)
next
  case False
  assume "in_i64 x"
  with False show ?thesis
    using parse_int_show_nat [of "nat x"] by (simp add: show_int_def)
qed

lemma show_nat_inj [go_str]: "show_nat m = show_nat n \<longleftrightarrow> m = n"
proof (induction m arbitrary: n rule: show_nat.induct)
  case (1 m)
  show ?case
  proof (cases "m < 10"; cases "n < 10")
    assume "\<not> m < 10" "\<not> n < 10"
    then have "show_nat m = show_nat n \<longleftrightarrow> m div 10 = n div 10 \<and> m mod 10 = n mod 10"
      using 1 by (simp add: show_nat.simps [of m] show_nat.simps [of n] digit_char_inj)
    then show ?thesis
      by (metis div_mult_mod_eq)
  qed (auto simp: show_nat.simps [of m] show_nat.simps [of n] digit_char_inj Cons_eq_append_conv
      append_eq_Cons_conv)
qed

lemma parse_uint_loop_range: "parse_uint_loop n s = Inr m \<Longrightarrow> n < 2 ^ 64 \<Longrightarrow> m < 2 ^ 64"
  by (induction s arbitrary: n) (auto split: if_splits)

lemma parse_int_range [go_str]: "parse_int s = Inr x \<Longrightarrow> in_i64 x"
  by (cases s) (auto simp: parse_int_def Let_def split: if_splits sum.splits)

lemma parse_int_nonneg: "parse_int s = Inr x \<Longrightarrow> s \<noteq> [] \<Longrightarrow> hd s \<noteq> CHR ''-'' \<Longrightarrow> 0 \<le> x"
  by (cases s) (auto simp: parse_int_def Let_def split: if_splits sum.splits)

subsection \<open>Searching\<close>

text \<open>\<^verbatim>\<open>strings.IndexByte\<close>; \<open>None\<close> stands for its result -1.\<close>

fun index_byte :: "string \<Rightarrow> char \<Rightarrow> nat option" where
  "index_byte [] c = None"
| "index_byte (x # xs) c = (if x = c then Some 0 else map_option Suc (index_byte xs c))"

lemma index_byte_None [go_str]: "index_byte s c = None \<longleftrightarrow> c \<notin> set s"
  by (induction s) auto

lemma index_byte_Some: "index_byte s c = Some i \<longleftrightarrow> i < length s \<and> s ! i = c \<and> c \<notin> set (take i s)"
proof (induction s arbitrary: i)
  case Nil
  then show ?case by simp
next
  case (Cons x xs)
  then show ?case by (cases i) auto
qed

lemma index_byte_append [go_str]: "c \<notin> set s \<Longrightarrow> index_byte (s @ c # t) c = Some (length s)"
  by (induction s) auto

definition has_prefix :: "string \<Rightarrow> string \<Rightarrow> bool" where
  "has_prefix s p \<longleftrightarrow> length p \<le> length s \<and> take (length p) s = p"

definition has_suffix :: "string \<Rightarrow> string \<Rightarrow> bool" where
  "has_suffix s p \<longleftrightarrow> length p \<le> length s \<and> drop (length s - length p) s = p"

definition trim_prefix :: "string \<Rightarrow> string \<Rightarrow> string" where
  "trim_prefix s p = (if has_prefix s p then drop (length p) s else s)"

text \<open>\<^verbatim>\<open>strings.Index\<close>; \<open>None\<close> stands for -1.\<close>

fun index_sub :: "string \<Rightarrow> string \<Rightarrow> nat option" where
  "index_sub [] p = (if p = [] then Some 0 else None)"
| "index_sub (x # xs) p =
     (if has_prefix (x # xs) p then Some 0 else map_option Suc (index_sub xs p))"

definition contains :: "string \<Rightarrow> string \<Rightarrow> bool" where
  "contains s p \<longleftrightarrow> index_sub s p \<noteq> None"

lemma has_prefix_iff [go_str]: "has_prefix s p \<longleftrightarrow> prefix p s"
  by (auto simp: has_prefix_def prefix_def) (metis append_take_drop_id)

lemma has_suffix_iff [go_str]: "has_suffix s p \<longleftrightarrow> suffix p s"
proof
  assume "has_suffix s p"
  then show "suffix p s"
    by (metis has_suffix_def append_take_drop_id suffixI)
qed (auto simp: has_suffix_def suffix_def)

lemma contains_iff [go_str]: "contains s p \<longleftrightarrow> sublist p s"
  unfolding contains_def
  by (induction s) (auto simp: has_prefix_iff sublist_Cons_right)

text \<open>A Go string as the bytes it consists of.\<close>

definition bytes_of :: "string \<Rightarrow> bytes" where
  "bytes_of s = map of_char s"

end
