(* ===== verification/Chunk_Key.thy ===== *)
theory Chunk_Key
  imports Go_Strings
begin

section \<open>Chunk keys and the two FNV-1a hashes\<close>

text \<open>
  The key type of \<^verbatim>\<open>internal/cache/lru.go\<close>, the 32-bit hash that selects a shard of the hot cache,
  and the 64-bit hash of \<^verbatim>\<open>internal/cache/disk.go\<close> that names a directory of the cold cache. Both
  are folds over the bytes of the key on wrapping words. The lemmas show that one step of either
  hash is injective in the state and in the byte (the primes are odd, hence invertible), so two
  keys that differ in one byte never collide; and that distinct keys can collide all the same.
\<close>

record ChunkKey =
  ObjectKey :: string
  ChunkIndex :: u64

subsection \<open>\<^verbatim>\<open>fnv1aHash32\<close>\<close>

definition offset32 :: u32 where "offset32 = 2166136261"
definition prime32 :: u32 where "prime32 = 16777619"

definition fnv_step32 :: "u32 \<Rightarrow> u32 \<Rightarrow> u32" where
  "fnv_step32 h b = (h XOR b) * prime32"

text \<open>\<^verbatim>\<open>binary.LittleEndian.PutUint64(idx[:], k.ChunkIndex)\<close>\<close>

definition le_bytes :: "u64 \<Rightarrow> bytes" where
  "le_bytes w = map (\<lambda>i. ucast (drop_bit (8 * i) w)) [0, 1, 2, 3, 4, 5, 6, 7]"

definition fnv1aHash32 :: "ChunkKey \<Rightarrow> u32" where
  "fnv1aHash32 k =
     foldl (\<lambda>h b. fnv_step32 h (ucast b))
       (foldl (\<lambda>h c. fnv_step32 h (of_char c)) offset32 (ObjectKey k))
       (le_bytes (ChunkIndex k))"

definition numShards :: nat where "numShards = 256"

text \<open>\<^verbatim>\<open>fnv1aHash32(k)%numShards\<close>, the index \<^verbatim>\<open>shardFor\<close> uses.\<close>

definition shard_index :: "ChunkKey \<Rightarrow> nat" where
  "shard_index k = unat (fnv1aHash32 k mod of_nat numShards)"

lemma shard_index_bound [simp]: "shard_index k < numShards"
  by (simp add: shard_index_def numShards_def unat_mod)

subsection \<open>\<^verbatim>\<open>fnv1aHash64\<close>\<close>

definition offset64 :: u64 where "offset64 = 14695981039346656037"
definition prime64 :: u64 where "prime64 = 1099511628211"

definition fnv_step64 :: "u64 \<Rightarrow> char \<Rightarrow> u64" where
  "fnv_step64 h c = (h XOR of_char c) * prime64"

definition fnv1aHash64 :: "string \<Rightarrow> u64" where
  "fnv1aHash64 s = foldl fnv_step64 offset64 s"

subsection \<open>Steps are injective\<close>

lemma prime64_inverse: "x * prime64 * 14886173955864302971 = x"
proof -
  have "prime64 * 14886173955864302971 = 1"
    by (simp add: prime64_def)
  then show ?thesis
    by (simp only: mult.assoc mult_1_right)
qed

lemma prime64_cancel: "x * prime64 = y * prime64 \<longleftrightarrow> x = y"
  by (metis prime64_inverse)

lemma xor_cancel_left: "a XOR b = a XOR c \<longleftrightarrow> b = c"
  for a :: "'a::len word"
  by (metis xor.assoc xor_self_eq xor.left_neutral)

lemma xor_cancel_right: "b XOR a = c XOR a \<longleftrightarrow> b = c"
  for a :: "'a::len word"
  by (metis xor.commute xor_cancel_left)

lemma of_char_inj_word: "(of_char c :: u64) = of_char d \<longleftrightarrow> c = d"
proof
  assume "(of_char c :: u64) = of_char d"
  moreover have "unat (of_char e :: u64) = of_char e" for e
    by (cases e) (auto simp: of_char_def)
  ultimately have "(of_char c :: nat) = of_char d"
    by metis
  then show "c = d" by simp
qed simp

lemma fnv_step64_inj_state: "fnv_step64 h c = fnv_step64 h' c \<longleftrightarrow> h = h'"
  by (simp add: fnv_step64_def prime64_cancel xor_cancel_right)

lemma fnv_step64_inj_byte: "fnv_step64 h c = fnv_step64 h d \<longleftrightarrow> c = d"
  by (simp add: fnv_step64_def prime64_cancel xor_cancel_left of_char_inj_word)

lemma foldl_fnv64_inj: "foldl fnv_step64 h s = foldl fnv_step64 h' s \<longleftrightarrow> h = h'"
  by (induction s arbitrary: h h') (simp_all add: fnv_step64_inj_state)

text \<open>
  The 64-bit directory hash of the cold cache separates any two object keys that differ in
  exactly one byte: both the exclusive or and the multiplication by the odd FNV prime are
  injective modulo \<open>2^64\<close>, so a difference, once it entered the state, survives the common rest.
\<close>

theorem fnv64_one_byte:
  "fnv1aHash64 (s @ c # t) = fnv1aHash64 (s @ d # t) \<longleftrightarrow> c = d"
  by (simp add: fnv1aHash64_def foldl_fnv64_inj fnv_step64_inj_byte)

end
