(* ===== verification/Lru_Shard.thy ===== *)
theory Lru_Shard
  imports Chunk_Key
begin

section \<open>One shard of the hot cache\<close>

text \<open>
  The \<^verbatim>\<open>shard\<close> of \<^verbatim>\<open>internal/cache/lru.go\<close> with its pointers: the map \<open>items\<close> takes a key to a list
  element, the list \<open>evictList\<close> orders the elements from most to least recently used, and \<open>elems\<close>
  is the store that gives each element its \<^verbatim>\<open>*cacheEntry\<close> (an element is an address; an address at or
  above \<open>nextEl\<close> has not been allocated). Every operation runs under the shard's mutex, so each is
  one state transformer. \<open>onEvict\<close> is the program's only callback: an operation returns the calls it
  makes, in order, and \<open>hasOnEvict\<close> says whether the function is non-nil.

  The invariant \<open>shard_inv\<close> ties the three structures together; the abstraction \<open>shard_abs\<close> is the
  association list of the entries, most recent first, and the refinement lemmas show that the
  pointer code computes the obvious LRU operations \<open>lru_get\<close> and \<open>lru_put\<close> on it.
\<close>

record cacheEntry =
  ent_key :: ChunkKey
  ent_data :: bytes

type_synonym eviction = "ChunkKey \<times> bytes"

record shard =
  items :: "ChunkKey \<Rightarrow> nat option"
  evictList :: "nat list"
  elems :: "nat \<Rightarrow> cacheEntry"
  nextEl :: nat
  capacity :: int
  used :: int
  hasOnEvict :: bool

text \<open>The literal of \<^verbatim>\<open>NewHotCache\<close>.\<close>

definition new_shard :: "int \<Rightarrow> bool \<Rightarrow> shard" where
  "new_shard cap notify =
     \<lparr>items = (\<lambda>_. None), evictList = [], elems = (\<lambda>_. \<lparr>ent_key = \<lparr>ObjectKey = [], ChunkIndex = 0\<rparr>, ent_data = []\<rparr>),
      nextEl = 0, capacity = cap, used = 0, hasOnEvict = notify\<rparr>"

text \<open>\<^verbatim>\<open>(*list.List).MoveToFront\<close>: nothing happens to an element that is not in the list.\<close>

definition move_to_front :: "nat \<Rightarrow> nat list \<Rightarrow> nat list" where
  "move_to_front a xs = (if a \<in> set xs then a # remove1 a xs else xs)"

text \<open>The locked part of \<^verbatim>\<open>(*HotCache).Get\<close>.\<close>

definition shard_get :: "shard \<Rightarrow> ChunkKey \<Rightarrow> shard \<times> bytes option" where
  "shard_get s k =
     (case items s k of
        None \<Rightarrow> (s, None)
      | Some el \<Rightarrow> (s\<lparr>evictList := move_to_front el (evictList s)\<rparr>, Some (ent_data (elems s el))))"

text \<open>\<^verbatim>\<open>(*shard).evictTail\<close>, with the \<open>onEvict\<close> call it makes.\<close>

definition evictTail :: "shard \<Rightarrow> shard \<times> eviction list" where
  "evictTail s =
     (if evictList s = [] then (s, [])
      else let el = last (evictList s); entry = elems s el
           in (s\<lparr>evictList := remove1 el (evictList s),
                 items := (items s)(ent_key entry := None),
                 used := i64 (used s - int (length (ent_data entry)))\<rparr>,
               if hasOnEvict s then [(ent_key entry, ent_data entry)] else []))"

lemma evictTail_shrinks:
  "evictList s \<noteq> [] \<Longrightarrow> length (evictList (fst (evictTail s))) < length (evictList s)"
  by (simp add: evictTail_def Let_def length_remove1)

text \<open>
  \<^verbatim>\<open>for s.used+size > s.capacity && s.evictList.Len() > 0 { s.evictTail() }\<close>: each round removes
  one element, so the loop ends.
\<close>

function evict_loop :: "int \<Rightarrow> shard \<Rightarrow> shard \<times> eviction list" where
  "evict_loop sz s =
     (if i64 (used s + sz) > capacity s \<and> length (evictList s) > 0
      then let (s1, ev) = evictTail s; (s2, evs) = evict_loop sz s1 in (s2, ev @ evs)
      else (s, []))"
  by pat_completeness auto
termination
proof (relation "measure (\<lambda>(sz, s). length (evictList s))", goal_cases)
  case 1
  show ?case by simp
next
  case (2 sz s x s1 ev)
  then show ?case
    using evictTail_shrinks [of s] by (metis case_prod_conv fst_conv in_measure length_greater_0_conv)
qed

declare evict_loop.simps [simp del]

text \<open>The locked part of \<^verbatim>\<open>(*HotCache).Put\<close>; \<open>PushFront\<close> allocates the next element.\<close>

definition shard_put :: "shard \<Rightarrow> ChunkKey \<Rightarrow> bytes \<Rightarrow> shard \<times> eviction list" where
  "shard_put s k data =
     (let sz = int (length data)
      in case items s k of
           Some el \<Rightarrow>
             let s1 = s\<lparr>evictList := move_to_front el (evictList s)\<rparr>;
                 old = elems s1 el;
                 s2 = s1\<lparr>used := i64 (used s1 - int (length (ent_data old)))\<rparr>;
                 s3 = s2\<lparr>elems := (elems s2)(el := old\<lparr>ent_data := data\<rparr>)\<rparr>;
                 s4 = s3\<lparr>used := i64 (used s3 + sz)\<rparr>
             in (s4, [])
         | None \<Rightarrow>
             let (s1, evs) = evict_loop sz s;
                 el = nextEl s1;
                 s2 = s1\<lparr>elems := (elems s1)(el := \<lparr>ent_key = k, ent_data = data\<rparr>), nextEl := Suc el,
                         evictList := el # evictList s1\<rparr>;
                 s3 = s2\<lparr>items := (items s2)(k \<mapsto> el)\<rparr>;
                 s4 = s3\<lparr>used := i64 (used s3 + sz)\<rparr>
             in (s4, evs))"

subsection \<open>The abstract LRU list\<close>

type_synonym lru = "(ChunkKey \<times> bytes) list"

definition entry_at :: "shard \<Rightarrow> nat \<Rightarrow> ChunkKey \<times> bytes" where
  "entry_at s a = (ent_key (elems s a), ent_data (elems s a))"

definition shard_abs :: "shard \<Rightarrow> lru" where
  "shard_abs s = map (entry_at s) (evictList s)"

definition lru_bytes :: "lru \<Rightarrow> int" where
  "lru_bytes c = sum_list (map (\<lambda>(k, d). int (length d)) c)"

definition lru_remove :: "ChunkKey \<Rightarrow> lru \<Rightarrow> lru" where
  "lru_remove k c = filter (\<lambda>(k', d). k' \<noteq> k) c"

definition lru_get :: "lru \<Rightarrow> ChunkKey \<Rightarrow> lru \<times> bytes option" where
  "lru_get c k =
     (case map_of c k of None \<Rightarrow> (c, None) | Some d \<Rightarrow> ((k, d) # lru_remove k c, Some d))"

text \<open>The longest prefix whose bytes fit a budget: what may stay, most recent first.\<close>

fun lru_fit :: "int \<Rightarrow> lru \<Rightarrow> lru" where
  "lru_fit b [] = []"
| "lru_fit b ((k, d) # c) = (if int (length d) \<le> b then (k, d) # lru_fit (b - int (length d)) c else [])"

definition lru_put :: "int \<Rightarrow> lru \<Rightarrow> ChunkKey \<Rightarrow> bytes \<Rightarrow> lru \<times> eviction list" where
  "lru_put cap c k d =
     (if map_of c k \<noteq> None then ((k, d) # lru_remove k c, [])
      else let keep = lru_fit (cap - int (length d)) c
           in ((k, d) # keep, rev (drop (length keep) c)))"

lemma lru_bytes_simps [simp]:
  "lru_bytes [] = 0" "lru_bytes ((k, d) # c) = int (length d) + lru_bytes c" "lru_bytes (c @ c') = lru_bytes c + lru_bytes c'"
  by (simp_all add: lru_bytes_def)

lemma lru_bytes_nonneg: "0 \<le> lru_bytes c"
  by (induction c) (auto simp: lru_bytes_def)

lemma lru_fit_all: "lru_bytes c \<le> b \<Longrightarrow> lru_fit b c = c"
proof (induction b c rule: lru_fit.induct)
  case (2 b k d c)
  moreover have "0 \<le> lru_bytes c"
    by (rule lru_bytes_nonneg)
  ultimately show ?case by auto
qed simp

lemma lru_fit_snoc: "lru_bytes (c @ [x]) > b \<Longrightarrow> lru_fit b (c @ [x]) = lru_fit b c"
proof (induction b c rule: lru_fit.induct)
  case (1 b)
  then show ?case by (cases x) simp
qed auto

lemma lru_fit_total: "0 \<le> b \<or> lru_fit b c \<noteq> [] \<Longrightarrow> lru_bytes (lru_fit b c) \<le> b"
proof (induction b c rule: lru_fit.induct)
  case (2 b k d c)
  then show ?case by (cases "lru_fit (b - int (length d)) c = []") auto
qed auto

lemma lru_fit_prefix: "lru_fit b c @ drop (length (lru_fit b c)) c = c"
  by (induction b c rule: lru_fit.induct) auto

lemma lru_fit_maximal:
  "drop (length (lru_fit b c)) c = x # rest \<Longrightarrow> lru_bytes (lru_fit b c @ [x]) > b"
proof (induction b c rule: lru_fit.induct)
  case (2 b k d c)
  then show ?case by (cases x) (auto split: if_splits)
qed auto

subsection \<open>The invariant between the pointers, the map and the byte count\<close>

definition shard_inv :: "shard \<Rightarrow> bool" where
  "shard_inv s \<longleftrightarrow>
     distinct (evictList s) \<and>
     (\<forall>a \<in> set (evictList s). a < nextEl s) \<and>
     (\<forall>k a. items s k = Some a \<longleftrightarrow> a \<in> set (evictList s) \<and> ent_key (elems s a) = k) \<and>
     used s = i64 (lru_bytes (shard_abs s))"

lemma shard_invD:
  assumes "shard_inv s"
  shows shard_inv_distinct: "distinct (evictList s)"
    and shard_inv_fresh: "a \<in> set (evictList s) \<Longrightarrow> a < nextEl s"
    and shard_inv_items: "items s k = Some a \<longleftrightarrow> a \<in> set (evictList s) \<and> ent_key (elems s a) = k"
    and shard_inv_used: "used s = i64 (lru_bytes (shard_abs s))"
  using assms by (auto simp: shard_inv_def)

lemma shard_inv_inj:
  assumes "shard_inv s"
  shows "inj_on (\<lambda>a. ent_key (elems s a)) (set (evictList s))"
proof (rule inj_onI)
  fix a b
  assume "a \<in> set (evictList s)" "b \<in> set (evictList s)" "ent_key (elems s a) = ent_key (elems s b)"
  then have "items s (ent_key (elems s b)) = Some a" "items s (ent_key (elems s b)) = Some b"
    using assms by (simp_all add: shard_inv_items)
  then show "a = b" by simp
qed

lemma shard_inv_keys:
  assumes "shard_inv s"
  shows "distinct (map fst (shard_abs s))"
proof -
  have "map fst (shard_abs s) = map (\<lambda>a. ent_key (elems s a)) (evictList s)"
    by (simp add: shard_abs_def entry_at_def)
  then show ?thesis
    using assms by (simp add: distinct_map shard_inv_inj shard_inv_distinct)
qed

lemma items_None:
  "shard_inv s \<Longrightarrow> items s k = None \<longleftrightarrow> k \<notin> fst ` set (shard_abs s)"
proof -
  assume inv: "shard_inv s"
  have "items s k = None \<longleftrightarrow> (\<forall>a. items s k \<noteq> Some a)"
    by simp
  also have "\<dots> \<longleftrightarrow> k \<notin> fst ` set (shard_abs s)"
    using inv by (force simp: shard_inv_items shard_abs_def entry_at_def)
  finally show ?thesis .
qed

lemma map_of_shard_abs:
  assumes "shard_inv s"
  shows "map_of (shard_abs s) k = map_option (\<lambda>a. ent_data (elems s a)) (items s k)"
proof (cases "items s k")
  case None
  with assms have "map_of (shard_abs s) k = None"
    by (simp add: items_None map_of_eq_None_iff)
  with None show ?thesis by simp
next
  case (Some a)
  with assms have "(k, ent_data (elems s a)) \<in> set (shard_abs s)"
    by (auto simp: shard_inv_items shard_abs_def entry_at_def)
  with assms Some show ?thesis
    by (simp add: shard_inv_keys)
qed

lemma shard_inv_new [simp]: "shard_inv (new_shard cap notify)"
  by (simp add: shard_inv_def new_shard_def shard_abs_def)

lemma new_shard_sel [simp]:
  "capacity (new_shard cap notify) = cap" "hasOnEvict (new_shard cap notify) = notify"
  "evictList (new_shard cap notify) = []"
  by (simp_all add: new_shard_def)

lemma shard_abs_new [simp]: "shard_abs (new_shard cap notify) = []"
  by (simp add: shard_abs_def new_shard_def)

subsection \<open>Moving an element to the front\<close>

lemma set_move_to_front [simp]: "set (move_to_front a xs) = set xs"
  by (induction xs) (auto simp: move_to_front_def in_set_remove1)

lemma distinct_move_to_front [simp]: "distinct xs \<Longrightarrow> distinct (move_to_front a xs)"
  by (simp add: move_to_front_def distinct_remove1)

lemma abs_remove1:
  assumes "shard_inv s" and "a \<in> set (evictList s)"
  shows "map (entry_at s) (remove1 a (evictList s)) = lru_remove (ent_key (elems s a)) (shard_abs s)"
proof -
  have "remove1 a (evictList s) = filter (\<lambda>b. ent_key (elems s b) \<noteq> ent_key (elems s a)) (evictList s)"
  proof -
    have "remove1 a (evictList s) = filter (\<lambda>b. b \<noteq> a) (evictList s)"
      using shard_inv_distinct [OF assms(1)] by (simp add: distinct_remove1_removeAll removeAll_filter_not_eq)
        (metis (mono_tags, lifting))
    also have "\<dots> = filter (\<lambda>b. ent_key (elems s b) \<noteq> ent_key (elems s a)) (evictList s)"
      using shard_inv_inj [OF assms(1)] assms(2) by (auto intro!: filter_cong dest: inj_onD)
    finally show ?thesis .
  qed
  then show ?thesis
    by (simp add: lru_remove_def shard_abs_def filter_map o_def entry_at_def)
qed

lemma abs_move_to_front:
  assumes "shard_inv s" and "items s k = Some a"
  shows "map (entry_at s) (move_to_front a (evictList s)) =
         (k, ent_data (elems s a)) # lru_remove k (shard_abs s)"
  using assms abs_remove1 [of s a] by (simp add: shard_inv_items move_to_front_def entry_at_def)

lemma lru_bytes_remove:
  assumes "distinct (map fst c)" and "map_of c k = Some d"
  shows "lru_bytes (lru_remove k c) = lru_bytes c - int (length d)"
  using assms
proof (induction c)
  case (Cons x c)
  then show ?case
  proof (cases "fst x = k")
    case True
    with Cons.prems have "lru_remove k c = c"
      by (auto simp: lru_remove_def filter_id_conv image_iff split_beta)
    with True Cons.prems show ?thesis
      by (cases x) (simp add: lru_remove_def)
  qed (auto simp: lru_remove_def split_beta lru_bytes_def)
qed simp

subsection \<open>\<open>Get\<close> refines \<open>lru_get\<close>\<close>

lemma shard_get_simps:
  "items s k = None \<Longrightarrow> shard_get s k = (s, None)"
  "items s k = Some a \<Longrightarrow>
     shard_get s k = (s\<lparr>evictList := move_to_front a (evictList s)\<rparr>, Some (ent_data (elems s a)))"
  by (simp_all add: shard_get_def)

lemma entry_at_update_list [simp]:
  "entry_at (s\<lparr>evictList := xs\<rparr>) = entry_at s" "entry_at (s\<lparr>items := m\<rparr>) = entry_at s"
  "entry_at (s\<lparr>used := u\<rparr>) = entry_at s" "entry_at (s\<lparr>nextEl := n\<rparr>) = entry_at s"
  by (simp_all add: fun_eq_iff entry_at_def)

lemma shard_get_refines:
  assumes "shard_inv s"
  shows "lru_get (shard_abs s) k = (shard_abs (fst (shard_get s k)), snd (shard_get s k))"
proof (cases "items s k")
  case None
  with assms show ?thesis
    by (simp add: shard_get_simps lru_get_def map_of_shard_abs)
next
  case (Some a)
  with assms abs_move_to_front [OF assms Some] show ?thesis
    by (simp add: shard_get_simps lru_get_def map_of_shard_abs) (simp add: shard_abs_def)
qed

lemma shard_get_inv:
  assumes "shard_inv s"
  shows "shard_inv (fst (shard_get s k))"
proof (cases "items s k")
  case None
  with assms show ?thesis by (simp add: shard_get_simps)
next
  case (Some a)
  let ?s = "s\<lparr>evictList := move_to_front a (evictList s)\<rparr>"
  have abs: "shard_abs ?s = (k, ent_data (elems s a)) # lru_remove k (shard_abs s)"
    using abs_move_to_front [OF assms Some] by (simp add: shard_abs_def)
  have "lru_bytes (shard_abs ?s) = lru_bytes (shard_abs s)"
    using assms Some by (simp add: abs lru_bytes_remove shard_inv_keys map_of_shard_abs)
  then show ?thesis
    using assms Some by (simp add: shard_get_simps shard_inv_def)
qed

lemma shard_get_frame [simp]:
  "capacity (fst (shard_get s k)) = capacity s" "hasOnEvict (fst (shard_get s k)) = hasOnEvict s"
  by (auto simp: shard_get_def split: option.split)

subsection \<open>\<open>evictTail\<close> drops the least recently used entry\<close>

lemma evictTail_refines:
  assumes "shard_inv s" and "evictList s \<noteq> []"
  shows "shard_abs (fst (evictTail s)) = butlast (shard_abs s)"
    and "snd (evictTail s) = (if hasOnEvict s then [last (shard_abs s)] else [])"
    and "shard_inv (fst (evictTail s))"
proof -
  let ?el = "last (evictList s)"
  let ?s = "fst (evictTail s)"
  have el: "?el \<in> set (evictList s)"
    using assms(2) by simp
  have list: "evictList ?s = butlast (evictList s)"
    using assms by (simp add: evictTail_def Let_def remove1_last shard_inv_distinct)
  have at: "entry_at ?s = entry_at s"
    by (simp add: evictTail_def Let_def fun_eq_iff entry_at_def)
  show abs: "shard_abs ?s = butlast (shard_abs s)"
    by (simp add: shard_abs_def list at map_butlast)
  show ev: "snd (evictTail s) = (if hasOnEvict s then [last (shard_abs s)] else [])"
    using assms(2) by (simp add: evictTail_def Let_def shard_abs_def last_map entry_at_def)
  have "shard_abs s = butlast (shard_abs s) @ [last (shard_abs s)]"
    using assms(2) by (simp add: shard_abs_def)
  then have "lru_bytes (shard_abs s) = lru_bytes (butlast (shard_abs s)) + lru_bytes [last (shard_abs s)]"
    by (metis lru_bytes_simps(3))
  moreover have "lru_bytes [last (shard_abs s)] = int (length (ent_data (elems s ?el)))"
    using assms(2) by (simp add: shard_abs_def last_map entry_at_def)
  ultimately have bytes: "used ?s = i64 (lru_bytes (shard_abs ?s))"
    using assms by (simp add: abs) (simp add: evictTail_def Let_def shard_inv_used)
  have set: "set (butlast (evictList s)) = set (evictList s) - {?el}"
    using shard_inv_distinct [OF assms(1)] assms(2)
    by (metis remove1_last distinct_remove1_set)
  have "items ?s k = Some a \<longleftrightarrow> a \<in> set (evictList ?s) \<and> ent_key (elems ?s a) = k" for k a
  proof -
    have "items ?s = (items s)(ent_key (elems s ?el) := None)" "elems ?s = elems s"
      using assms(2) by (simp_all add: evictTail_def Let_def)
    then show ?thesis
      using shard_inv_items [OF assms(1), of k a] shard_inv_inj [OF assms(1)] el
      by (auto simp: list set dest: inj_onD)
  qed
  moreover have "distinct (evictList ?s)"
    using assms(1) by (simp add: list shard_inv_distinct distinct_butlast)
  moreover have "\<forall>a \<in> set (evictList ?s). a < nextEl ?s"
    using assms by (auto simp: list set shard_inv_fresh) (simp add: evictTail_def Let_def shard_inv_fresh)
  ultimately show "shard_inv ?s"
    using bytes by (simp add: shard_inv_def)
qed

lemma evictTail_frame [simp]:
  "capacity (fst (evictTail s)) = capacity s" "hasOnEvict (fst (evictTail s)) = hasOnEvict s"
  "nextEl (fst (evictTail s)) = nextEl s"
  by (simp_all add: evictTail_def Let_def)

subsection \<open>The eviction loop keeps the longest prefix that fits\<close>

lemma evict_loop_stop:
  "\<not> (i64 (used s + sz) > capacity s \<and> evictList s \<noteq> []) \<Longrightarrow> evict_loop sz s = (s, [])"
  by (subst evict_loop.simps) (simp del: de_Morgan_conj)

lemma evict_loop_step:
  "i64 (used s + sz) > capacity s \<Longrightarrow> evictList s \<noteq> [] \<Longrightarrow>
     evict_loop sz s =
       (fst (evict_loop sz (fst (evictTail s))), snd (evictTail s) @ snd (evict_loop sz (fst (evictTail s))))"
  by (subst evict_loop.simps) (simp add: Let_def split_beta)

lemma evict_loop_inv:
  "shard_inv s \<Longrightarrow>
     shard_inv (fst (evict_loop sz s)) \<and> capacity (fst (evict_loop sz s)) = capacity s \<and>
     hasOnEvict (fst (evict_loop sz s)) = hasOnEvict s \<and>
     (\<exists>dropped. shard_abs s = shard_abs (fst (evict_loop sz s)) @ dropped \<and>
        snd (evict_loop sz s) = (if hasOnEvict s then rev dropped else []))"
proof (induction sz s rule: evict_loop.induct)
  case (1 sz s)
  show ?case
  proof (cases "i64 (used s + sz) > capacity s \<and> evictList s \<noteq> []")
    case True
    let ?s1 = "fst (evictTail s)"
    note t = evictTail_refines [OF "1.prems" conjunct2 [OF True]]
    obtain dropped where d: "shard_abs ?s1 = shard_abs (fst (evict_loop sz ?s1)) @ dropped"
      "snd (evict_loop sz ?s1) = (if hasOnEvict s then rev dropped else [])"
      and i: "shard_inv (fst (evict_loop sz ?s1))" "capacity (fst (evict_loop sz ?s1)) = capacity s"
        "hasOnEvict (fst (evict_loop sz ?s1)) = hasOnEvict s"
      using "1.IH" [of "evictTail s" ?s1 "snd (evictTail s)"] True t(3) by auto
    have "shard_abs s = shard_abs ?s1 @ [last (shard_abs s)]"
      using True t(1) by (simp add: shard_abs_def)
    with d have "shard_abs s = shard_abs (fst (evict_loop sz ?s1)) @ (dropped @ [last (shard_abs s)])"
      by simp
    with d i True t(2) show ?thesis
      by (subst (1 2 3 4 5) evict_loop_step) auto
  next
    case False
    with "1.prems" show ?thesis
      by (simp add: evict_loop_stop)
  qed
qed

lemma no_wrap:
  "shard_inv s \<Longrightarrow> 0 \<le> sz \<Longrightarrow> lru_bytes (shard_abs s) + sz < 2 ^ 63 \<Longrightarrow>
     i64 (used s + sz) = lru_bytes (shard_abs s) + sz"
  using lru_bytes_nonneg [of "shard_abs s"] by (simp add: shard_inv_used i64_id)

lemma evict_loop_refines:
  "shard_inv s \<Longrightarrow> 0 \<le> sz \<Longrightarrow> lru_bytes (shard_abs s) + sz < 2 ^ 63 \<Longrightarrow>
     shard_abs (fst (evict_loop sz s)) = lru_fit (capacity s - sz) (shard_abs s)"
proof (induction sz s rule: evict_loop.induct)
  case (1 sz s)
  show ?case
  proof (cases "i64 (used s + sz) > capacity s \<and> evictList s \<noteq> []")
    case True
    let ?s1 = "fst (evictTail s)"
    note t = evictTail_refines [OF "1.prems"(1) conjunct2 [OF True]]
    have split: "shard_abs s = shard_abs ?s1 @ [last (shard_abs s)]"
      using True t(1) by (simp add: shard_abs_def)
    then have "lru_bytes (shard_abs ?s1) \<le> lru_bytes (shard_abs s)"
      by (metis lru_bytes_simps(3) lru_bytes_nonneg le_add_same_cancel1)
    then have "shard_abs (fst (evict_loop sz ?s1)) = lru_fit (capacity s - sz) (shard_abs ?s1)"
      using "1.IH" [of "evictTail s" ?s1 "snd (evictTail s)"] True t(3) "1.prems" by simp
    also have "\<dots> = lru_fit (capacity s - sz) (shard_abs s)"
    proof -
      have "lru_bytes (shard_abs s) > capacity s - sz"
        using True no_wrap [OF "1.prems"] by simp
      then show ?thesis
        using split lru_fit_snoc by metis
    qed
    finally show ?thesis
      using True by (simp add: evict_loop_step)
  next
    case False
    then have "lru_bytes (shard_abs s) \<le> capacity s - sz \<or> shard_abs s = []"
      using no_wrap [OF "1.prems"] by (auto simp: shard_abs_def)
    then show ?thesis
      using False by (auto simp: evict_loop_stop lru_fit_all)
  qed
qed

subsection \<open>\<open>Put\<close> keeps the invariant and refines \<open>lru_put\<close>\<close>

lemma shard_put_hit:
  assumes "shard_inv s" and "items s k = Some a"
  shows "shard_abs (fst (shard_put s k d)) = (k, d) # lru_remove k (shard_abs s)"
    and "shard_inv (fst (shard_put s k d))"
    and "snd (shard_put s k d) = []"
proof -
  let ?s = "fst (shard_put s k d)"
  have a: "a \<in> set (evictList s)" "ent_key (elems s a) = k"
    using assms by (simp_all add: shard_inv_items)
  have fields: "evictList ?s = a # remove1 a (evictList s)" "items ?s = items s" "nextEl ?s = nextEl s"
    "elems ?s = (elems s)(a := (elems s a)\<lparr>ent_data := d\<rparr>)"
    "used ?s = i64 (used s - int (length (ent_data (elems s a))) + int (length d))"
    using assms(2) a by (simp_all add: shard_put_def Let_def move_to_front_def)
  have at: "entry_at ?s a = (k, d)" "b \<noteq> a \<Longrightarrow> entry_at ?s b = entry_at s b" for b
    using a by (simp_all add: entry_at_def fields)
  have "map (entry_at ?s) (remove1 a (evictList s)) = map (entry_at s) (remove1 a (evictList s))"
    using at shard_inv_distinct [OF assms(1)] by auto
  then show abs: "shard_abs ?s = (k, d) # lru_remove k (shard_abs s)"
    using abs_remove1 [OF assms(1) a(1)] a at by (simp add: shard_abs_def fields)
  have "lru_bytes (shard_abs ?s) = lru_bytes (shard_abs s) - int (length (ent_data (elems s a))) + int (length d)"
    using assms by (simp add: abs lru_bytes_remove shard_inv_keys map_of_shard_abs)
  then have "used ?s = i64 (lru_bytes (shard_abs ?s))"
    using assms(1) i64_add_left [of "lru_bytes (shard_abs s)" "int (length d) - int (length (ent_data (elems s a)))"]
    by (simp add: fields shard_inv_used add_diff_eq diff_add_eq)
  moreover have "set (evictList ?s) = set (evictList s)"
    using a shard_inv_distinct [OF assms(1)] by (auto simp: fields)
  moreover have "distinct (evictList ?s)"
    using shard_inv_distinct [OF assms(1)] by (simp add: fields distinct_remove1)
  moreover have "ent_key (elems ?s b) = ent_key (elems s b)" for b
    by (simp add: fields)
  ultimately show "shard_inv ?s"
    using assms(1) by (simp add: shard_inv_def fields)
  show "snd (shard_put s k d) = []"
    using assms(2) by (simp add: shard_put_def Let_def)
qed

lemma lru_remove_absent: "map_of c k = None \<Longrightarrow> lru_remove k c = c"
  by (auto simp: lru_remove_def filter_id_conv map_of_eq_None_iff image_iff split_beta)

lemma shard_put_miss:
  assumes "shard_inv s" and "items s k = None"
  shows "shard_abs (fst (shard_put s k d)) = (k, d) # shard_abs (fst (evict_loop (int (length d)) s))"
    and "shard_inv (fst (shard_put s k d))"
    and "snd (shard_put s k d) = snd (evict_loop (int (length d)) s)"
proof -
  let ?t = "fst (evict_loop (int (length d)) s)"
  let ?s = "fst (shard_put s k d)"
  let ?el = "nextEl ?t"
  from evict_loop_inv [OF assms(1), of "int (length d)"]
  obtain dropped where t: "shard_inv ?t" and dropped: "shard_abs s = shard_abs ?t @ dropped"
    by blast
  have fields: "evictList ?s = ?el # evictList ?t" "items ?s = (items ?t)(k \<mapsto> ?el)" "nextEl ?s = Suc ?el"
    "elems ?s = (elems ?t)(?el := \<lparr>ent_key = k, ent_data = d\<rparr>)" "used ?s = i64 (used ?t + int (length d))"
    using assms(2) by (simp_all add: shard_put_def Let_def split_beta)
  show "snd (shard_put s k d) = snd (evict_loop (int (length d)) s)"
    using assms(2) by (simp add: shard_put_def Let_def split_beta)
  have fresh: "?el \<notin> set (evictList ?t)"
    using shard_inv_fresh [OF t] by blast
  have k: "items ?t k = None"
  proof -
    have "k \<notin> fst ` set (shard_abs s)"
      using assms by (simp add: items_None)
    with dropped have "k \<notin> fst ` set (shard_abs ?t)"
      by (metis Un_iff image_Un set_append)
    with t show ?thesis
      by (simp add: items_None)
  qed
  have at: "entry_at ?s ?el = (k, d)" "b \<noteq> ?el \<Longrightarrow> entry_at ?s b = entry_at ?t b" for b
    by (simp_all add: entry_at_def fields)
  have "map (entry_at ?s) (evictList ?t) = map (entry_at ?t) (evictList ?t)"
    using fresh by (intro map_cong refl at(2)) blast
  then show abs: "shard_abs ?s = (k, d) # shard_abs ?t"
    using at by (simp add: shard_abs_def fields)
  have "items ?s k' = Some a \<longleftrightarrow> a \<in> set (evictList ?s) \<and> ent_key (elems ?s a) = k'" for k' a
    using shard_inv_items [OF t, of k' a] shard_inv_items [OF t, of k a] k fresh by (auto simp: fields)
  moreover have "used ?s = i64 (lru_bytes (shard_abs ?s))"
    using t by (simp add: fields abs shard_inv_used add.commute)
  ultimately show "shard_inv ?s"
    using t fresh shard_inv_fresh [OF t] by (auto simp: shard_inv_def fields less_Suc_eq)
qed

lemma shard_put_inv: "shard_inv s \<Longrightarrow> shard_inv (fst (shard_put s k d))"
  using shard_put_hit(2) shard_put_miss(2) by (cases "items s k") blast+

lemma shard_put_frame [simp]:
  "shard_inv s \<Longrightarrow> capacity (fst (shard_put s k d)) = capacity s"
  "shard_inv s \<Longrightarrow> hasOnEvict (fst (shard_put s k d)) = hasOnEvict s"
  using evict_loop_inv [of s "int (length d)"]
  by (auto simp: shard_put_def Let_def split_beta split: option.split)

lemma shard_put_refines_lru:
  assumes "shard_inv s" and "hasOnEvict s" and "lru_bytes (shard_abs s) + int (length d) < 2 ^ 63"
  shows "lru_put (capacity s) (shard_abs s) k d = (shard_abs (fst (shard_put s k d)), snd (shard_put s k d))"
proof (cases "items s k")
  case None
  from evict_loop_inv [OF assms(1), of "int (length d)"] assms(2)
  obtain dropped where d: "shard_abs s = shard_abs (fst (evict_loop (int (length d)) s)) @ dropped"
    "snd (evict_loop (int (length d)) s) = rev dropped"
    by auto
  moreover have "lru_fit (capacity s - int (length d)) (shard_abs s) = shard_abs (fst (evict_loop (int (length d)) s))"
    using evict_loop_refines [OF assms(1) _ assms(3)] by simp
  moreover have "map_of (shard_abs s) k = None"
    using None assms(1) by (simp add: map_of_shard_abs)
  moreover have "drop (length (shard_abs (fst (evict_loop (int (length d)) s)))) (shard_abs s) = dropped"
    using d(1) by (metis append_eq_conv_conj)
  ultimately show ?thesis
    using shard_put_miss [OF assms(1) None, of d] d(2) by (simp add: lru_put_def Let_def)
next
  case (Some a)
  with assms(1) show ?thesis
    by (simp add: lru_put_def map_of_shard_abs shard_put_hit)
qed

subsection \<open>Histories of one shard\<close>

datatype shard_op = OpGet ChunkKey | OpPut ChunkKey bytes

datatype shard_out = Got "bytes option" | Evicted "eviction list"

fun shard_step :: "shard \<Rightarrow> shard_op \<Rightarrow> shard \<times> shard_out" where
  "shard_step s (OpGet k) = (let (s', r) = shard_get s k in (s', Got r))"
| "shard_step s (OpPut k d) = (let (s', ev) = shard_put s k d in (s', Evicted ev))"

fun shard_run :: "shard \<Rightarrow> shard_op list \<Rightarrow> shard \<times> shard_out list" where
  "shard_run s [] = (s, [])"
| "shard_run s (x # xs) =
     (let (s1, o1) = shard_step s x; (s2, os) = shard_run s1 xs in (s2, o1 # os))"

fun lru_step :: "int \<Rightarrow> lru \<Rightarrow> shard_op \<Rightarrow> lru \<times> shard_out" where
  "lru_step cap c (OpGet k) = (let (c', r) = lru_get c k in (c', Got r))"
| "lru_step cap c (OpPut k d) = (let (c', ev) = lru_put cap c k d in (c', Evicted ev))"

fun lru_run :: "int \<Rightarrow> lru \<Rightarrow> shard_op list \<Rightarrow> lru \<times> shard_out list" where
  "lru_run cap c [] = (c, [])"
| "lru_run cap c (x # xs) =
     (let (c1, o1) = lru_step cap c x; (c2, os) = lru_run cap c1 xs in (c2, o1 # os))"

fun op_bytes :: "shard_op \<Rightarrow> int" where
  "op_bytes (OpGet k) = 0"
| "op_bytes (OpPut k d) = int (length d)"

lemma shard_step_inv: "shard_inv s \<Longrightarrow> shard_inv (fst (shard_step s x))"
  by (cases x) (simp_all add: split_beta shard_get_inv shard_put_inv)

lemma shard_step_frame [simp]:
  "shard_inv s \<Longrightarrow> capacity (fst (shard_step s x)) = capacity s"
  "shard_inv s \<Longrightarrow> hasOnEvict (fst (shard_step s x)) = hasOnEvict s"
  by (cases x; simp add: split_beta)+

lemma shard_run_keeps_inv: "shard_inv s \<Longrightarrow> shard_inv (fst (shard_run s xs))"
  by (induction xs arbitrary: s) (simp_all add: split_beta shard_step_inv)

lemma lru_bytes_fit: "lru_bytes (lru_fit b c) \<le> lru_bytes c"
  by (metis lru_fit_prefix lru_bytes_simps(3) lru_bytes_nonneg le_add_same_cancel1)

lemma lru_bytes_filter: "lru_bytes (lru_remove k c) \<le> lru_bytes c"
  by (induction c) (auto simp: lru_remove_def)

lemma lru_step_bytes:
  "distinct (map fst c) \<Longrightarrow> lru_bytes (fst (lru_step cap c x)) \<le> lru_bytes c + op_bytes x"
  using lru_bytes_fit lru_bytes_filter
  by (cases x) (auto simp: split_beta lru_get_def lru_put_def Let_def lru_bytes_remove split: option.split)

lemma shard_step_refines:
  assumes "shard_inv s" and "hasOnEvict s" and "lru_bytes (shard_abs s) + op_bytes x < 2 ^ 63"
  shows "lru_step (capacity s) (shard_abs s) x = (shard_abs (fst (shard_step s x)), snd (shard_step s x))"
  using assms shard_get_refines shard_put_refines_lru by (cases x) (simp_all add: split_beta)

lemma shard_run_refines:
  "shard_inv s \<Longrightarrow> hasOnEvict s \<Longrightarrow> lru_bytes (shard_abs s) + sum_list (map op_bytes xs) < 2 ^ 63 \<Longrightarrow>
     lru_run (capacity s) (shard_abs s) xs = (shard_abs (fst (shard_run s xs)), snd (shard_run s xs))"
proof (induction xs arbitrary: s)
  case Nil
  then show ?case by simp
next
  case (Cons x xs)
  have nonneg: "0 \<le> sum_list (map op_bytes xs)"
    by (rule sum_list_nonneg_int) (metis op_bytes.elims of_nat_0_le_iff order_refl)
  then have step: "lru_step (capacity s) (shard_abs s) x = (shard_abs (fst (shard_step s x)), snd (shard_step s x))"
    using Cons.prems by (intro shard_step_refines) auto
  then have "lru_bytes (shard_abs (fst (shard_step s x))) \<le> lru_bytes (shard_abs s) + op_bytes x"
    using lru_step_bytes [OF shard_inv_keys [OF Cons.prems(1)]] by (metis fst_conv)
  then have "lru_run (capacity s) (shard_abs (fst (shard_step s x))) xs =
      (shard_abs (fst (shard_run (fst (shard_step s x)) xs)), snd (shard_run (fst (shard_step s x)) xs))"
    using Cons.IH [of "fst (shard_step s x)"] Cons.prems by (simp add: shard_step_inv)
  with step show ?case
    by (simp add: split_beta)
qed

subsection \<open>Properties\<close>

text \<open>
  Whatever sequence of gets and puts a shard goes through, its map, its eviction list and its
  byte counter stay consistent: the list has no repeated element, the map points exactly at the
  listed elements under their own keys, and \<open>used\<close> is the sum of the lengths of the cached chunks
  as an \<open>int64\<close>.
\<close>

lemma shard_history_inv: "shard_inv (fst (shard_run (new_shard cap notify) xs))"
  by (rule shard_run_keeps_inv) simp

text \<open>
  The pointer implementation (doubly-linked list plus map plus counter) is an LRU cache: on
  every history whose inserted bytes stay below \<open>2^63\<close> it returns the answers of the abstract
  LRU list, makes the same \<open>onEvict\<close> calls in the same order, and ends in a state that
  abstracts to the abstract one.
\<close>

lemma shard_history_refines_lru:
  assumes "sum_list (map op_bytes xs) < 2 ^ 63"
  shows "lru_run cap [] xs =
    (shard_abs (fst (shard_run (new_shard cap True) xs)), snd (shard_run (new_shard cap True) xs))"
  using shard_run_refines [of "new_shard cap True" xs] assms by simp

text \<open>
  Inserting a new chunk evicts exactly what it must, from the least recently used end: what
  stays is a prefix of the old recency order, what was evicted is handed to \<open>onEvict\<close> oldest first,
  afterwards the shard is within its capacity or holds the new chunk alone, and the last entry
  evicted would not have fitted. (A chunk larger than the shard's capacity is stored all the same.)
\<close>

lemma put_new_evicts_exactly:
  assumes "shard_inv s" and "hasOnEvict s" and "k \<notin> fst ` set (shard_abs s)"
    and "lru_bytes (shard_abs s) + int (length d) < 2 ^ 63"
  shows "\<exists>keep dropped. shard_abs s = keep @ dropped \<and>
    shard_abs (fst (shard_put s k d)) = (k, d) # keep \<and> snd (shard_put s k d) = rev dropped \<and>
    (lru_bytes ((k, d) # keep) \<le> capacity s \<or> keep = []) \<and>
    (dropped \<noteq> [] \<longrightarrow> lru_bytes ((k, d) # keep @ [hd dropped]) > capacity s)"
proof -
  let ?b = "capacity s - int (length d)"
  let ?keep = "lru_fit ?b (shard_abs s)"
  let ?dropped = "drop (length ?keep) (shard_abs s)"
  have "map_of (shard_abs s) k = None"
    using assms(3) by (simp add: map_of_eq_None_iff)
  then have put: "shard_abs (fst (shard_put s k d)) = (k, d) # ?keep" "snd (shard_put s k d) = rev ?dropped"
    using shard_put_refines_lru [OF assms(1,2,4), of k] by (simp_all add: lru_put_def Let_def)
  have fits: "lru_bytes ((k, d) # ?keep) \<le> capacity s \<or> ?keep = []"
    using lru_fit_total [of ?b "shard_abs s"] by auto
  have tight: "?dropped \<noteq> [] \<longrightarrow> lru_bytes ((k, d) # ?keep @ [hd ?dropped]) > capacity s"
    using lru_fit_maximal [of ?b "shard_abs s"] by (cases ?dropped) force+
  show ?thesis
    using put fits tight lru_fit_prefix [of ?b "shard_abs s"] by (intro exI [of _ ?keep] exI [of _ ?dropped]) simp
qed

text \<open>
  Overwriting a chunk that is already cached never evicts, whatever the new length: the entry
  moves to the front with the new bytes, no \<open>onEvict\<close> call is made and the shard's byte count grows
  by the difference, past the capacity if the new value is longer.
\<close>

lemma put_existing_never_evicts:
  assumes "shard_inv s" and "map_of (shard_abs s) k = Some old"
  shows "snd (shard_put s k d) = [] \<and> shard_abs (fst (shard_put s k d)) = (k, d) # lru_remove k (shard_abs s) \<and>
    lru_bytes (shard_abs (fst (shard_put s k d))) =
      lru_bytes (shard_abs s) - int (length old) + int (length d)"
proof -
  obtain a where "items s k = Some a"
    using assms map_of_shard_abs [OF assms(1)] by fastforce
  from shard_put_hit [OF assms(1) this, of d] show ?thesis
    using assms shard_inv_keys by (simp add: lru_bytes_remove)
qed

end
