(* ===== verification/Cache_Interface.thy ===== *)
theory Cache_Interface
  imports Prelude
begin

section \<open>The contract of a cache tier\<close>

text \<open>
  What the request handler and the prefetcher rely on when they use a tier: a \<open>put\<close> makes its key
  readable, invents nothing for other keys, and hands out (through \<open>onEvict\<close>) only what it held.
  A tier that also reports everything it drops is a \<open>notifying_cache\<close>. The client lemma is
  coherence: a predicate on (key, value) pairs that holds of everything cached and of the value
  put in holds afterwards of everything cached and of everything evicted. \<open>Hot_Cache\<close> and
  \<open>Cold_Cache\<close> provide the interpretations.
\<close>

definition holds_all :: "('k \<Rightarrow> 'v option) \<Rightarrow> ('k \<Rightarrow> 'v \<Rightarrow> bool) \<Rightarrow> bool" where
  "holds_all m P \<longleftrightarrow> (\<forall>k v. m k = Some v \<longrightarrow> P k v)"

lemma holds_allI: "(\<And>k v. m k = Some v \<Longrightarrow> P k v) \<Longrightarrow> holds_all m P"
  by (simp add: holds_all_def)

lemma holds_allD: "holds_all m P \<Longrightarrow> m k = Some v \<Longrightarrow> P k v"
  by (simp add: holds_all_def)

lemma holds_all_upd: "holds_all m P \<Longrightarrow> P k v \<Longrightarrow> holds_all (m(k \<mapsto> v)) P"
  by (simp add: holds_all_def)

locale cache_tier =
  fixes lookup :: "'s \<Rightarrow> 'k \<Rightarrow> 'v option"
    and put :: "'s \<Rightarrow> 'k \<Rightarrow> 'v \<Rightarrow> 's \<times> ('k \<times> 'v) list"
    and inv :: "'s \<Rightarrow> bool"
  assumes put_inv: "inv s \<Longrightarrow> inv (fst (put s k v))"
    and put_same: "inv s \<Longrightarrow> lookup (fst (put s k v)) k = Some v"
    and put_other: "inv s \<Longrightarrow> k' \<noteq> k \<Longrightarrow> lookup (fst (put s k v)) k' = Some v' \<Longrightarrow> lookup s k' = Some v'"
    and put_evicted: "inv s \<Longrightarrow> (k', v') \<in> set (snd (put s k v)) \<Longrightarrow> lookup s k' = Some v'"
begin

lemma put_lookup_sub:
  assumes "inv s" and "lookup (fst (put s k v)) k' = Some v'"
  shows "(k' = k \<and> v' = v) \<or> lookup s k' = Some v'"
  using assms put_same [of s k v] put_other [of s k' k v v'] by (cases "k' = k") auto

lemma put_coherent:
  assumes "inv s" and "holds_all (lookup s) P" and "P k v"
  shows "holds_all (lookup (fst (put s k v))) P"
  using assms put_lookup_sub [OF assms(1)] by (metis holds_all_def)

lemma put_evicts_coherent:
  assumes "inv s" and "holds_all (lookup s) P"
  shows "\<forall>(k', v') \<in> set (snd (put s k v)). P k' v'"
  using put_evicted [OF assms(1)] holds_allD [OF assms(2)] by blast

end

locale notifying_cache = cache_tier +
  assumes put_dropped: "inv s \<Longrightarrow> k' \<noteq> k \<Longrightarrow> lookup s k' = Some v' \<Longrightarrow>
     lookup (fst (put s k v)) k' = None \<Longrightarrow> (k', v') \<in> set (snd (put s k v))"
begin

lemma put_loses_nothing:
  assumes "inv s" and "lookup s k' = Some v'" and "k' \<noteq> k"
  shows "lookup (fst (put s k v)) k' = Some v' \<or> (k', v') \<in> set (snd (put s k v))"
proof (cases "lookup (fst (put s k v)) k'")
  case None
  with assms show ?thesis by (blast intro: put_dropped)
next
  case (Some w)
  with assms put_other have "lookup s k' = Some w" by blast
  with assms Some show ?thesis by simp
qed

end

end
