(* ===== verification/Hot_Cache.thy ===== *)
theory Hot_Cache
  imports Complex_Main Lru_Shard Cache_Interface
begin

section \<open>The sharded hot cache\<close>

text \<open>
  \<^verbatim>\<open>HotCache\<close> of \<^verbatim>\<open>internal/cache/lru.go\<close>: 256 shards selected by the 32-bit hash, and two atomic
  counters. \<open>hot_lookup\<close> reads the cache without touching recency or counters; it is the abstraction
  the interface of \<open>Cache_Interface\<close> speaks about. The two counters are separate atomics the code
  updates after it has left the shard's lock.
\<close>

record HotCache =
  shards :: "shard list"
  hits :: int
  misses :: int

definition NewHotCache :: "int \<Rightarrow> bool \<Rightarrow> HotCache" where
  "NewHotCache capacityBytes notify =
     (let perShard = capacityBytes sdiv int numShards
      in \<lparr>shards = replicate numShards (new_shard perShard notify), hits = 0, misses = 0\<rparr>)"

definition shardFor :: "HotCache \<Rightarrow> ChunkKey \<Rightarrow> shard" where
  "shardFor c k = shards c ! shard_index k"

definition hot_get :: "HotCache \<Rightarrow> ChunkKey \<Rightarrow> HotCache \<times> bytes option" where
  "hot_get c k =
     (let (s', r) = shard_get (shardFor c k) k;
          c' = c\<lparr>shards := (shards c)[shard_index k := s']\<rparr>
      in case r of
           None \<Rightarrow> (c'\<lparr>misses := i64 (misses c' + 1)\<rparr>, None)
         | Some data \<Rightarrow> (c'\<lparr>hits := i64 (hits c' + 1)\<rparr>, Some data))"

definition hot_put :: "HotCache \<Rightarrow> ChunkKey \<Rightarrow> bytes \<Rightarrow> HotCache \<times> eviction list" where
  "hot_put c k data =
     (let (s', ev) = shard_put (shardFor c k) k data
      in (c\<lparr>shards := (shards c)[shard_index k := s']\<rparr>, ev))"

text \<open>
  \<^verbatim>\<open>HitRatio\<close>; \<open>rnd\<close> is the rounding of a \<open>float64\<close> conversion or division.
\<close>

definition HitRatio :: "(rat \<Rightarrow> rat) \<Rightarrow> HotCache \<Rightarrow> rat" where
  "HitRatio rnd c =
     (let h = hits c; m = misses c
      in if i64 (h + m) = 0 then 0 else rnd (rnd (of_int h) / rnd (of_int (i64 (h + m)))))"

subsection \<open>Invariant and lookup\<close>

definition hot_inv :: "HotCache \<Rightarrow> bool" where
  "hot_inv c \<longleftrightarrow> length (shards c) = numShards \<and>
     (\<forall>i < numShards. shard_inv (shards c ! i) \<and> hasOnEvict (shards c ! i) \<and>
        (\<forall>k \<in> fst ` set (shard_abs (shards c ! i)). shard_index k = i))"

definition hot_lookup :: "HotCache \<Rightarrow> ChunkKey \<Rightarrow> bytes option" where
  "hot_lookup c k = map_of (shard_abs (shardFor c k)) k"

lemma hot_invD:
  assumes "hot_inv c"
  shows hot_inv_length: "length (shards c) = numShards"
    and hot_inv_shard: "shard_inv (shardFor c k)"
    and hot_inv_notify: "hasOnEvict (shardFor c k)"
    and hot_inv_home: "i < numShards \<Longrightarrow> k \<in> fst ` set (shard_abs (shards c ! i)) \<Longrightarrow> shard_index k = i"
  using assms by (auto simp: hot_inv_def shardFor_def)

lemma hot_inv_update:
  assumes "hot_inv c" and "shard_inv s" and "hasOnEvict s"
    and "fst ` set (shard_abs s) \<subseteq> insert k (fst ` set (shard_abs (shardFor c k)))"
  shows "hot_inv (c\<lparr>shards := (shards c)[shard_index k := s]\<rparr>)"
  unfolding hot_inv_def
proof (intro conjI allI impI)
  show "length (shards (c\<lparr>shards := (shards c)[shard_index k := s]\<rparr>)) = numShards"
    using assms(1) by (simp add: hot_inv_length)
next
  fix i
  assume i: "i < numShards"
  let ?s = "shards (c\<lparr>shards := (shards c)[shard_index k := s]\<rparr>) ! i"
  have s: "?s = (if i = shard_index k then s else shards c ! i)"
    using assms(1) i by (simp add: hot_inv_length nth_list_update)
  show "shard_inv ?s" "hasOnEvict ?s"
    using assms i unfolding s by (auto simp: hot_inv_def)
  show "\<forall>k' \<in> fst ` set (shard_abs ?s). shard_index k' = i"
  proof (cases "i = shard_index k")
    case True
    have home: "shard_index k' = i" if "k' \<in> insert k (fst ` set (shard_abs (shards c ! i)))" for k'
      using that True hot_inv_home [OF assms(1) i, of k'] by blast
    have sub: "fst ` set (shard_abs s) \<subseteq> insert k (fst ` set (shard_abs (shards c ! i)))"
      using assms(4) unfolding True shardFor_def .
    have eq: "?s = s"
      using s True by simp
    show ?thesis
      unfolding eq by (intro ballI home subsetD [OF sub])
  next
    case False
    then show ?thesis
      unfolding s using hot_inv_home [OF assms(1) i] by (metis (full_types))
  qed
qed

lemma hot_lookup_update:
  assumes "hot_inv c"
  shows "hot_lookup (c\<lparr>shards := (shards c)[shard_index k := s]\<rparr>) k' =
     (if shard_index k' = shard_index k then map_of (shard_abs s) k' else hot_lookup c k')"
  using assms by (auto simp: hot_lookup_def shardFor_def nth_list_update hot_inv_length)

lemma hot_inv_counters [simp]:
  "hot_inv (c\<lparr>hits := h\<rparr>) = hot_inv c" "hot_inv (c\<lparr>misses := m\<rparr>) = hot_inv c"
  "hot_lookup (c\<lparr>hits := h\<rparr>) = hot_lookup c" "hot_lookup (c\<lparr>misses := m\<rparr>) = hot_lookup c"
  by (simp_all add: hot_inv_def fun_eq_iff hot_lookup_def shardFor_def)

lemma hot_inv_New [simp]: "hot_inv (NewHotCache cap True)"
  by (simp add: hot_inv_def NewHotCache_def Let_def numShards_def)

lemma hot_lookup_New [simp]: "hot_lookup (NewHotCache cap notify) k = None"
  using shard_index_bound [of k]
  by (simp add: hot_lookup_def shardFor_def NewHotCache_def Let_def)

subsection \<open>Get\<close>

lemma hot_get_result:
  assumes "hot_inv c"
  shows "snd (hot_get c k) = hot_lookup c k"
proof -
  have "snd (shard_get (shardFor c k) k) = map_of (shard_abs (shardFor c k)) k"
    using shard_get_refines [OF hot_inv_shard [OF assms], of k k]
    by (auto simp: lru_get_def split: option.splits)
  then show ?thesis
    by (simp add: hot_get_def hot_lookup_def Let_def split_beta split: option.split)
qed

lemma lru_get_map_of: "map_of (fst (lru_get c k)) k' = map_of c k'"
proof (cases "map_of c k")
  case None
  then show ?thesis by (simp add: lru_get_def)
next
  case (Some d)
  have "map_of (lru_remove k c) k' = (if k' = k then None else map_of c k')"
    by (induction c) (auto simp: lru_remove_def)
  with Some show ?thesis
    by (simp add: lru_get_def)
qed

lemma shard_get_map_of:
  "shard_inv s \<Longrightarrow> map_of (shard_abs (fst (shard_get s k))) k' = map_of (shard_abs s) k'"
  using shard_get_refines [of s k] lru_get_map_of [of "shard_abs s" k k'] by simp

lemma shard_get_keys:
  "shard_inv s \<Longrightarrow> fst ` set (shard_abs (fst (shard_get s k))) = fst ` set (shard_abs s)"
  using shard_get_map_of [of s k] by (metis dom_map_of_conv_image_fst ext)

lemma hot_get_keeps:
  assumes "hot_inv c"
  shows hot_get_inv: "hot_inv (fst (hot_get c k))"
    and hot_get_lookup: "hot_lookup (fst (hot_get c k)) k' = hot_lookup c k'"
proof -
  let ?s = "fst (shard_get (shardFor c k) k)"
  let ?c = "c\<lparr>shards := (shards c)[shard_index k := ?s]\<rparr>"
  have "shard_inv ?s"
    by (rule shard_get_inv [OF hot_inv_shard [OF assms]])
  then have inv: "hot_inv ?c"
    using assms by (intro hot_inv_update) (auto simp: hot_inv_notify shard_get_keys hot_inv_shard)
  have look: "hot_lookup ?c k' = hot_lookup c k'"
    using assms by (simp add: hot_lookup_update shard_get_map_of hot_inv_shard)
      (simp add: hot_lookup_def shardFor_def)
  have "fst (hot_get c k) = ?c\<lparr>hits := hits (fst (hot_get c k))\<rparr>\<lparr>misses := misses (fst (hot_get c k))\<rparr>"
    by (simp add: hot_get_def Let_def split_beta split: option.split)
  then obtain h m where "fst (hot_get c k) = ?c\<lparr>hits := h\<rparr>\<lparr>misses := m\<rparr>"
    by blast
  with inv look show "hot_inv (fst (hot_get c k))" "hot_lookup (fst (hot_get c k)) k' = hot_lookup c k'"
    by simp_all
qed

subsection \<open>Put\<close>

lemma shard_put_abs:
  assumes "shard_inv s" and "hasOnEvict s"
  shows "\<exists>keep dropped. shard_abs (fst (shard_put s k d)) = (k, d) # keep \<and>
     snd (shard_put s k d) = rev dropped \<and>
     lru_remove k (shard_abs s) = keep @ dropped \<and> (dropped \<noteq> [] \<longrightarrow> k \<notin> fst ` set (shard_abs s))"
proof (cases "items s k")
  case None
  then have "lru_remove k (shard_abs s) = shard_abs s"
    using assms(1) by (simp add: lru_remove_absent map_of_shard_abs)
  with None show ?thesis
    using shard_put_miss [OF assms(1) None, of d] evict_loop_inv [OF assms(1), of "int (length d)"] assms
    by (auto simp: items_None [symmetric])
next
  case (Some a)
  then show ?thesis
    using shard_put_hit [OF assms(1) Some, of d] by auto
qed

lemma lru_remove_map_of: "k' \<noteq> k \<Longrightarrow> map_of (lru_remove k c) k' = map_of c k'"
  by (induction c) (auto simp: lru_remove_def)

lemma lru_remove_keys: "fst ` set (lru_remove k c) \<subseteq> fst ` set c"
  by (auto simp: lru_remove_def)

lemma hot_put_shape:
  assumes "hot_inv c"
  obtains keep dropped s where
    "hot_put c k d = (c\<lparr>shards := (shards c)[shard_index k := s]\<rparr>, rev dropped)"
    "shard_inv s" "hasOnEvict s" "shard_abs s = (k, d) # keep"
    "lru_remove k (shard_abs (shardFor c k)) = keep @ dropped"
    "dropped \<noteq> [] \<longrightarrow> hot_lookup c k = None"
proof -
  let ?s = "shardFor c k"
  obtain keep dropped where p: "shard_abs (fst (shard_put ?s k d)) = (k, d) # keep"
    "snd (shard_put ?s k d) = rev dropped" "lru_remove k (shard_abs ?s) = keep @ dropped"
    "dropped \<noteq> [] \<longrightarrow> k \<notin> fst ` set (shard_abs ?s)"
    using shard_put_abs [OF hot_inv_shard [OF assms] hot_inv_notify [OF assms], of k k d] by blast
  show ?thesis
  proof (rule that)
    show "hot_put c k d = (c\<lparr>shards := (shards c)[shard_index k := fst (shard_put ?s k d)]\<rparr>, rev dropped)"
      using p(2) by (simp add: hot_put_def split_beta Let_def)
    show "shard_inv (fst (shard_put ?s k d))" "hasOnEvict (fst (shard_put ?s k d))"
      using assms by (simp_all add: shard_put_inv hot_inv_shard hot_inv_notify)
    show "dropped \<noteq> [] \<longrightarrow> hot_lookup c k = None"
      using p(4) by (simp add: hot_lookup_def map_of_eq_None_iff)
  qed (use p in auto)
qed

lemma hot_put_inv:
  assumes "hot_inv c"
  shows "hot_inv (fst (hot_put c k d))"
proof -
  obtain keep dropped s where p: "hot_put c k d = (c\<lparr>shards := (shards c)[shard_index k := s]\<rparr>, rev dropped)"
    "shard_inv s" "hasOnEvict s" "shard_abs s = (k, d) # keep"
    "lru_remove k (shard_abs (shardFor c k)) = keep @ dropped" "dropped \<noteq> [] \<longrightarrow> hot_lookup c k = None"
    by (rule hot_put_shape [OF assms])
  have "set keep \<subseteq> set (lru_remove k (shard_abs (shardFor c k)))"
    unfolding p(5) by simp
  then have "fst ` set keep \<subseteq> fst ` set (lru_remove k (shard_abs (shardFor c k)))"
    by (rule image_mono)
  then have "fst ` set (shard_abs s) \<subseteq> insert k (fst ` set (shard_abs (shardFor c k)))"
    using lru_remove_keys [of k "shard_abs (shardFor c k)"] p(4) by auto
  from hot_inv_update [OF assms p(2,3) this] p(1) show ?thesis
    by simp
qed

interpretation hot: notifying_cache hot_lookup hot_put hot_inv
proof unfold_locales
  fix c :: HotCache and k d
  assume inv: "hot_inv c"
  show "hot_inv (fst (hot_put c k d))"
    using inv by (rule hot_put_inv)
  obtain keep dropped s where p: "hot_put c k d = (c\<lparr>shards := (shards c)[shard_index k := s]\<rparr>, rev dropped)"
    "shard_inv s" "hasOnEvict s" "shard_abs s = (k, d) # keep"
    "lru_remove k (shard_abs (shardFor c k)) = keep @ dropped" "dropped \<noteq> [] \<longrightarrow> hot_lookup c k = None"
    by (rule hot_put_shape [OF inv])
  have look: "hot_lookup (fst (hot_put c k d)) k' =
      (if shard_index k' = shard_index k then map_of ((k, d) # keep) k' else hot_lookup c k')" for k'
    using inv p by (simp add: hot_lookup_update)
  have old: "hot_lookup c k' = map_of (keep @ dropped) k'" if "shard_index k' = shard_index k" "k' \<noteq> k" for k'
    using that p(5) lru_remove_map_of [of k' k] by (metis hot_lookup_def shardFor_def)
  have distinct: "distinct (map fst (keep @ dropped))"
    using shard_inv_keys [OF hot_inv_shard [OF inv, of k]] p(5)
    by (metis lru_remove_def distinct_map_filter)
  show "hot_lookup (fst (hot_put c k d)) k = Some d"
    by (simp add: look)
  show "hot_lookup c k' = Some d'" if "k' \<noteq> k" "hot_lookup (fst (hot_put c k d)) k' = Some d'" for k' d'
    using that look [of k'] old [of k'] by (auto split: if_splits)
  have ev: "k' \<noteq> k \<and> shard_index k' = shard_index k \<and> map_of (keep @ dropped) k' = Some d'"
    if "(k', d') \<in> set dropped" for k' d'
  proof -
    have "(k', d') \<in> set (lru_remove k (shard_abs (shardFor c k)))"
      using that p(5) by simp
    then have "k' \<noteq> k" "k' \<in> fst ` set (shard_abs (shards c ! shard_index k))"
      by (auto simp: lru_remove_def shardFor_def rev_image_eqI)
    moreover have "map_of (keep @ dropped) k' = Some d'"
      using distinct that by (intro map_of_is_SomeI) simp_all
    ultimately show ?thesis
      using hot_inv_home [OF inv shard_index_bound, of k' k] by blast
  qed
  show "hot_lookup c k' = Some d'" if "(k', d') \<in> set (snd (hot_put c k d))" for k' d'
    using that p(1) ev old by auto
  show "(k', d') \<in> set (snd (hot_put c k d))"
    if "k' \<noteq> k" "hot_lookup c k' = Some d'" "hot_lookup (fst (hot_put c k d)) k' = None" for k' d'
  proof -
    have same: "shard_index k' = shard_index k" and gone: "map_of keep k' = None"
      using that look [of k'] by (auto split: if_splits)
    then have "map_of (keep @ dropped) k' = Some d'"
      using that old [of k'] by simp
    with gone have "(k', d') \<in> set dropped"
      by (auto simp: map_add_def dest: map_of_SomeD)
    with p(1) show ?thesis by simp
  qed
qed

subsection \<open>Histories\<close>

fun hot_step :: "HotCache \<Rightarrow> shard_op \<Rightarrow> HotCache \<times> shard_out" where
  "hot_step c (OpGet k) = (let (c', r) = hot_get c k in (c', Got r))"
| "hot_step c (OpPut k d) = (let (c', ev) = hot_put c k d in (c', Evicted ev))"

fun hot_run :: "HotCache \<Rightarrow> shard_op list \<Rightarrow> HotCache \<times> shard_out list" where
  "hot_run c [] = (c, [])"
| "hot_run c (x # xs) =
     (let (c1, o1) = hot_step c x; (c2, os) = hot_run c1 xs in (c2, o1 # os))"

lemma hot_step_inv: "hot_inv c \<Longrightarrow> hot_inv (fst (hot_step c x))"
  by (cases x) (simp_all add: split_beta hot_get_inv hot_put_inv)

lemma hot_run_inv: "hot_inv c \<Longrightarrow> hot_inv (fst (hot_run c xs))"
  by (induction xs arbitrary: c) (simp_all add: split_beta hot_step_inv)

fun is_hit :: "shard_out \<Rightarrow> bool" where
  "is_hit (Got (Some d)) = True"
| "is_hit out = False"

fun is_miss :: "shard_out \<Rightarrow> bool" where
  "is_miss (Got None) = True"
| "is_miss out = False"

lemma hot_step_counters:
  "hits (fst (hot_step c x)) = (if is_hit (snd (hot_step c x)) then i64 (hits c + 1) else hits c)"
  "misses (fst (hot_step c x)) = (if is_miss (snd (hot_step c x)) then i64 (misses c + 1) else misses c)"
  by (cases x; auto simp: hot_get_def hot_put_def Let_def split_beta split: option.split)+

lemma hot_run_counters:
  "i64 (hits (fst (hot_run c xs))) = i64 (hits c + int (length (filter is_hit (snd (hot_run c xs)))))"
  "i64 (misses (fst (hot_run c xs))) = i64 (misses c + int (length (filter is_miss (snd (hot_run c xs)))))"
proof (induction xs arbitrary: c)
  case (Cons x xs)
  {
    case 1
    show ?case
      using Cons.IH(1) [of "fst (hot_step c x)"] i64_add_left [of "hits c + 1"]
      by (simp add: split_beta hot_step_counters add.assoc add.commute add.left_commute)
  next
    case 2
    show ?case
      using Cons.IH(2) [of "fst (hot_step c x)"] i64_add_left [of "misses c + 1"]
      by (simp add: split_beta hot_step_counters add.assoc add.commute add.left_commute)
  }
qed simp_all

subsection \<open>The hot cache as an array of LRU lists\<close>

fun op_key :: "shard_op \<Rightarrow> ChunkKey" where
  "op_key (OpGet k) = k"
| "op_key (OpPut k d) = k"

definition lrus_step :: "int \<Rightarrow> (nat \<Rightarrow> lru) \<Rightarrow> shard_op \<Rightarrow> (nat \<Rightarrow> lru) \<times> shard_out" where
  "lrus_step cap L x =
     (let i = shard_index (op_key x); (c, out) = lru_step cap (L i) x in (L(i := c), out))"

fun lrus_run :: "int \<Rightarrow> (nat \<Rightarrow> lru) \<Rightarrow> shard_op list \<Rightarrow> (nat \<Rightarrow> lru) \<times> shard_out list" where
  "lrus_run cap L [] = (L, [])"
| "lrus_run cap L (x # xs) =
     (let (L1, o1) = lrus_step cap L x; (L2, os) = lrus_run cap L1 xs in (L2, o1 # os))"

definition hot_abs :: "HotCache \<Rightarrow> nat \<Rightarrow> lru" where
  "hot_abs c = (\<lambda>i. if i < numShards then shard_abs (shards c ! i) else [])"

definition hot_caps :: "int \<Rightarrow> HotCache \<Rightarrow> bool" where
  "hot_caps cap c \<longleftrightarrow> (\<forall>i < numShards. capacity (shards c ! i) = cap)"

lemma hot_step_shards:
  "shards (fst (hot_step c x)) = (shards c)[shard_index (op_key x) := fst (shard_step (shardFor c (op_key x)) x)]"
  "snd (hot_step c x) = snd (shard_step (shardFor c (op_key x)) x)"
  by (cases x; simp add: hot_get_def hot_put_def Let_def split_beta split: option.split)+

lemma hot_abs_shardFor: "hot_abs c (shard_index k) = shard_abs (shardFor c k)"
  by (simp add: hot_abs_def shardFor_def shard_index_bound)

lemma hot_step_refines:
  assumes "hot_inv c" and "hot_caps cap c" and "lru_bytes (hot_abs c (shard_index (op_key x))) + op_bytes x < 2 ^ 63"
  shows "lrus_step cap (hot_abs c) x = (hot_abs (fst (hot_step c x)), snd (hot_step c x))"
    and "hot_caps cap (fst (hot_step c x))"
proof -
  let ?s = "shardFor c (op_key x)" and ?i = "shard_index (op_key x)"
  have i: "?i < numShards" "length (shards c) = numShards"
    using assms(1) by (simp_all add: shard_index_bound hot_inv_length)
  have cap: "capacity ?s = cap"
    using assms(2) i(1) by (simp add: hot_caps_def shardFor_def)
  have step: "lru_step cap (shard_abs ?s) x = (shard_abs (fst (shard_step ?s x)), snd (shard_step ?s x))"
    using shard_step_refines [OF hot_inv_shard [OF assms(1)] hot_inv_notify [OF assms(1)], of "op_key x" x] assms(3) cap
    by (simp add: hot_abs_shardFor)
  have "hot_abs (fst (hot_step c x)) = (hot_abs c)(?i := shard_abs (fst (shard_step ?s x)))"
    using i by (auto simp: fun_eq_iff hot_abs_def hot_step_shards nth_list_update)
  with step show "lrus_step cap (hot_abs c) x = (hot_abs (fst (hot_step c x)), snd (hot_step c x))"
    by (simp add: lrus_step_def Let_def hot_abs_shardFor hot_step_shards(2))
  show "hot_caps cap (fst (hot_step c x))"
    using assms(2) i cap hot_inv_shard [OF assms(1), of "op_key x"]
    by (auto simp: hot_caps_def hot_step_shards nth_list_update)
qed

lemma hot_run_refines:
  assumes "hot_inv c" and "hot_caps cap c" and "\<forall>i. lru_bytes (hot_abs c i) + sum_list (map op_bytes xs) < 2 ^ 63"
  shows "lrus_run cap (hot_abs c) xs = (hot_abs (fst (hot_run c xs)), snd (hot_run c xs))"
  using assms
proof (induction xs arbitrary: c)
  case (Cons x xs)
  let ?c = "fst (hot_step c x)"
  have nonneg: "0 \<le> sum_list (map op_bytes xs)" "0 \<le> op_bytes x"
    by (rule sum_list_nonneg_int; metis op_bytes.elims of_nat_0_le_iff order_refl) (cases x; simp)
  have "lru_bytes (hot_abs c (shard_index (op_key x))) + op_bytes x < 2 ^ 63"
    using Cons.prems(3) nonneg by (auto dest: spec [of _ "shard_index (op_key x)"])
  note step = hot_step_refines [OF Cons.prems(1,2) this]
  have d: "distinct (map fst (hot_abs c i))" for i
    using Cons.prems(1) shard_inv_keys by (auto simp: hot_abs_def hot_inv_def)
  have "lru_bytes (hot_abs ?c i) \<le> lru_bytes (hot_abs c i) + op_bytes x" for i
  proof -
    have "hot_abs ?c i = fst (lrus_step cap (hot_abs c) x) i"
      by (simp add: step(1))
    then show ?thesis
      using lru_step_bytes [OF d] nonneg(2) by (simp add: lrus_step_def Let_def split_beta)
  qed
  then have "\<forall>i. lru_bytes (hot_abs ?c i) + sum_list (map op_bytes xs) < 2 ^ 63"
    using Cons.prems(3) by (smt (verit) list.simps(9) sum_list.Cons)
  from Cons.IH [OF hot_step_inv [OF Cons.prems(1)] step(2) this] step(1) show ?case
    by (simp add: split_beta)
qed simp

subsection \<open>How many bytes the hot cache can hold\<close>

text \<open>
  What the shards of capacity \<open>cap\<close> hold beyond the larger of their capacity and one chunk, and what a
  history of puts adds to it: \<open>Put\<close> of a key that is already cached replaces the bytes without evicting
  anything (\<^verbatim>\<open>lru.go\<close>, line 74), so a longer value grows the shard by the difference.
\<close>

definition shard_excess :: "int \<Rightarrow> shard \<Rightarrow> int" where
  "shard_excess cap s = max 0 (lru_bytes (shard_abs s) - max cap (int ChunkSize))"

definition hot_bytes :: "HotCache \<Rightarrow> int" where
  "hot_bytes c = sum_list (map (\<lambda>s. lru_bytes (shard_abs s)) (shards c))"

definition hot_excess :: "int \<Rightarrow> HotCache \<Rightarrow> int" where
  "hot_excess cap c = sum_list (map (shard_excess cap) (shards c))"

fun overwrite_growth :: "HotCache \<Rightarrow> shard_op \<Rightarrow> int" where
  "overwrite_growth c (OpGet k) = 0"
| "overwrite_growth c (OpPut k d) =
     (case hot_lookup c k of None \<Rightarrow> 0 | Some old \<Rightarrow> max 0 (int (length d) - int (length old)))"

fun total_growth :: "HotCache \<Rightarrow> shard_op list \<Rightarrow> int" where
  "total_growth c [] = 0"
| "total_growth c (x # xs) = overwrite_growth c x + total_growth (fst (hot_step c x)) xs"

fun chunk_op :: "shard_op \<Rightarrow> bool" where
  "chunk_op (OpGet k) = True"
| "chunk_op (OpPut k d) = (length d \<le> ChunkSize)"

lemma overwrite_growth_nonneg: "0 \<le> overwrite_growth c x"
  by (cases x) (simp_all split: option.split)

lemma total_growth_nonneg: "0 \<le> total_growth c xs"
  by (induction xs arbitrary: c) (simp_all add: overwrite_growth_nonneg)

lemma lru_get_bytes:
  assumes "shard_inv s"
  shows "lru_bytes (shard_abs (fst (shard_get s k))) = lru_bytes (shard_abs s)"
proof (cases "map_of (shard_abs s) k")
  case None
  then show ?thesis
    using shard_get_refines [OF assms, of k] by (simp add: lru_get_def)
next
  case (Some d)
  then have "shard_abs (fst (shard_get s k)) = (k, d) # lru_remove k (shard_abs s)"
    using shard_get_refines [OF assms, of k] by (simp add: lru_get_def)
  then show ?thesis
    using lru_bytes_remove [OF shard_inv_keys [OF assms] Some] by simp
qed

lemma shard_put_excess:
  assumes "shard_inv s" and "hasOnEvict s" and "capacity s = cap" and "cap < 2 ^ 61"
    and "length d \<le> ChunkSize" and "shard_excess cap s < 2 ^ 62"
  shows "shard_excess cap (fst (shard_put s k d)) \<le> shard_excess cap s +
     (case map_of (shard_abs s) k of None \<Rightarrow> 0 | Some old \<Rightarrow> max 0 (int (length d) - int (length old)))"
proof (cases "map_of (shard_abs s) k")
  case None
  have small: "lru_bytes (shard_abs s) + int (length d) < 2 ^ 63"
    using assms(4-6) by (auto simp: shard_excess_def ChunkSize_val max_def split: if_splits)
  let ?b = "cap - int (length d)"
  have abs: "shard_abs (fst (shard_put s k d)) = (k, d) # lru_fit ?b (shard_abs s)"
    using shard_put_refines_lru [OF assms(1,2) small, of k] None assms(3) by (simp add: lru_put_def Let_def)
  have "lru_bytes ((k, d) # lru_fit ?b (shard_abs s)) \<le> cap \<or> lru_fit ?b (shard_abs s) = []"
    using lru_fit_total [of ?b "shard_abs s"] by auto
  with assms(5) have "lru_bytes ((k, d) # lru_fit ?b (shard_abs s)) \<le> max cap (int ChunkSize)"
    by auto
  with None show ?thesis
    by (simp add: shard_excess_def abs)
next
  case (Some old)
  then obtain a where "items s k = Some a"
    using map_of_shard_abs [OF assms(1)] by fastforce
  then have "shard_abs (fst (shard_put s k d)) = (k, d) # lru_remove k (shard_abs s)"
    by (rule shard_put_hit(1) [OF assms(1)])
  then show ?thesis
    using Some lru_bytes_remove [OF shard_inv_keys [OF assms(1)] Some]
    by (simp add: shard_excess_def)
qed

lemma sum_list_update_int:
  "i < length xs \<Longrightarrow> sum_list (map g (xs[i := x])) = sum_list (map g xs) - g (xs ! i) + (g x :: int)"
  by (induction xs arbitrary: i) (auto split: nat.split)

lemma elem_le_sum_list_int: "(\<And>g. g \<in> set gs \<Longrightarrow> (0 :: int) \<le> g) \<Longrightarrow> g \<in> set gs \<Longrightarrow> g \<le> sum_list gs"
proof (induction gs)
  case (Cons h gs)
  have "0 \<le> sum_list gs"
    using Cons.prems(1) by (intro sum_list_nonneg) simp
  with Cons show ?case
    by (cases "g = h") fastforce+
qed simp

lemma shard_excess_le_hot:
  assumes "s \<in> set (shards c)"
  shows "shard_excess cap s \<le> hot_excess cap c"
proof -
  have "0 \<le> g" if "g \<in> set (map (shard_excess cap) (shards c))" for g
    using that by (auto simp: shard_excess_def)
  then show ?thesis
    using elem_le_sum_list_int [of "map (shard_excess cap) (shards c)" "shard_excess cap s"] assms
    by (simp add: hot_excess_def)
qed

lemma shard_step_excess:
  assumes "shard_inv s" and "hasOnEvict s" and "capacity s = cap" and "cap < 2 ^ 61"
    and "chunk_op x" and "shard_excess cap s < 2 ^ 62"
  shows "shard_excess cap (fst (shard_step s x)) \<le> shard_excess cap s +
     (case x of OpGet k \<Rightarrow> 0 | OpPut k d \<Rightarrow>
        (case map_of (shard_abs s) k of None \<Rightarrow> 0 | Some old \<Rightarrow> max 0 (int (length d) - int (length old))))"
proof (cases x)
  case (OpGet k)
  then show ?thesis
    using lru_get_bytes [OF assms(1), of k] by (simp add: shard_excess_def split_beta)
next
  case (OpPut k d)
  then show ?thesis
    using shard_put_excess [OF assms(1-4) _ assms(6), of d k] assms(5) by (simp add: split_beta)
qed

lemma hot_step_excess:
  assumes inv: "hot_inv c" and caps: "hot_caps cap c" and cap: "cap < 2 ^ 61" and op: "chunk_op x"
    and small: "hot_excess cap c < 2 ^ 62"
  shows "hot_excess cap (fst (hot_step c x)) \<le> hot_excess cap c + overwrite_growth c x"
    and "hot_caps cap (fst (hot_step c x))"
proof -
  let ?k = "op_key x"
  let ?s = "shardFor c ?k" and ?i = "shard_index ?k"
  have i: "?i < length (shards c)" "shards c ! ?i = ?s"
    using inv by (simp_all add: shard_index_bound hot_inv_length shardFor_def)
  have cap_s: "capacity ?s = cap"
    using caps shard_index_bound [of ?k] by (simp add: hot_caps_def shardFor_def)
  have "shard_excess cap ?s < 2 ^ 62"
    using shard_excess_le_hot [of ?s c cap] small i nth_mem [OF i(1)] by simp
  from shard_step_excess [OF hot_inv_shard [OF inv] hot_inv_notify [OF inv] cap_s cap op this]
  have "shard_excess cap (fst (shard_step ?s x)) \<le> shard_excess cap ?s + overwrite_growth c x"
    by (cases x) (simp_all add: hot_lookup_def)
  then show "hot_excess cap (fst (hot_step c x)) \<le> hot_excess cap c + overwrite_growth c x"
    using i by (simp add: hot_excess_def hot_step_shards sum_list_update_int)
  have "lru_bytes (hot_abs c ?i) + op_bytes x < 2 ^ 63"
  proof -
    have "op_bytes x \<le> 4194304"
      using op by (cases x) (simp_all add: ChunkSize_val)
    then show ?thesis
      using \<open>shard_excess cap ?s < 2 ^ 62\<close> cap
      by (auto simp: hot_abs_shardFor shard_excess_def ChunkSize_val max_def split: if_splits)
  qed
  then show "hot_caps cap (fst (hot_step c x))"
    by (rule hot_step_refines(2) [OF inv caps])
qed

lemma hot_run_excess:
  assumes "hot_inv c" and "hot_caps cap c" and "cap < 2 ^ 61" and "list_all chunk_op xs"
    and "hot_excess cap c + total_growth c xs < 2 ^ 62"
  shows "hot_excess cap (fst (hot_run c xs)) \<le> hot_excess cap c + total_growth c xs"
  using assms
proof (induction xs arbitrary: c)
  case (Cons x xs)
  let ?c = "fst (hot_step c x)"
  have "hot_excess cap c < 2 ^ 62"
    using Cons.prems(5) total_growth_nonneg [of c "x # xs"] by linarith
  note step = hot_step_excess [OF Cons.prems(1-3) _ this]
  have op: "chunk_op x" "list_all chunk_op xs"
    using Cons.prems(4) by simp_all
  have "hot_excess cap ?c + total_growth ?c xs \<le> hot_excess cap c + total_growth c (x # xs)"
    using step(1) [OF op(1)] by simp
  with Cons.IH [OF hot_step_inv [OF Cons.prems(1)] step(2) [OF op(1)] Cons.prems(3) op(2)] Cons.prems(5)
  show ?case
    by (simp add: split_beta)
qed simp

lemma sum_list_le_const_excess:
  "sum_list (map (\<lambda>s. lru_bytes (shard_abs s)) ss) \<le>
     int (length ss) * max cap (int ChunkSize) + sum_list (map (shard_excess cap) ss)"
proof (induction ss)
  case (Cons s ss)
  have "lru_bytes (shard_abs s) \<le> max cap (int ChunkSize) + shard_excess cap s"
    by (simp add: shard_excess_def)
  with Cons show ?case by (simp add: distrib_right)
qed simp

lemma NewHotCache_nonneg:
  "0 \<le> cap \<Longrightarrow> NewHotCache cap notify =
     \<lparr>shards = replicate numShards (new_shard (cap div int numShards) notify), hits = 0, misses = 0\<rparr>"
  by (cases "cap = 0") (simp_all add: NewHotCache_def Let_def signed_divide_int_def numShards_def)

lemma hot_excess_New: "0 \<le> cap \<Longrightarrow> hot_excess b (NewHotCache cap True) = 0"
  by (simp add: hot_excess_def NewHotCache_nonneg shard_excess_def ChunkSize_val map_replicate_const sum_list_replicate)

text \<open>
  A key that is only ever cached with one length never grows by an overwrite: what caching chunks of
  immutable objects gives, as long as no transfer breaks off.
\<close>

definition sized_op :: "(ChunkKey \<Rightarrow> nat) \<Rightarrow> shard_op \<Rightarrow> bool" where
  "sized_op f x = (case x of OpGet k \<Rightarrow> True | OpPut k d \<Rightarrow> length d = f k)"

lemma sized_hot_step:
  assumes "hot_inv c" and "\<And>k d. hot_lookup c k = Some d \<Longrightarrow> length d = f k" and "sized_op f x"
    and "hot_lookup (fst (hot_step c x)) k = Some d"
  shows "length d = f k"
proof (cases x)
  case (OpGet k')
  with assms show ?thesis
    by (simp add: split_beta hot_get_lookup)
next
  case (OpPut k' d')
  show ?thesis
  proof (cases "k = k'")
    case True
    with assms(1,3,4) OpPut show ?thesis
      by (auto simp: split_beta sized_op_def hot.put_same)
  next
    case False
    with assms(1,4) OpPut have "hot_lookup c k = Some d"
      using hot.put_other [OF assms(1) False] by (simp add: split_beta)
    with assms(2) show ?thesis by simp
  qed
qed

lemma sized_no_growth:
  assumes "hot_inv c" and "\<And>k d. hot_lookup c k = Some d \<Longrightarrow> length d = f k" and "list_all (sized_op f) xs"
  shows "total_growth c xs = 0"
  using assms
proof (induction xs arbitrary: c)
  case (Cons x xs)
  have "overwrite_growth c x = 0"
    using Cons.prems by (cases x) (auto simp: sized_op_def split: option.split)
  moreover have "total_growth (fst (hot_step c x)) xs = 0"
    using Cons.prems sized_hot_step [OF Cons.prems(1,2)]
    by (intro Cons.IH hot_step_inv) auto
  ultimately show ?case by simp
qed simp

subsection \<open>Properties\<close>

text \<open>
  A chunk put into the hot cache is returned by the next get of its key; every other chunk is
  still cached with its bytes or was handed to \<open>onEvict\<close> (nothing is dropped silently), and
  \<open>onEvict\<close> only ever receives chunks that were cached, with their own bytes.
\<close>

lemma hot_put_then_get:
  assumes "hot_inv c"
  shows "snd (hot_get (fst (hot_put c k d)) k) = Some d \<and>
    (\<forall>k' d'. k' \<noteq> k \<and> hot_lookup c k' = Some d' \<longrightarrow>
       snd (hot_get (fst (hot_put c k d)) k') = Some d' \<or> (k', d') \<in> set (snd (hot_put c k d))) \<and>
    (\<forall>(k', d') \<in> set (snd (hot_put c k d)). hot_lookup c k' = Some d')"
proof -
  have inv: "hot_inv (fst (hot_put c k d))"
    by (rule hot.put_inv [OF assms])
  show ?thesis
    using hot.put_same [OF assms] hot.put_loses_nothing [OF assms] hot.put_evicted [OF assms]
    by (auto simp: hot_get_result [OF inv])
qed

text \<open>
  C16: Memory bound of the hot cache. On every history of gets and of puts of at most \<open>ChunkSize\<close> bytes
  the 256 shards together hold no more than 256 times the larger of the per-shard capacity and one
  chunk, plus what overwriting a cached key with a longer value has added (\<open>total_growth\<close>: \<open>Put\<close> does not
  evict then); a history that always caches a key with the same length adds nothing. So a configured
  budget holds up to overwrites when a shard's share of it is at least a chunk, and any smaller
  configuration may use 1 GiB.
\<close>

theorem hot_cache_memory_bound:
  assumes "0 \<le> cap" and "cap < 2 ^ 62" and "list_all chunk_op xs" and "total_growth (NewHotCache cap True) xs < 2 ^ 62"
  shows "hot_bytes (fst (hot_run (NewHotCache cap True) xs)) \<le>
     int numShards * max (cap div int numShards) (int ChunkSize) + total_growth (NewHotCache cap True) xs \<and>
    (\<forall>f. list_all (sized_op f) xs \<longrightarrow> total_growth (NewHotCache cap True) xs = 0)"
proof -
  let ?new = "NewHotCache cap True" and ?b = "cap div int numShards"
  let ?c = "fst (hot_run ?new xs)"
  have "?b < 2 ^ 61"
    using assms(1,2) by (simp add: numShards_def)
  moreover have "hot_caps ?b ?new"
    using assms(1) by (simp add: hot_caps_def NewHotCache_nonneg)
  ultimately have "hot_excess ?b ?c \<le> total_growth ?new xs"
    using hot_run_excess [OF hot_inv_New, of ?b cap xs] assms hot_excess_New [OF assms(1), of ?b] by simp
  moreover have "total_growth ?new xs = 0" if "list_all (sized_op f) xs" for f
    using that by (intro sized_no_growth hot_inv_New) auto
  moreover have "length (shards ?c) = numShards"
    by (intro hot_inv_length hot_run_inv hot_inv_New)
  ultimately show ?thesis
    using sum_list_le_const_excess [of "shards ?c" ?b] by (auto simp: hot_bytes_def hot_excess_def)
qed

text \<open>A longer value written over a cached key: 3 bytes become 5.\<close>

theorem hot_cache_memory_bound_witness:
  "hot_bytes (fst (hot_run (NewHotCache 1024 True) [OpPut \<lparr>ObjectKey = ''a'', ChunkIndex = 0\<rparr> [1, 2, 3],
     OpPut \<lparr>ObjectKey = ''a'', ChunkIndex = 0\<rparr> [1, 2, 3, 4, 5]])) \<le> 2 ^ 30 + 2"
proof -
  let ?k = "\<lparr>ObjectKey = ''a'', ChunkIndex = 0\<rparr>" and ?new = "NewHotCache 1024 True"
  let ?xs = "[OpPut ?k [1, 2, 3], OpPut ?k [1, 2, 3, 4, 5]]"
  have "total_growth ?new ?xs = 2"
    by (simp add: split_beta hot.put_same)
  then show ?thesis
    using hot_cache_memory_bound [of 1024 ?xs] by (simp add: ChunkSize_val numShards_def)
qed

lemma hot_run_counters_i64:
  "in_i64 (hits c) \<Longrightarrow> in_i64 (hits (fst (hot_run c xs)))" "in_i64 (misses c) \<Longrightarrow> in_i64 (misses (fst (hot_run c xs)))"
proof (induction xs arbitrary: c)
  case (Cons x xs)
  {
    case 1
    have "in_i64 (hits (fst (hot_step c x)))"
      unfolding hot_step_counters using 1 i64_range by (cases "is_hit (snd (hot_step c x))") (simp_all only: if_True if_False)
    with Cons.IH(1) [of "fst (hot_step c x)"] show ?case
      by (simp add: split_beta)
  next
    case 2
    have "in_i64 (misses (fst (hot_step c x)))"
      unfolding hot_step_counters using 2 i64_range by (cases "is_miss (snd (hot_step c x))") (simp_all only: if_True if_False)
    with Cons.IH(2) [of "fst (hot_step c x)"] show ?case
      by (simp add: split_beta)
  }
qed simp_all

text \<open>
  C8: The hot cache as a whole is what it is meant to be: on every history of gets and puts (of less than \<open>2^63\<close>
  bytes and operations) the sharded pointer structure gives the answers and makes the \<open>onEvict\<close> calls of 256 LRU
  lists, each with its share of the capacity and each key always in the list its hash selects; and its two
  counters are the numbers of hits and misses, so \<open>HitRatio\<close> is their share.
\<close>

theorem hot_history_refines_lrus:
  assumes "sum_list (map op_bytes xs) < 2 ^ 63" and "int (length xs) < 2 ^ 63"
  shows "\<exists>c outs. hot_run (NewHotCache cap True) xs = (c, outs) \<and>
    lrus_run (cap sdiv int numShards) (\<lambda>_. []) xs = (hot_abs c, outs) \<and>
    (let h = int (length (filter is_hit outs)); m = int (length (filter is_miss outs))
     in hits c = h \<and> misses c = m \<and> HitRatio rnd c = (if h + m = 0 then 0 else rnd (rnd (of_int h) / rnd (of_int (h + m)))))"
proof -
  let ?new = "NewHotCache cap True"
  let ?c = "fst (hot_run ?new xs)" and ?outs = "snd (hot_run ?new xs)"
  have caps: "hot_caps (cap sdiv int numShards) ?new" and empty: "hot_abs ?new = (\<lambda>_. [])"
    by (auto simp: fun_eq_iff hot_caps_def hot_abs_def NewHotCache_def Let_def shard_abs_def new_shard_def)
  have run: "lrus_run (cap sdiv int numShards) (\<lambda>_. []) xs = (hot_abs ?c, ?outs)"
    using hot_run_refines [OF hot_inv_New caps, of xs] assms(1) by (simp add: empty)
  have "length (snd (hot_run c xs)) = length xs" for c
    by (induction xs arbitrary: c) (simp_all add: split_beta)
  then have small: "int (length (filter is_hit ?outs)) + int (length (filter is_miss ?outs)) < 2 ^ 63"
  proof -
    have "length (filter is_hit os) + length (filter is_miss os) \<le> length os" for os
    proof (induction os)
      case (Cons x os)
      then show ?case by (cases x rule: is_hit.cases) auto
    qed simp
    from this [of ?outs] \<open>length (snd (hot_run ?new xs)) = length xs\<close> assms(2) show ?thesis by linarith
  qed
  have z: "hits ?new = 0" "misses ?new = 0"
    by (simp_all add: NewHotCache_def Let_def)
  have "in_i64 (hits ?c)" "in_i64 (misses ?c)"
    by (rule hot_run_counters_i64; simp add: z)+
  then have h: "hits ?c = int (length (filter is_hit ?outs))" and m: "misses ?c = int (length (filter is_miss ?outs))"
    using hot_run_counters [of ?new xs] small by (simp_all add: z i64_id)
  have "i64 (hits ?c + misses ?c) = hits ?c + misses ?c"
    using small unfolding h m by (intro i64_id) simp
  then have r: "HitRatio rnd ?c =
      (if hits ?c + misses ?c = 0 then 0 else rnd (rnd (of_int (hits ?c)) / rnd (of_int (hits ?c + misses ?c))))"
    by (simp add: HitRatio_def Let_def)
  have "hot_run ?new xs = (?c, ?outs)"
    by simp
  with run h m r show ?thesis
    unfolding Let_def by metis
qed

theorem hot_history_refines_lrus_witness:
  "\<exists>c outs. hot_run (NewHotCache 1024 True) [OpPut \<lparr>ObjectKey = ''a'', ChunkIndex = 0\<rparr> [1, 2],
       OpGet \<lparr>ObjectKey = ''a'', ChunkIndex = 0\<rparr>, OpGet \<lparr>ObjectKey = ''b'', ChunkIndex = 0\<rparr>] = (c, outs) \<and>
     lrus_run 4 (\<lambda>_. []) [OpPut \<lparr>ObjectKey = ''a'', ChunkIndex = 0\<rparr> [1, 2],
       OpGet \<lparr>ObjectKey = ''a'', ChunkIndex = 0\<rparr>, OpGet \<lparr>ObjectKey = ''b'', ChunkIndex = 0\<rparr>] = (hot_abs c, outs)"
proof -
  let ?xs = "[OpPut \<lparr>ObjectKey = ''a'', ChunkIndex = 0\<rparr> [1, 2],
    OpGet \<lparr>ObjectKey = ''a'', ChunkIndex = 0\<rparr>, OpGet \<lparr>ObjectKey = ''b'', ChunkIndex = 0\<rparr>]"
  have d: "1024 sdiv int numShards = 4"
    by (simp add: numShards_def signed_divide_int_def)
  have "sum_list (map op_bytes ?xs) < 2 ^ 63" "int (length ?xs) < 2 ^ 63"
    by simp_all
  from hot_history_refines_lrus [OF this, where rnd = "\<lambda>x. x" and cap = 1024] show ?thesis
    unfolding d by blast
qed

end
