(* ===== verification/Byte_Range.thy ===== *)
theory Byte_Range
  imports Go_Strings
begin

section \<open>The Range header\<close>

text \<open>
  \<^verbatim>\<open>parseByteRange\<close> and \<^verbatim>\<open>resolveByteRange\<close> of \<^verbatim>\<open>internal/proxy/handler.go\<close>, over byte strings and
  \<open>int64\<close> values. The Go functions return a tuple whose last component says whether it is valid; the
  definitions return the same tuples. \<open>range_form\<close> is the abstract syntax of the three forms the
  proxy documents, \<open>render\<close> its concrete syntax and \<open>range_meaning\<close> the bytes it denotes; the
  theorems relate the parser to it in both directions.
\<close>

definition no_range :: "int \<times> int \<times> bool \<times> bool" where
  "no_range = (0, 0, False, False)"

definition parseByteRange :: "string \<Rightarrow> int \<times> int \<times> bool \<times> bool" where
  "parseByteRange header =
     (if length header \<le> length ''bytes='' \<or> take (length ''bytes='') header \<noteq> ''bytes='' then no_range
      else let rest = drop (length ''bytes='') header
      in case index_byte rest CHR ''-'' of
           None \<Rightarrow> no_range
         | Some hyphen \<Rightarrow>
             if hyphen = 0
             then (case parse_int (drop 1 rest) of
                     Inl err \<Rightarrow> no_range
                   | Inr end' \<Rightarrow> if end' < 0 then no_range else (0, end', True, True))
             else (case parse_int (take hyphen rest) of
                     Inl err \<Rightarrow> no_range
                   | Inr start \<Rightarrow>
                       if start < 0 then no_range
                       else if hyphen + 1 < length rest
                       then (case parse_int (drop (hyphen + 1) rest) of
                               Inl err \<Rightarrow> no_range
                             | Inr end' \<Rightarrow> if end' < start then no_range else (start, end', False, True))
                       else (start, -1, False, True)))"

definition resolveByteRange :: "string \<Rightarrow> int \<Rightarrow> int \<times> int \<times> bool" where
  "resolveByteRange header objsize =
     (case parseByteRange header of (start, end', is_suffix, ok) \<Rightarrow>
        if \<not> ok \<or> objsize \<le> 0 then (0, 0, False)
        else if is_suffix
        then (if end' = 0 then (0, 0, False)
              else (max 0 (i64 (objsize - end')), i64 (objsize - 1), True))
        else if start \<ge> objsize then (0, 0, False)
        else (start, if end' < 0 \<or> end' \<ge> objsize then i64 (objsize - 1) else end', True))"

subsection \<open>The table of \<^verbatim>\<open>handler_test.go\<close>\<close>

lemma resolveByteRange_tests:
  "resolveByteRange ''bytes=0-99'' 1000 = (0, 99, True)"
  "resolveByteRange ''bytes=900-1999'' 1000 = (900, 999, True)"
  "resolveByteRange ''bytes=500-'' 1000 = (500, 999, True)"
  "resolveByteRange ''bytes=-100'' 1000 = (900, 999, True)"
  "resolveByteRange ''bytes=-5000'' 1000 = (0, 999, True)"
  "resolveByteRange ''bytes=1000-'' 1000 = (0, 0, False)"
  "resolveByteRange ''bytes=-0'' 1000 = (0, 0, False)"
  "resolveByteRange ''bytes=50-10'' 1000 = (0, 0, False)"
  "resolveByteRange ''items=0-10'' 1000 = (0, 0, False)"
  "resolveByteRange ''bytes=abc'' 1000 = (0, 0, False)"
  by (simp_all add: resolveByteRange_def parseByteRange_def no_range_def parse_int_def parse_uint_def
      is_digit_def digit_val_def i64_def)

subsection \<open>What a parsed range is\<close>

lemmas range_unfold = parseByteRange_def no_range_def Let_def

lemma parse_closed_bounds:
  assumes "parseByteRange h = (start, e, False, True)"
  shows "0 \<le> start \<and> in_i64 start \<and> (e = -1 \<or> start \<le> e \<and> in_i64 e)"
  using assms
  by (auto simp: range_unfold split: if_splits option.splits sum.splits dest: parse_int_range)

lemma parse_suffix_bounds:
  assumes "parseByteRange h = (start, e, True, True)"
  shows "start = 0 \<and> 0 \<le> e \<and> in_i64 e"
  using assms
  by (auto simp: range_unfold split: if_splits option.splits sum.splits dest: parse_int_range)

lemma resolve_rejected:
  "resolveByteRange h n = (s, e, False) \<Longrightarrow> s = 0 \<and> e = 0"
  by (auto simp: resolveByteRange_def split: prod.splits if_splits)

lemma resolve_bounds:
  assumes "in_i64 n" and "resolveByteRange h n = (s, e, True)"
  shows "0 \<le> s \<and> s \<le> e \<and> e < n"
proof -
  obtain start e' is_suffix ok where p: "parseByteRange h = (start, e', is_suffix, ok)"
    by (metis prod_cases4)
  with assms(2) have ok: "ok" and n: "0 < n"
    by (auto simp: resolveByteRange_def split: if_splits)
  have n1: "i64 (n - 1) = n - 1"
    using assms(1) n by (intro i64_id) auto
  show ?thesis
  proof (cases is_suffix)
    case True
    then have "0 \<le> e'" "in_i64 e'"
      using parse_suffix_bounds p ok by auto
    then have "i64 (n - e') = n - e'"
      using assms(1) n by (intro i64_id) auto
    then show ?thesis
      using assms(2) p ok n True n1 \<open>0 \<le> e'\<close> by (auto simp: resolveByteRange_def max_def split: if_splits)
  next
    case False
    then have "0 \<le> start" "e' = -1 \<or> start \<le> e'"
      using parse_closed_bounds p ok by auto
    then show ?thesis
      using assms(2) p ok n False n1 by (auto simp: resolveByteRange_def split: if_splits)
  qed
qed

subsection \<open>Abstract syntax, printing and meaning\<close>

datatype range_form = Closed int int | OpenEnded int | Suffix int

fun render :: "range_form \<Rightarrow> string" where
  "render (Closed a b) = ''bytes='' @ show_int a @ ''-'' @ show_int b"
| "render (OpenEnded a) = ''bytes='' @ show_int a @ ''-''"
| "render (Suffix n) = ''bytes=-'' @ show_int n"

text \<open>Forms whose numbers are non-negative \<open>int64\<close> values.\<close>

fun wf_range :: "range_form \<Rightarrow> bool" where
  "wf_range (Closed a b) \<longleftrightarrow> 0 \<le> a \<and> a < 2 ^ 63 \<and> 0 \<le> b \<and> b < 2 ^ 63"
| "wf_range (OpenEnded a) \<longleftrightarrow> 0 \<le> a \<and> a < 2 ^ 63"
| "wf_range (Suffix n) \<longleftrightarrow> 0 \<le> n \<and> n < 2 ^ 63"

text \<open>The first and last byte a range denotes in an object of \<open>n\<close> bytes, if there is one.\<close>

fun range_meaning :: "range_form \<Rightarrow> int \<Rightarrow> (int \<times> int) option" where
  "range_meaning (Closed a b) n = (if a \<le> b \<and> a < n then Some (a, min b (n - 1)) else None)"
| "range_meaning (OpenEnded a) n = (if a < n then Some (a, n - 1) else None)"
| "range_meaning (Suffix k) n = (if 0 < k \<and> 0 < n then Some (max 0 (n - k), n - 1) else None)"

lemma show_int_nonneg: "0 \<le> x \<Longrightarrow> show_int x = show_nat (nat x)"
  by (simp add: show_int_def)

lemma parse_show_nonneg: "0 \<le> x \<Longrightarrow> x < 2 ^ 63 \<Longrightarrow> parse_int (show_nat (nat x)) = Inr x"
  using parse_int_show [of x] by (simp add: show_int_nonneg)

lemma hyphen_notin_show_nat: "CHR ''-'' \<notin> set (show_nat n)"
  using show_nat_digits [of n] is_digit_neq(1) by (auto simp: list_all_iff)

lemma index_hyphen: "index_byte (show_nat n @ CHR ''-'' # t) CHR ''-'' = Some (length (show_nat n))"
  by (rule index_byte_append) (rule hyphen_notin_show_nat)

lemma parse_render:
  assumes "wf_range r"
  shows "parseByteRange (render r) =
    (case r of Closed a b \<Rightarrow> if b < a then no_range else (a, b, False, True)
     | OpenEnded a \<Rightarrow> (a, -1, False, True)
     | Suffix n \<Rightarrow> (0, n, True, True))"
proof (cases r)
  case (Closed a b)
  have "parse_int (show_nat (nat a)) = Inr a" "parse_int (show_nat (nat b)) = Inr b"
    using assms Closed by (simp_all add: parse_show_nonneg)
  with assms Closed show ?thesis
    by (simp add: parseByteRange_def Let_def show_int_nonneg index_hyphen)
next
  case (OpenEnded a)
  have "parse_int (show_nat (nat a)) = Inr a"
    using assms OpenEnded by (simp add: parse_show_nonneg)
  with assms OpenEnded show ?thesis
    by (simp add: parseByteRange_def Let_def show_int_nonneg index_hyphen [of _ "[]"])
next
  case (Suffix n)
  have "parse_int (show_nat (nat n)) = Inr n"
    using assms Suffix by (simp add: parse_show_nonneg)
  with assms Suffix show ?thesis
    by (simp add: parseByteRange_def Let_def show_int_nonneg)
qed

lemma resolve_render:
  assumes "wf_range r" and "in_i64 n"
  shows "resolveByteRange (render r) n =
    (case range_meaning r n of Some (s, e) \<Rightarrow> (s, e, True) | None \<Rightarrow> (0, 0, False))"
proof -
  have n1: "0 < n \<Longrightarrow> i64 (n - 1) = n - 1"
    using assms(2) by (intro i64_id) auto
  have nk: "0 \<le> k \<Longrightarrow> k < 2 ^ 63 \<Longrightarrow> 0 < n \<Longrightarrow> i64 (n - k) = n - k" for k
    using assms(2) by (intro i64_id) auto
  show ?thesis
    using assms n1 nk unfolding resolveByteRange_def parse_render [OF assms(1)]
    by (cases r) (auto simp: no_range_def min_def)
qed

subsection \<open>Which headers are accepted\<close>

lemma parse_split:
  assumes "CHR ''-'' \<notin> set a"
  shows "parseByteRange (''bytes='' @ a @ CHR ''-'' # b) =
    (if a = [] then (case parse_int b of Inl err \<Rightarrow> no_range | Inr n \<Rightarrow> if n < 0 then no_range else (0, n, True, True))
     else (case parse_int a of Inl err \<Rightarrow> no_range
           | Inr x \<Rightarrow> if b = [] then (x, -1, False, True)
              else (case parse_int b of Inl err \<Rightarrow> no_range
                    | Inr y \<Rightarrow> if y < x then no_range else (x, y, False, True))))"
proof -
  have idx: "index_byte (a @ CHR ''-'' # b) CHR ''-'' = Some (length a)"
    using assms by (rule index_byte_append)
  have "\<not> x < 0" if "parse_int a = Inr x" "a \<noteq> []" for x
    using parse_int_nonneg [OF that] assms that(2) by (cases a) auto
  with idx show ?thesis
    by (auto simp: parseByteRange_def Let_def split: sum.splits option.splits)
qed

lemma parse_ok_shape:
  assumes "parseByteRange h = (x, y, sfx, True)"
  obtains a b where "h = ''bytes='' @ a @ CHR ''-'' # b" and "CHR ''-'' \<notin> set a"
proof -
  let ?rest = "drop (length ''bytes='') h"
  have "take (length ''bytes='') h = ''bytes=''"
    using assms by (auto simp: parseByteRange_def no_range_def split: if_splits)
  then have h: "h = ''bytes='' @ ?rest"
    by (metis append_take_drop_id)
  obtain i where i: "index_byte ?rest CHR ''-'' = Some i"
    using assms by (auto simp: range_unfold split: if_splits option.splits)
  then have "i < length ?rest" "?rest ! i = CHR ''-''" "CHR ''-'' \<notin> set (take i ?rest)"
    unfolding index_byte_Some by blast+
  then have "?rest = take i ?rest @ CHR ''-'' # drop (Suc i) ?rest" "CHR ''-'' \<notin> set (take i ?rest)"
    by (metis id_take_nth_drop)+
  with h that show ?thesis
    by metis
qed

text \<open>The form a header text reads as, its numbers being whatever \<^verbatim>\<open>strconv.ParseInt\<close> accepts.\<close>

fun reads_as :: "string \<Rightarrow> range_form \<Rightarrow> bool" where
  "reads_as h (Suffix k) \<longleftrightarrow> (\<exists>t. h = ''bytes=-'' @ t \<and> parse_int t = Inr k)"
| "reads_as h (OpenEnded a) \<longleftrightarrow> (\<exists>s. h = ''bytes='' @ s @ ''-'' \<and> s \<noteq> [] \<and> CHR ''-'' \<notin> set s \<and> parse_int s = Inr a)"
| "reads_as h (Closed a b) \<longleftrightarrow>
     (\<exists>s t. h = ''bytes='' @ s @ ''-'' @ t \<and> s \<noteq> [] \<and> CHR ''-'' \<notin> set s \<and> t \<noteq> [] \<and> parse_int s = Inr a \<and> parse_int t = Inr b)"

fun parsed_form :: "range_form \<Rightarrow> int \<times> int \<times> bool \<times> bool" where
  "parsed_form (Suffix k) = (if k < 0 then no_range else (0, k, True, True))"
| "parsed_form (OpenEnded a) = (a, -1, False, True)"
| "parsed_form (Closed a b) = (if b < a then no_range else (a, b, False, True))"

lemma parse_reads_as:
  assumes "reads_as h f"
  shows "parseByteRange h = parsed_form f"
proof (cases f)
  case (Suffix k)
  with assms obtain t where "h = ''bytes='' @ [] @ CHR ''-'' # t" "parse_int t = Inr k" by auto
  with Suffix show ?thesis using parse_split [of "[]" t] by simp
next
  case (OpenEnded a)
  with assms obtain s where "h = ''bytes='' @ s @ CHR ''-'' # []" "s \<noteq> []" "CHR ''-'' \<notin> set s" "parse_int s = Inr a" by auto
  with OpenEnded show ?thesis using parse_split [of s "[]"] by simp
next
  case (Closed a b)
  with assms obtain s t where "h = ''bytes='' @ s @ CHR ''-'' # t" "s \<noteq> []" "CHR ''-'' \<notin> set s" "t \<noteq> []"
    "parse_int s = Inr a" "parse_int t = Inr b" by auto
  with Closed show ?thesis using parse_split [of s t] by simp
qed

lemma parse_ok_reads_as:
  assumes "parseByteRange h = (x, y, sfx, True)"
  obtains f where "reads_as h f"
proof -
  obtain a b where h: "h = ''bytes='' @ a @ CHR ''-'' # b" "CHR ''-'' \<notin> set a"
    using parse_ok_shape [OF assms] .
  note p = assms [unfolded h(1) parse_split [OF h(2)]]
  show thesis
  proof (cases "a = []")
    case True
    then obtain k where "parse_int b = Inr k"
      using p by (cases "parse_int b") (auto simp: no_range_def)
    with True h(1) show thesis by (intro that [of "Suffix k"]) simp
  next
    case a: False
    then obtain m where m: "parse_int a = Inr m"
      using p by (cases "parse_int a") (auto simp: no_range_def)
    show thesis
    proof (cases "b = []")
      case True
      with a m h show thesis by (intro that [of "OpenEnded m"]) auto
    next
      case b: False
      then obtain k where "parse_int b = Inr k"
        using p a m by (cases "parse_int b") (auto simp: no_range_def)
      with a b m h show thesis by (intro that [of "Closed m k"]) auto
    qed
  qed
qed

lemma reads_as_nonneg: "reads_as h (OpenEnded a) \<or> reads_as h (Closed a b) \<Longrightarrow> 0 \<le> a"
proof -
  assume "reads_as h (OpenEnded a) \<or> reads_as h (Closed a b)"
  then obtain s where s: "s \<noteq> []" "CHR ''-'' \<notin> set s" "parse_int s = Inr a" by auto
  then have "hd s \<noteq> CHR ''-''" by (cases s) auto
  with s show "0 \<le> a" using parse_int_nonneg by blast
qed

lemma reads_as_range:
  assumes "reads_as h f"
  shows "case f of Suffix k \<Rightarrow> in_i64 k | OpenEnded a \<Rightarrow> in_i64 a | Closed a b \<Rightarrow> in_i64 a \<and> in_i64 b"
  using assms parse_int_range by (cases f) fastforce+

text \<open>A text that reads as a form is resolved to what the form denotes.\<close>

lemma resolve_reads_as:
  assumes "reads_as h f" and "in_i64 n"
  shows "resolveByteRange h n = (case range_meaning f n of Some (x, y) \<Rightarrow> (x, y, True) | None \<Rightarrow> (0, 0, False))"
proof -
  have n1: "0 < n \<Longrightarrow> i64 (n - 1) = n - 1"
    using assms(2) by (intro i64_id) auto
  have nk: "0 \<le> k \<Longrightarrow> k < 2 ^ 63 \<Longrightarrow> 0 < n \<Longrightarrow> i64 (n - k) = n - k" for k
    using assms(2) by (intro i64_id) auto
  have nn: "case f of Suffix k \<Rightarrow> True | OpenEnded a \<Rightarrow> 0 \<le> a | Closed a b \<Rightarrow> 0 \<le> a"
    using reads_as_nonneg [of h] assms(1) by (cases f) (auto simp del: reads_as.simps)
  show ?thesis
    using reads_as_range [OF assms(1)] nn n1 nk
    unfolding resolveByteRange_def parse_reads_as [OF assms(1)]
    by (cases f) (auto simp: no_range_def min_def)
qed

subsection \<open>Properties\<close>

text \<open>
  Every range the proxy accepts lies inside the object: for any header text whatever and any
  object size, an accepted range has \<open>0 \<le> start \<le> end < size\<close> (so the later slicing and the
  \<open>Content-Length\<close> arithmetic cannot leave the object, and an empty object satisfies no range).
\<close>

lemma accepted_range_in_object:
  assumes "in_i64 n" and "resolveByteRange h n = (s, e, True)"
  shows "0 \<le> s \<and> s \<le> e \<and> e < n"
  using assms by (rule resolve_bounds)

text \<open>
  C14: The parser is correct on every printed range: for each of the three forms with numbers in
  \<open>int64\<close>, resolving the printed header gives exactly the bytes the form denotes, clamped to the
  object, and is refused exactly when the form denotes none.
\<close>

theorem resolve_printed_range:
  assumes "wf_range r" and "in_i64 n"
  shows "resolveByteRange (render r) n =
    (case range_meaning r n of Some (s, e) \<Rightarrow> (s, e, True) | None \<Rightarrow> (0, 0, False))"
  using assms by (rule resolve_render)

theorem resolve_printed_range_witness:
  "wf_range (Closed 900 1999) \<and> in_i64 1000 \<and> resolveByteRange (render (Closed 900 1999)) 1000 = (900, 999, True)"
  using resolve_printed_range [of "Closed 900 1999" 1000] by simp

text \<open>
  C13: Exactly which headers are accepted, and as what, for an object of \<open>n\<close> bytes: a header is resolved to the bytes
  \<open>x\<close> to \<open>y\<close> if and only if it reads \<open>bytes=-N\<close>, \<open>bytes=A-\<close> or \<open>bytes=A-B\<close>, where the numbers are whatever
  \<^verbatim>\<open>strconv.ParseInt\<close> accepts, and that form denotes these bytes: the last \<open>N > 0\<close> of a non-empty object or all of it, from
  \<open>A < n\<close> to the end, or from \<open>A < n\<close> to \<open>B \<ge> A\<close> or the end if that comes first. Every other header, and every header on
  an empty object, is refused, with the zero range.
\<close>

theorem accepted_headers_exactly:
  assumes "in_i64 n"
  shows "resolveByteRange h n = (x, y, ok) \<longleftrightarrow>
    (if ok then \<exists>f. reads_as h f \<and> range_meaning f n = Some (x, y)
     else x = 0 \<and> y = 0 \<and> (\<nexists>f p. reads_as h f \<and> range_meaning f n = Some p))"
proof (cases "\<exists>f. reads_as h f")
  case True
  then obtain f where f: "reads_as h f" by blast
  have "range_meaning f' n = range_meaning f n" if "reads_as h f'" for f'
    using resolve_reads_as [OF f assms] resolve_reads_as [OF that assms] by (auto split: option.splits)
  with f resolve_reads_as [OF f assms] show ?thesis
    by (cases "range_meaning f n") auto
next
  case False
  moreover obtain a b sfx ok' where p: "parseByteRange h = (a, b, sfx, ok')" by (metis prod_cases4)
  ultimately have "\<not> ok'"
    using parse_ok_reads_as by metis
  with p have "resolveByteRange h n = (0, 0, False)"
    by (simp add: resolveByteRange_def)
  with False show ?thesis by auto
qed

theorem accepted_headers_exactly_witness:
  "(\<exists>f. reads_as ''bytes=-300'' f \<and> range_meaning f 1000 = Some (700, 999))"
proof -
  have "resolveByteRange ''bytes=-300'' 1000 = (700, 999, True)"
    by (simp add: resolveByteRange_def parseByteRange_def no_range_def parse_int_def parse_uint_def
        is_digit_def digit_val_def i64_def)
  then show ?thesis
    using accepted_headers_exactly [of 1000 "''bytes=-300''" 700 999 True] by simp
qed

end
