(* ===== verification/Fetch_Interface.thy ===== *)
theory Fetch_Interface
  imports Cache_Interface
begin

section \<open>The contract of a chunk fetcher\<close>

text \<open>
  What the request handler and the prefetcher rely on when they fetch a chunk into a pooled buffer
  (\<^verbatim>\<open>engine.BackendFetcher\<close>): the buffer keeps its length, the reported count lies within it, and the
  counted prefix is data the fetcher stands for. \<open>fetch_through\<close> adds the tier the result is put
  into: the copy the clients make, \<^verbatim>\<open>copy(owned, (*buf)[:n])\<close>, cannot panic and caching it keeps the
  tier coherent. The interpretations are in \<open>Backend\<close> and \<open>Prefetch\<close>.
\<close>

locale chunk_fetcher =
  fixes fetch :: "'k \<Rightarrow> bytes \<Rightarrow> bytes \<times> ('e + nat)"
    and served :: "'k \<Rightarrow> bytes \<Rightarrow> bool"
  assumes fetch_buffer: "length (fst (fetch k buf)) = length buf"
    and fetch_count: "snd (fetch k buf) = Inr n \<Longrightarrow> n \<le> length buf"
    and fetch_served: "length buf = ChunkSize \<Longrightarrow> snd (fetch k buf) = Inr n \<Longrightarrow> served k (take n (fst (fetch k buf)))"
begin

lemma fetch_copy:
  assumes "snd (fetch k buf) = Inr n"
  shows "slice_checked (fst (fetch k buf)) 0 (int n) = Inr (take n (fst (fetch k buf)))"
  using fetch_count [OF assms] fetch_buffer [of k buf] by (simp add: slice_checked_def subslice_def)

lemma fetch_owned_bounded:
  assumes "length buf = ChunkSize" and "snd (fetch k buf) = Inr n"
  shows "length (take n (fst (fetch k buf))) \<le> ChunkSize"
  using fetch_buffer [of k buf] assms(1) by simp

end

locale fetch_through = cache_tier lookup put inv + chunk_fetcher fetch served
  for lookup :: "'s \<Rightarrow> 'k \<Rightarrow> bytes option" and put :: "'s \<Rightarrow> 'k \<Rightarrow> bytes \<Rightarrow> 's \<times> ('k \<times> bytes) list"
    and inv :: "'s \<Rightarrow> bool" and fetch :: "'k \<Rightarrow> bytes \<Rightarrow> bytes \<times> ('e + nat)" and served :: "'k \<Rightarrow> bytes \<Rightarrow> bool"
begin

lemma fill_coherent:
  assumes "inv s" and "holds_all (lookup s) served"
    and "length buf = ChunkSize" and "snd (fetch k buf) = Inr n"
  shows "holds_all (lookup (fst (put s k (take n (fst (fetch k buf)))))) served"
  using assms by (intro put_coherent fetch_served)

lemma fill_readable:
  assumes "inv s" and "snd (fetch k buf) = Inr n"
  shows "lookup (fst (put s k (take n (fst (fetch k buf))))) k = Some (take n (fst (fetch k buf)))"
  using assms(1) by (rule put_same)

end

end
