(* ===== verification/Backend.thy ===== *)
theory Backend
  imports Byte_Range Chunk_Key Fetch_Interface
begin

section \<open>The storage backend\<close>

text \<open>
  \<^verbatim>\<open>Backend\<close> of \<^verbatim>\<open>internal/proxy/backend.go\<close> without the sharing of fetches in flight, which is
  \<open>Single_Flight\<close>. The AWS SDK is a parameter: \<open>getObject\<close> and \<open>headObject\<close> are the answers of
  the client's calls, \<open>load\<close> the configuration loader. A response body is a \<open>reader\<close>: the list of
  what its \<^verbatim>\<open>Read\<close> calls can deliver, each some bytes and possibly an error, then end of file.
  \<open>io.ReadFull\<close> is the loop of the standard library over it.
\<close>

subsection \<open>Readers and \<^verbatim>\<open>io.ReadFull\<close>\<close>

datatype io_error = EOF | ErrUnexpectedEOF | ReadError string

type_synonym reader = "(bytes \<times> io_error option) list"

text \<open>One \<^verbatim>\<open>Read(p)\<close> with \<open>room = len(p)\<close>; what does not fit stays for the next call.\<close>

fun body_read :: "nat \<Rightarrow> reader \<Rightarrow> bytes \<times> io_error option \<times> reader" where
  "body_read room [] = ([], Some EOF, [])"
| "body_read room ((d, e) # rd) =
     (if length d \<le> room then (d, e, rd) else (take room d, None, (drop room d, e) # rd))"

lemma length_body_read: "body_read room rd = (d, e, rd') \<Longrightarrow> length d \<le> room"
  by (cases rd) (auto split: if_splits)

lemma body_read_progress:
  assumes "(d, e, rd') = body_read room rd" and "0 < room"
  shows "length d \<le> room \<and>
    length rd' + (room - length d) + (if e = None then 1 else 0) < Suc (length rd + room)"
proof (cases rd)
  case Nil
  with assms show ?thesis by simp
next
  case (Cons seg rd2)
  obtain c e2 where "seg = (c, e2)" by fastforce
  with Cons assms show ?thesis
    by (cases "length c \<le> room") auto
qed

text \<open>The loop of \<^verbatim>\<open>io.ReadAtLeast\<close> with \<open>min = len(buf)\<close>: the buffer, the count, the error, the rest.\<close>

function read_at_least :: "reader \<Rightarrow> bytes \<Rightarrow> nat \<Rightarrow> io_error option \<Rightarrow> bytes \<times> nat \<times> io_error option \<times> reader" where
  "read_at_least rd buf n err =
     (if n < length buf \<and> err = None
      then (case body_read (length buf - n) rd of (d, err', rd') \<Rightarrow>
              read_at_least rd' (take n buf @ d @ drop (n + length d) buf) (n + length d) err')
      else (buf, n, err, rd))"
  by pat_completeness auto

termination
  by (relation "measure (\<lambda>(rd, buf, n, err). length rd + (length buf - n) + (if err = None then 1 else 0))")
    (auto dest!: body_read_progress)

declare read_at_least.simps [simp del]

definition ReadFull :: "reader \<Rightarrow> bytes \<Rightarrow> bytes \<times> nat \<times> io_error option" where
  "ReadFull rd buf =
     (case read_at_least rd buf 0 None of (buf', n, err, rest) \<Rightarrow>
        (buf', n,
         if n \<ge> length buf then None
         else if n > 0 \<and> err = Some EOF then Some ErrUnexpectedEOF
         else err))"

text \<open>What a reader delivers in all: the bytes before its first error, and that error.\<close>

fun body_bytes :: "reader \<Rightarrow> bytes \<times> io_error" where
  "body_bytes [] = ([], EOF)"
| "body_bytes ((d, Some e) # rd) = (d, e)"
| "body_bytes ((d, None) # rd) = (d @ fst (body_bytes rd), snd (body_bytes rd))"

lemma read_at_least_spec:
  assumes "body_bytes rd = (d, x)" and "n \<le> length buf"
  shows "\<exists>rest err. read_at_least rd buf n None =
      (take n buf @ take (length buf - n) d @ drop (n + length d) buf, n + min (length buf - n) (length d), err, rest)
      \<and> (length d < length buf - n \<longrightarrow> err = Some x)"
  using assms
proof (induction rd arbitrary: buf n d x)
  case Nil
  then show ?case
    by (cases "n < length buf") (simp_all add: read_at_least.simps [of "[]"] read_at_least.simps [of _ _ _ "Some EOF"])
next
  case (Cons seg rd)
  obtain c e where seg: "seg = (c, e)" by fastforce
  show ?case
  proof (cases "n < length buf")
    case False
    with Cons.prems show ?thesis
      by (simp add: read_at_least.simps [of _ buf "length buf"])
  next
    case room: True
    show ?thesis
    proof (cases "length c \<le> length buf - n")
      case False
      then have "length d \<ge> length buf - n \<and> take (length buf - n) c = take (length buf - n) d"
        using Cons.prems(1) by (cases e) (auto simp: seg)
      moreover have "read_at_least (seg # rd) buf n None =
          read_at_least ((drop (length buf - n) c, e) # rd) (take n buf @ take (length buf - n) c) (length buf) None"
        using False room by (subst read_at_least.simps) (simp add: seg)
      moreover have "length (take n buf @ take (length buf - n) c) = length buf"
        using False room by simp
      ultimately show ?thesis
        using room by (auto simp: read_at_least.simps [of "(drop _ c, e) # rd"] min_def)
    next
      case fits: True
      let ?buf = "take n buf @ c @ drop (n + length c) buf"
      have step: "read_at_least (seg # rd) buf n None = read_at_least rd ?buf (n + length c) e"
        using room fits by (simp add: seg read_at_least.simps [of "(c, e) # rd"])
      have len: "length ?buf = length buf" using fits room by simp
      show ?thesis
      proof (cases e)
        case (Some y)
        with Cons.prems(1) have "d = c" "x = y" by (simp_all add: seg)
        with fits room Some show ?thesis
          unfolding step by (simp add: read_at_least.simps [of rd] min_def)
      next
        case None
        obtain d' where d: "body_bytes rd = (d', x)" "d = c @ d'"
          using Cons.prems(1) None by (cases "body_bytes rd") (auto simp: seg)
        have "n + length c \<le> length ?buf" using fits room by simp
        from Cons.IH [OF d(1) this] obtain rest err where
          ih: "read_at_least rd ?buf (n + length c) None =
            (take (n + length c) ?buf @ take (length ?buf - (n + length c)) d' @ drop (n + length c + length d') ?buf,
             n + length c + min (length ?buf - (n + length c)) (length d'), err, rest)"
            "length d' < length ?buf - (n + length c) \<longrightarrow> err = Some x" by blast
        have "take (n + length c) ?buf = take n buf @ c" using room by simp
        moreover have "drop (n + length c + length d') ?buf = drop (n + length d) buf"
          using room fits by (simp add: d(2)) (rule arg_cong [where f = "\<lambda>m. drop m buf"], arith)
        moreover have "take (length buf - n) d = c @ take (length buf - (n + length c)) d'"
          using fits by (simp add: d(2))
        moreover have "n + length c + min (length buf - (n + length c)) (length d') = n + min (length buf - n) (length d)"
          using fits by (simp add: d(2) min_def) arith
        ultimately show ?thesis
          using ih fits unfolding step None len by (simp add: d(2))
      qed
    qed
  qed
qed

lemma ReadFull_spec:
  assumes "body_bytes rd = (d, x)"
  shows "ReadFull rd buf =
     (take (length buf) d @ drop (length d) buf, min (length buf) (length d),
      if length buf \<le> length d then None else if d \<noteq> [] \<and> x = EOF then Some ErrUnexpectedEOF else Some x)"
proof -
  obtain rest err where "read_at_least rd buf 0 None =
      (take 0 buf @ take (length buf - 0) d @ drop (0 + length d) buf, 0 + min (length buf - 0) (length d), err, rest)"
      "length d < length buf - 0 \<longrightarrow> err = Some x"
    using read_at_least_spec [OF assms, of 0 buf] by auto
  then show ?thesis
    by (auto simp: ReadFull_def min_def)
qed

subsection \<open>Configuration\<close>

record BackendConfig =
  Endpoint :: string
  Region :: string
  AccessKeyID :: string
  SecretAccessKey :: string
  Bucket :: string
  MaxConns :: int

text \<open>Durations are in nanoseconds, as in package \<^verbatim>\<open>time\<close>.\<close>

definition Second :: int where
  "Second = 1000000000"

record Transport =
  DialTimeout :: int
  KeepAlive :: int
  MaxIdleConns :: int
  MaxIdleConnsPerHost :: int
  IdleConnTimeout :: int
  TLSHandshakeTimeout :: int
  ExpectContinueTimeout :: int
  DisableCompression :: bool

datatype load_option = WithRegion string | WithHTTPClient Transport | WithCredentials string string string

record s3_options =
  BaseEndpoint :: "string option"
  UsePathStyle :: bool

record Backend =
  cfg :: BackendConfig
  sizes :: "string \<Rightarrow> int option"

datatype backend_error =
    LoadConfigFailed string
  | GetRangeFailed string string string
  | ReadBodyFailed string u64 io_error
  | HeadFailed string string
  | GetObjectFailed string string
  | CtxDone

definition backend_transport :: "BackendConfig \<Rightarrow> Transport" where
  "backend_transport c =
     \<lparr>DialTimeout = 5 * Second, KeepAlive = 30 * Second, MaxIdleConns = MaxConns c, MaxIdleConnsPerHost = MaxConns c,
      IdleConnTimeout = 90 * Second, TLSHandshakeTimeout = 5 * Second, ExpectContinueTimeout = 1 * Second,
      DisableCompression = True\<rparr>"

definition load_options :: "BackendConfig \<Rightarrow> load_option list" where
  "load_options c =
     [WithRegion (Region c), WithHTTPClient (backend_transport c)] @
     (if AccessKeyID c \<noteq> '''' \<and> SecretAccessKey c \<noteq> ''''
      then [WithCredentials (AccessKeyID c) (SecretAccessKey c) ''''] else [])"

text \<open>The function \<^verbatim>\<open>s3.NewFromConfig\<close> applies to the client's options.\<close>

definition endpoint_option :: "BackendConfig \<Rightarrow> s3_options \<Rightarrow> s3_options" where
  "endpoint_option c opts =
     (if Endpoint c \<noteq> ''''
      then let o1 = opts\<lparr>BaseEndpoint := Some (Endpoint c)\<rparr>
           in if \<not> contains (Endpoint c) ''amazonaws.com'' then o1\<lparr>UsePathStyle := True\<rparr> else o1
      else opts)"

text \<open>
  \<^verbatim>\<open>NewBackend\<close>: the backend, together with the arguments the SDK client is made from.
\<close>

definition NewBackend ::
  "(load_option list \<Rightarrow> string + 'aws) \<Rightarrow> BackendConfig \<Rightarrow>
     backend_error + ('aws \<times> (s3_options \<Rightarrow> s3_options)) \<times> Backend" where
  "NewBackend load c0 =
     (let c = (if MaxConns c0 \<le> 0 then c0\<lparr>MaxConns := 512\<rparr> else c0)
      in case load (load_options c) of
           Inl e \<Rightarrow> Inl (LoadConfigFailed e)
         | Inr awsCfg \<Rightarrow> Inr ((awsCfg, endpoint_option c), \<lparr>cfg = c, sizes = (\<lambda>_. None)\<rparr>))"

subsection \<open>Requests to the object store\<close>

record get_output =
  Body :: reader
  ContentType :: "string option"

type_synonym get_object = "string \<Rightarrow> string \<Rightarrow> string option \<Rightarrow> string + get_output"
type_synonym head_object = "string \<Rightarrow> string \<Rightarrow> string + int option"

definition range_header :: "u64 \<Rightarrow> string" where
  "range_header chunkIndex =
     (let rangeStart = i64 (int64_of chunkIndex * int ChunkSize);
          rangeEnd = i64 (i64 (rangeStart + int ChunkSize) - 1)
      in ''bytes='' @ show_int rangeStart @ ''-'' @ show_int rangeEnd)"

definition fetchChunk ::
  "get_object \<Rightarrow> Backend \<Rightarrow> string \<Rightarrow> u64 \<Rightarrow> bytes \<Rightarrow> bytes \<times> (backend_error + nat)" where
  "fetchChunk getObject b objectKey chunkIndex buf =
     (let rangeHdr = range_header chunkIndex
      in case getObject (Bucket (cfg b)) objectKey (Some rangeHdr) of
           Inl err \<Rightarrow> (buf, Inl (GetRangeFailed rangeHdr objectKey err))
         | Inr out \<Rightarrow>
             case ReadFull (Body out) buf of (buf', n, err) \<Rightarrow>
               (case err of
                  None \<Rightarrow> (buf', Inr n)
                | Some e \<Rightarrow> if e \<noteq> ErrUnexpectedEOF then (buf', Inl (ReadBodyFailed objectKey chunkIndex e))
                            else (buf', Inr n)))"

definition ObjectSize :: "head_object \<Rightarrow> Backend \<Rightarrow> string \<Rightarrow> Backend \<times> (backend_error + int)" where
  "ObjectSize headObject b objectKey =
     (case sizes b objectKey of
        Some v \<Rightarrow> (b, Inr v)
      | None \<Rightarrow>
          case headObject (Bucket (cfg b)) objectKey of
            Inl err \<Rightarrow> (b, Inl (HeadFailed objectKey err))
          | Inr contentLength \<Rightarrow>
              let objsize = (case contentLength of None \<Rightarrow> 0 | Some n \<Rightarrow> n)
              in (b\<lparr>sizes := (sizes b)(objectKey \<mapsto> objsize)\<rparr>, Inr objsize))"

definition GetObjectStream :: "get_object \<Rightarrow> Backend \<Rightarrow> string \<Rightarrow> backend_error + reader \<times> string" where
  "GetObjectStream getObject b objectKey =
     (case getObject (Bucket (cfg b)) objectKey None of
        Inl err \<Rightarrow> Inl (GetObjectFailed objectKey err)
      | Inr out \<Rightarrow> Inr (Body out, case ContentType out of Some ct \<Rightarrow> ct | None \<Rightarrow> ''''))"

subsection \<open>The outcome of \<open>fetchChunk\<close>\<close>

lemma fetchChunk_unfold:
  "fetchChunk getObject b key i buf =
     (case getObject (Bucket (cfg b)) key (Some (range_header i)) of
        Inl e \<Rightarrow> (buf, Inl (GetRangeFailed (range_header i) key e))
      | Inr out \<Rightarrow> (case body_bytes (Body out) of (d, x) \<Rightarrow>
          (take (length buf) d @ drop (length d) buf,
           if length buf \<le> length d \<or> (d \<noteq> [] \<and> x = EOF) \<or> x = ErrUnexpectedEOF
           then Inr (min (length buf) (length d)) else Inl (ReadBodyFailed key i x))))"
proof (cases "getObject (Bucket (cfg b)) key (Some (range_header i))")
  case (Inr out)
  then show ?thesis
    using ReadFull_spec [of "Body out" _ _ buf]
    by (cases "body_bytes (Body out)") (auto simp: fetchChunk_def Let_def)
qed (simp add: fetchChunk_def)

text \<open>
  What \<open>fetchChunk\<close> may deliver for a chunk: the first \<open>ChunkSize\<close> bytes of a store's answer that ends in a way it
  accepts.
\<close>

definition chunk_served :: "get_object \<Rightarrow> Backend \<Rightarrow> ChunkKey \<Rightarrow> bytes \<Rightarrow> bool" where
  "chunk_served getObject b k d \<longleftrightarrow>
     (case getObject (Bucket (cfg b)) (ObjectKey k) (Some (range_header (ChunkIndex k))) of
        Inl e \<Rightarrow> False
      | Inr out \<Rightarrow> (case body_bytes (Body out) of (x, err) \<Rightarrow>
          d = take ChunkSize x \<and> (ChunkSize \<le> length x \<or> (x \<noteq> [] \<and> err = EOF) \<or> err = ErrUnexpectedEOF)))"

definition fetch_key :: "get_object \<Rightarrow> Backend \<Rightarrow> ChunkKey \<Rightarrow> bytes \<Rightarrow> bytes \<times> (backend_error + nat)" where
  "fetch_key getObject b k buf = fetchChunk getObject b (ObjectKey k) (ChunkIndex k) buf"

interpretation backend: chunk_fetcher "fetch_key getObject b" "chunk_served getObject b"
  for getObject b
proof unfold_locales
  fix k and buf :: bytes and n
  show "length (fst (fetch_key getObject b k buf)) = length buf"
    by (auto simp: fetch_key_def fetchChunk_unfold min_def split: sum.split prod.split)
  show "snd (fetch_key getObject b k buf) = Inr n \<Longrightarrow> n \<le> length buf"
    by (auto simp: fetch_key_def fetchChunk_unfold split: sum.splits prod.splits if_splits)
  show "length buf = ChunkSize \<Longrightarrow> snd (fetch_key getObject b k buf) = Inr n \<Longrightarrow>
      chunk_served getObject b k (take n (fst (fetch_key getObject b k buf)))"
    by (auto simp: fetch_key_def fetchChunk_unfold chunk_served_def min_def split: sum.splits prod.splits if_splits)
qed

subsection \<open>Ranged reads of an object store\<close>

text \<open>
  The documented answer of S3 to a ranged GET of an object: the bytes of the range that exist, as a
  complete body, or an error when the range starts at or past the end (\<^verbatim>\<open>InvalidRange\<close>).
\<close>

definition s3_ranged :: "get_object \<Rightarrow> string \<Rightarrow> (string \<Rightarrow> bytes option) \<Rightarrow> bool" where
  "s3_ranged getObject bucket store \<longleftrightarrow>
     (\<forall>key obj x y. store key = Some obj \<longrightarrow> 0 \<le> x \<longrightarrow> x \<le> y \<longrightarrow> y < 2 ^ 63 \<longrightarrow>
        (case getObject bucket key (Some (''bytes='' @ show_int x @ ''-'' @ show_int y)) of
           Inl e \<Rightarrow> int (length obj) \<le> x
         | Inr out \<Rightarrow> x < int (length obj) \<and> body_bytes (Body out) = (subslice obj (nat x) (nat (y + 1)), EOF)))"

text \<open>A concrete store with this behaviour, delivering its bodies in two reads.\<close>

definition s3_sim :: "(string \<Rightarrow> bytes option) \<Rightarrow> get_object" where
  "s3_sim store bucket key rangeHdr =
     (case store key of
        None \<Rightarrow> Inl ''NoSuchKey''
      | Some obj \<Rightarrow>
          case rangeHdr of
            None \<Rightarrow> Inr \<lparr>Body = [(obj, None)], ContentType = None\<rparr>
          | Some h \<Rightarrow>
              case resolveByteRange h (int (length obj)) of (x, y, ok) \<Rightarrow>
                if ok
                then let d = subslice obj (nat x) (nat (y + 1))
                     in Inr \<lparr>Body = [(take 2 d, None), (drop 2 d, Some EOF)], ContentType = None\<rparr>
                else Inl ''InvalidRange'')"

lemma s3_sim_ranged:
  assumes "\<forall>key obj. store key = Some obj \<longrightarrow> int (length obj) < 2 ^ 63"
  shows "s3_ranged (s3_sim store) bucket store"
  unfolding s3_ranged_def
proof (intro allI impI)
  fix key obj and x y :: int
  assume h: "store key = Some obj" "0 \<le> x" "x \<le> y" "y < 2 ^ 63"
  have len: "int (length obj) < 2 ^ 63" using assms h(1) by blast
  have "resolveByteRange (''bytes='' @ show_int x @ ''-'' @ show_int y) (int (length obj)) =
      (if x < int (length obj) then (x, min y (int (length obj) - 1), True) else (0, 0, False))"
    using resolve_render [of "Closed x y" "int (length obj)"] h len by simp
  moreover have "subslice obj (nat x) (nat (min y (int (length obj) - 1) + 1)) = subslice obj (nat x) (nat (y + 1))"
    by (simp add: subslice_def min_def)
  ultimately show "case s3_sim store bucket key (Some (''bytes='' @ show_int x @ ''-'' @ show_int y)) of
      Inl e \<Rightarrow> int (length obj) \<le> x
    | Inr out \<Rightarrow> x < int (length obj) \<and> body_bytes (Body out) = (subslice obj (nat x) (nat (y + 1)), EOF)"
    using h(1) by (simp add: s3_sim_def Let_def)
qed

lemma range_header_small:
  assumes "uint i < 2 ^ 41"
  shows "range_header i =
    ''bytes='' @ show_int (uint i * int ChunkSize) @ ''-'' @ show_int (uint i * int ChunkSize + int ChunkSize - 1)"
proof -
  have b: "0 \<le> uint i" "uint i * 4194304 < 2 ^ 63" "uint i * 4194304 + 4194303 < 2 ^ 63"
    using assms by auto
  have "int64_of i = uint i" using assms by (intro int64_of_small) simp
  moreover have "i64 (uint i * 4194304) = uint i * 4194304"
    using b by (intro i64_id) linarith
  moreover have "i64 (uint i * 4194304 + 4194303) = uint i * 4194304 + 4194303"
    using b by (intro i64_id) linarith
  ultimately show ?thesis
    by (simp add: range_header_def Let_def ChunkSize_val algebra_simps)
qed

lemma chunk_request:
  assumes "s3_ranged getObject bucket store" and "store key = Some obj" and "uint i < 2 ^ 41"
  shows "case getObject bucket key (Some (range_header i)) of
      Inl e \<Rightarrow> length obj \<le> unat i * ChunkSize
    | Inr out \<Rightarrow> unat i * ChunkSize < length obj \<and> body_bytes (Body out) = (chunk_of obj (unat i), EOF)"
proof -
  let ?x = "uint i * int ChunkSize"
  let ?y = "?x + int ChunkSize - 1"
  have "0 \<le> ?x" "?x \<le> ?y" "?y < 2 ^ 63"
    using assms(3) by (simp_all add: ChunkSize_val)
  with assms(1,2) have r: "case getObject bucket key (Some (''bytes='' @ show_int ?x @ ''-'' @ show_int ?y)) of
      Inl e \<Rightarrow> int (length obj) \<le> ?x
    | Inr out \<Rightarrow> ?x < int (length obj) \<and> body_bytes (Body out) = (subslice obj (nat ?x) (nat (?y + 1)), EOF)"
    unfolding s3_ranged_def by blast
  have x: "?x = int (unat i * ChunkSize)" by simp
  have n: "nat (int (unat i * ChunkSize) + int ChunkSize - 1 + 1) = unat i * ChunkSize + ChunkSize"
    by linarith
  show ?thesis
    using r unfolding range_header_small [OF assms(3)] x n nat_int chunk_of_subslice of_nat_le_iff of_nat_less_iff .
qed

text \<open>
  The same store on a bad day: any request may fail, and a transfer may break off with an error of its own (a reset
  connection, a timeout). What it never does is end short of the requested bytes as if they were all there, with end of
  file or with \<^verbatim>\<open>io.ErrUnexpectedEOF\<close>, which \<open>fetchChunk\<close> takes for the end of the object
  (\<open>fetchChunk_accepts_truncated\<close>).
\<close>

definition s3_honest :: "get_object \<Rightarrow> string \<Rightarrow> (string \<Rightarrow> bytes option) \<Rightarrow> bool" where
  "s3_honest getObject bucket store \<longleftrightarrow>
     (\<forall>key obj x y. store key = Some obj \<longrightarrow> 0 \<le> x \<longrightarrow> x \<le> y \<longrightarrow> y < 2 ^ 63 \<longrightarrow>
        (case getObject bucket key (Some (''bytes='' @ show_int x @ ''-'' @ show_int y)) of
           Inl e \<Rightarrow> True
         | Inr out \<Rightarrow> x < int (length obj) \<and>
             (case body_bytes (Body out) of (d, err) \<Rightarrow>
                d = subslice obj (nat x) (nat (y + 1)) \<or>
                (\<exists>n msg. d = take n (subslice obj (nat x) (nat (y + 1))) \<and> err = ReadError msg))))"

lemma s3_ranged_honest: "s3_ranged getObject bucket store \<Longrightarrow> s3_honest getObject bucket store"
  unfolding s3_ranged_def s3_honest_def by (fastforce split: sum.splits)

lemma s3_failing_honest: "s3_honest (\<lambda>b k r. Inl msg) bucket store"
  by (simp add: s3_honest_def)

lemma honest_chunk_request:
  assumes "s3_honest getObject bucket store" and "store key = Some obj" and "uint i < 2 ^ 41"
  shows "case getObject bucket key (Some (range_header i)) of
      Inl e \<Rightarrow> True
    | Inr out \<Rightarrow> unat i * ChunkSize < length obj \<and>
        (case body_bytes (Body out) of (d, err) \<Rightarrow>
           d = chunk_of obj (unat i) \<or> (\<exists>n msg. d = take n (chunk_of obj (unat i)) \<and> err = ReadError msg))"
proof -
  let ?x = "uint i * int ChunkSize"
  let ?y = "?x + int ChunkSize - 1"
  have "0 \<le> ?x" "?x \<le> ?y" "?y < 2 ^ 63"
    using assms(3) by (simp_all add: ChunkSize_val)
  with assms(1,2) have r: "case getObject bucket key (Some (''bytes='' @ show_int ?x @ ''-'' @ show_int ?y)) of
      Inl e \<Rightarrow> True
    | Inr out \<Rightarrow> ?x < int (length obj) \<and>
        (case body_bytes (Body out) of (d, err) \<Rightarrow> d = subslice obj (nat ?x) (nat (?y + 1)) \<or>
           (\<exists>n msg. d = take n (subslice obj (nat ?x) (nat (?y + 1))) \<and> err = ReadError msg))"
    unfolding s3_honest_def by blast
  have x: "?x = int (unat i * ChunkSize)" by simp
  have n: "nat (int (unat i * ChunkSize) + int ChunkSize - 1 + 1) = unat i * ChunkSize + ChunkSize"
    by linarith
  show ?thesis
    using r unfolding range_header_small [OF assms(3)] x n nat_int chunk_of_subslice of_nat_less_iff .
qed

text \<open>So whatever \<open>fetchChunk\<close> accepts from such a store is the chunk.\<close>

lemma honest_served:
  assumes "s3_honest getObject (Bucket (cfg b)) store" and "store (ObjectKey k) = Some obj" and "uint (ChunkIndex k) < 2 ^ 41"
    and "chunk_served getObject b k d"
  shows "unat (ChunkIndex k) * ChunkSize < length obj \<and> d = chunk_of obj (unat (ChunkIndex k))"
proof -
  have len: "length (chunk_of obj (unat (ChunkIndex k))) \<le> ChunkSize" by (simp add: chunk_of_def)
  show ?thesis
    using honest_chunk_request [OF assms(1-3)] assms(4) len
    by (auto simp: chunk_served_def min_def split: sum.splits prod.splits if_splits)
qed

subsection \<open>The size cache\<close>

fun size_calls :: "Backend \<Rightarrow> (head_object \<times> string) list \<Rightarrow> Backend" where
  "size_calls b [] = b"
| "size_calls b ((headObject, key) # xs) = size_calls (fst (ObjectSize headObject b key)) xs"

lemma ObjectSize_keeps: "sizes b key = Some v \<Longrightarrow> sizes (fst (ObjectSize headObject b key')) key = Some v"
  by (auto simp: ObjectSize_def Let_def split: option.split sum.split)

lemma size_calls_keep: "sizes b key = Some v \<Longrightarrow> sizes (size_calls b xs) key = Some v"
  by (induction b xs rule: size_calls.induct) (simp_all add: ObjectSize_keeps)

lemma ObjectSize_cfg: "cfg (fst (ObjectSize headObject b key)) = cfg b"
  by (simp add: ObjectSize_def Let_def split: option.split sum.split)

lemma ObjectSize_stores: "ObjectSize headObject b key = (b', Inr v) \<Longrightarrow> sizes b' key = Some v"
  by (auto simp: ObjectSize_def Let_def split: option.splits sum.splits)

subsection \<open>Properties\<close>

text \<open>
  C15: Against a store that answers ranged reads as S3 documents, \<open>fetchChunk\<close> fetches exactly the
  chunk: for every index that does not overflow an \<open>int64\<close> offset, the buffer's first bytes are
  the object's bytes from \<open>i * ChunkSize\<close> on, the count is the length of that piece (shorter for
  the last chunk), and a chunk past the end is an error.
\<close>

theorem fetchChunk_exact:
  assumes "s3_ranged getObject (Bucket (cfg b)) store" and "store key = Some obj"
    and "uint i < 2 ^ 41" and "length buf = ChunkSize"
  shows "case fetchChunk getObject b key i buf of (buf', r) \<Rightarrow>
     length buf' = ChunkSize \<and>
     (if unat i * ChunkSize < length obj
      then r = Inr (length (chunk_of obj (unat i))) \<and> take (length (chunk_of obj (unat i))) buf' = chunk_of obj (unat i)
      else \<exists>e. r = Inl e)"
proof (cases "getObject (Bucket (cfg b)) key (Some (range_header i))")
  case (Inl e)
  with chunk_request [OF assms(1-3)] assms(4) show ?thesis
    by (simp add: fetchChunk_unfold)
next
  case (Inr out)
  let ?d = "chunk_of obj (unat i)"
  have r: "unat i * ChunkSize < length obj" "body_bytes (Body out) = (?d, EOF)"
    using chunk_request [OF assms(1-3)] Inr by simp_all
  have "?d \<noteq> []" "length ?d \<le> ChunkSize"
    using r(1) by (simp_all add: chunk_of_def)
  with r Inr assms(4) show ?thesis
    by (simp add: fetchChunk_unfold)
qed

definition demo_backend :: Backend where
  "demo_backend =
     \<lparr>cfg = \<lparr>Endpoint = ''http://minio:9000'', Region = ''us-east-1'', AccessKeyID = '''', SecretAccessKey = '''',
        Bucket = ''data'', MaxConns = 512\<rparr>, sizes = (\<lambda>_. None)\<rparr>"

definition demo_store :: "string \<Rightarrow> bytes option" where
  "demo_store = [''v.mp4'' \<mapsto> [1, 2, 3, 4, 5]]"

lemma demo_store_ranged: "s3_ranged (s3_sim demo_store) bucket demo_store"
  by (rule s3_sim_ranged) (simp add: demo_store_def)

theorem fetchChunk_exact_witness:
  "s3_ranged (s3_sim demo_store) (Bucket (cfg demo_backend)) demo_store \<and>
   snd (fetchChunk (s3_sim demo_store) demo_backend ''v.mp4'' 0 (replicate ChunkSize 7)) = Inr 5"
proof -
  have "chunk_of [1, 2, 3, 4, 5 :: byte] 0 = [1, 2, 3, 4, 5]"
    by (simp add: chunk_of_def ChunkSize_val)
  moreover have "case fetchChunk (s3_sim demo_store) demo_backend ''v.mp4'' 0 (replicate ChunkSize 7) of (buf', r) \<Rightarrow>
     length buf' = ChunkSize \<and>
     (if unat (0 :: u64) * ChunkSize < length [1, 2, 3, 4, 5 :: byte]
      then r = Inr (length (chunk_of [1, 2, 3, 4, 5 :: byte] (unat (0 :: u64)))) \<and>
        take (length (chunk_of [1, 2, 3, 4, 5 :: byte] (unat (0 :: u64)))) buf' = chunk_of [1, 2, 3, 4, 5] (unat (0 :: u64))
      else \<exists>e. r = Inl e)"
    by (rule fetchChunk_exact [OF demo_store_ranged]) (simp_all add: demo_store_def)
  ultimately show ?thesis
    using demo_store_ranged by (simp add: split_beta)
qed

text \<open>
  What \<open>fetchChunk\<close> returns against any server whatsoever: an error exactly when the request
  failed, or the body ended before the buffer was full with anything but \<open>ErrUnexpectedEOF\<close> or a
  clean end after at least one byte; otherwise the count of the bytes the body delivered, at the
  start of the buffer, the rest of which is untouched.
\<close>

lemma fetchChunk_outcome:
  "fetchChunk getObject b key i buf =
     (case getObject (Bucket (cfg b)) key (Some (range_header i)) of
        Inl e \<Rightarrow> (buf, Inl (GetRangeFailed (range_header i) key e))
      | Inr out \<Rightarrow> (case body_bytes (Body out) of (d, x) \<Rightarrow>
          (take (length buf) d @ drop (length d) buf,
           if length buf \<le> length d \<or> (d \<noteq> [] \<and> x = EOF) \<or> x = ErrUnexpectedEOF
           then Inr (min (length buf) (length d)) else Inl (ReadBodyFailed key i x))))"
  by (rule fetchChunk_unfold)

text \<open>
  A transfer that breaks off is taken for the whole chunk: if the connection is lost after the
  bytes \<open>d\<close> (the HTTP transport then ends the body with \<open>ErrUnexpectedEOF\<close>), \<open>fetchChunk\<close> reports
  success with just those bytes, even with none at all, although the store holds more of the chunk.
\<close>

lemma fetchChunk_accepts_truncated:
  "fetchChunk (\<lambda>bucket k h. Inr \<lparr>Body = [(d, Some ErrUnexpectedEOF)], ContentType = ct\<rparr>) b key i buf =
     (take (length buf) d @ drop (length d) buf, Inr (min (length buf) (length d)))"
  by (simp add: fetchChunk_unfold)

text \<open>
  The byte offset is computed in wrapping 64-bit arithmetic: chunk indices that are \<open>2^42\<close>
  apart send the same request, so such a fetch returns (and would cache under the larger index) the
  smaller index's bytes.
\<close>

lemma range_header_wraps: "range_header (i + 2 ^ 42) = range_header i"
proof -
  have "i64 (int64_of (i + 2 ^ 42) * 4194304) = i64 (int64_of i * 4194304)"
  proof -
    have e: "i64 (i64 x * 4194304) = i64 (x * 4194304)" for x
      unfolding i64_def by (metis signed_take_bit_mult signed_take_bit_signed_take_bit min.idem)
    have p: "i64 (x + 2 ^ 64 * k) = i64 x" for x k
      by (simp add: i64_def signed_take_bit_eq_iff_take_bit_eq take_bit_eq_mod)
    obtain k where k: "uint (i + 2 ^ 42) = uint i + 2 ^ 42 + 2 ^ 64 * k"
    proof -
      have "uint (i + 2 ^ 42) = (uint i + 2 ^ 42) mod 2 ^ 64"
        by (simp add: uint_word_ariths)
      then show thesis
        using that [of "- ((uint i + 2 ^ 42) div 2 ^ 64)"] by (simp add: minus_mult_div_eq_mod [symmetric])
    qed
    have "i64 (int64_of (i + 2 ^ 42) * 4194304) = i64 (uint i * 4194304 + 2 ^ 64 * (1 + 4194304 * k))"
      unfolding int64_of_def e k by (simp add: algebra_simps)
    then show ?thesis
      unfolding p by (simp add: int64_of_def e)
  qed
  then show ?thesis
    by (simp add: range_header_def ChunkSize_val)
qed

text \<open>
  The first answer about an object's size is kept for good: once \<open>ObjectSize\<close> has succeeded, it
  returns that size after any further calls for any objects, whatever the store answers later (an
  object that has been replaced keeps its old size), and never asks again. Failures are not kept.
\<close>

lemma object_size_sticks:
  assumes "ObjectSize headObject b key = (b', r)"
  shows "case r of
      Inr v \<Rightarrow> ObjectSize headObject' (size_calls b' calls) key = (size_calls b' calls, Inr v)
    | Inl e \<Rightarrow> b' = b"
proof (cases r)
  case (Inr v)
  then have "sizes (size_calls b' calls) key = Some v"
    using ObjectSize_stores [of headObject b key b' v] assms by (intro size_calls_keep) simp
  with Inr show ?thesis
    by (simp add: ObjectSize_def)
qed (use assms in \<open>auto simp: ObjectSize_def Let_def split: option.splits sum.splits\<close>)

end
