(* ===== verification/Single_Flight.thy ===== *)
theory Single_Flight
  imports Backend
begin

section \<open>Sharing fetches in flight\<close>

text \<open>
  \<^verbatim>\<open>FetchChunkShared\<close> of \<^verbatim>\<open>internal/proxy/backend.go\<close>, twice. First as a function of one caller: the
  turns of its loop that found another caller's flight are given as the list of what came of each wait;
  the turn after them finds none and leads. Then as a step relation for any number of concurrent
  callers, one step per critical section of \<^verbatim>\<open>b.mu\<close>, per fetch, per close of \<^verbatim>\<open>done\<close> and per wake-up.
\<close>

subsection \<open>One caller\<close>

datatype flight_wait =
    FlightDone "backend_error option" bytes bool  \<comment> \<open>the flight's \<open>err\<close> and \<open>data\<close>; is the own context done?\<close>
  | CtxDoneFirst                                  \<comment> \<open>the select took \<^verbatim>\<open>ctx.Done()\<close>\<close>

fun FetchChunkShared ::
  "get_object \<Rightarrow> Backend \<Rightarrow> flight_wait list \<Rightarrow> string \<Rightarrow> u64 \<Rightarrow> bytes \<Rightarrow> bytes \<times> (backend_error + nat) \<times> bool" where
  "FetchChunkShared getObject b [] objectKey chunkIndex buf =
     (case fetchChunk getObject b objectKey chunkIndex buf of (buf', r) \<Rightarrow> (buf', r, False))"
| "FetchChunkShared getObject b (CtxDoneFirst # ws) objectKey chunkIndex buf = (buf, Inl CtxDone, True)"
| "FetchChunkShared getObject b (FlightDone None data ctxErr # ws) objectKey chunkIndex buf =
     (case copy_bytes buf data of (buf', n) \<Rightarrow> (buf', Inr n, True))"
| "FetchChunkShared getObject b (FlightDone (Some err) data ctxErr # ws) objectKey chunkIndex buf =
     (if ctxErr then (buf, Inl CtxDone, True)
      else FetchChunkShared getObject b ws objectKey chunkIndex buf)"

definition FetchChunk ::
  "get_object \<Rightarrow> Backend \<Rightarrow> flight_wait list \<Rightarrow> string \<Rightarrow> u64 \<Rightarrow> bytes \<Rightarrow> bytes \<times> (backend_error + nat)" where
  "FetchChunk getObject b ws objectKey chunkIndex buf =
     (case FetchChunkShared getObject b ws objectKey chunkIndex buf of (buf', r, joined) \<Rightarrow> (buf', r))"

text \<open>The waits that can occur when every flight carries served data.\<close>

fun wait_served :: "(bytes \<Rightarrow> bool) \<Rightarrow> flight_wait \<Rightarrow> bool" where
  "wait_served P (FlightDone None d c) = (P d \<and> length d \<le> ChunkSize)"
| "wait_served P (FlightDone (Some e) d c) = True"
| "wait_served P CtxDoneFirst = True"

definition shared_served :: "get_object \<Rightarrow> Backend \<Rightarrow> flight_wait list \<Rightarrow> ChunkKey \<Rightarrow> bytes \<Rightarrow> bool" where
  "shared_served getObject b ws k d \<longleftrightarrow>
     chunk_served getObject b k d \<or> (\<exists>d' c. FlightDone None d' c \<in> set ws \<and> d = take ChunkSize d')"

definition shared_key ::
  "get_object \<Rightarrow> Backend \<Rightarrow> flight_wait list \<Rightarrow> ChunkKey \<Rightarrow> bytes \<Rightarrow> bytes \<times> (backend_error + nat)" where
  "shared_key getObject b ws k buf = FetchChunk getObject b ws (ObjectKey k) (ChunkIndex k) buf"

lemma FetchChunk_cases:
  obtains (lead) "FetchChunk getObject b ws key i buf = fetchChunk getObject b key i buf"
    "snd (snd (FetchChunkShared getObject b ws key i buf)) = False"
  | (joined) d c where "FlightDone None d c \<in> set ws"
    "FetchChunk getObject b ws key i buf = (fst (copy_bytes buf d), Inr (snd (copy_bytes buf d)))"
    "snd (snd (FetchChunkShared getObject b ws key i buf)) = True"
  | (cancelled) "FetchChunk getObject b ws key i buf = (buf, Inl CtxDone)"
    "snd (snd (FetchChunkShared getObject b ws key i buf)) = True"
proof -
  have "(FetchChunk getObject b ws key i buf = fetchChunk getObject b key i buf \<and>
      snd (snd (FetchChunkShared getObject b ws key i buf)) = False) \<or>
    (\<exists>d c. FlightDone None d c \<in> set ws \<and>
      FetchChunk getObject b ws key i buf = (fst (copy_bytes buf d), Inr (snd (copy_bytes buf d))) \<and>
      snd (snd (FetchChunkShared getObject b ws key i buf)) = True) \<or>
    (FetchChunk getObject b ws key i buf = (buf, Inl CtxDone) \<and>
      snd (snd (FetchChunkShared getObject b ws key i buf)) = True)"
    unfolding FetchChunk_def
    by (induction getObject b ws key i buf rule: FetchChunkShared.induct) (auto split: prod.split)
  with that show thesis by blast
qed

interpretation shared: chunk_fetcher "shared_key getObject b ws" "shared_served getObject b ws"
  for getObject b ws
proof unfold_locales
  fix k and buf :: bytes and n
  let ?r = "shared_key getObject b ws k buf"
  have led: "?r = fetch_key getObject b k buf \<Longrightarrow>
      length (fst ?r) = length buf \<and> (snd ?r = Inr n \<longrightarrow> n \<le> length buf) \<and>
      (length buf = ChunkSize \<longrightarrow> snd ?r = Inr n \<longrightarrow> shared_served getObject b ws k (take n (fst ?r)))"
    using backend.fetch_buffer [of getObject b k buf] backend.fetch_count [of getObject b k buf n]
      backend.fetch_served [of buf getObject b k n] by (auto simp: shared_served_def)
  have cop: "FlightDone None d c \<in> set ws \<Longrightarrow> ?r = (fst (copy_bytes buf d), Inr (snd (copy_bytes buf d))) \<Longrightarrow>
      length (fst ?r) = length buf \<and> (snd ?r = Inr n \<longrightarrow> n \<le> length buf) \<and>
      (length buf = ChunkSize \<longrightarrow> snd ?r = Inr n \<longrightarrow> shared_served getObject b ws k (take n (fst ?r)))" for d c
    by (auto simp: copy_bytes_def Let_def shared_served_def min_def)
  have all: "length (fst ?r) = length buf \<and> (snd ?r = Inr n \<longrightarrow> n \<le> length buf) \<and>
      (length buf = ChunkSize \<longrightarrow> snd ?r = Inr n \<longrightarrow> shared_served getObject b ws k (take n (fst ?r)))"
  proof (cases rule: FetchChunk_cases [of getObject b ws "ObjectKey k" "ChunkIndex k" buf])
    case lead
    then show ?thesis using led by (simp add: shared_key_def fetch_key_def)
  next
    case (joined d c)
    then show ?thesis using cop by (simp add: shared_key_def)
  next
    case cancelled
    then show ?thesis by (simp add: shared_key_def)
  qed
  show "length (fst ?r) = length buf"
    and "snd ?r = Inr n \<Longrightarrow> n \<le> length buf"
    and "length buf = ChunkSize \<Longrightarrow> snd ?r = Inr n \<Longrightarrow> shared_served getObject b ws k (take n (fst ?r))"
    using all by blast+
qed

subsection \<open>Any number of callers\<close>

text \<open>
  \<open>fdone\<close> is the closed channel. The three ghost fields of the state record for which key a flight
  was created, by which caller, and with what result it was published. A caller moves through the
  positions of \<open>pc\<close>; \<open>Returned k r joined\<close> is its return value.
\<close>

record flight =
  fdone :: bool
  fdata :: bytes
  ferr :: "backend_error option"
  fwaiters :: nat

datatype pc =
    Idle
  | AtLoop ChunkKey
  | Waiting ChunkKey nat
  | Leading ChunkKey nat
  | Fetched ChunkKey nat "backend_error + bytes"
  | Published ChunkKey nat "backend_error + bytes"
  | Returned ChunkKey "backend_error + bytes" bool

record flights =
  inflight :: "ChunkKey \<Rightarrow> nat option"
  fl :: "nat \<Rightarrow> flight"
  nextFlight :: nat
  callers :: "nat \<Rightarrow> pc"
  fkey :: "nat \<Rightarrow> ChunkKey"
  fleader :: "nat \<Rightarrow> nat"
  foutcome :: "nat \<Rightarrow> (backend_error + bytes) option"

definition new_flight :: flight where
  "new_flight = \<lparr>fdone = False, fdata = [], ferr = None, fwaiters = 0\<rparr>"

definition no_flights :: flights where
  "no_flights =
     \<lparr>inflight = (\<lambda>_. None), fl = (\<lambda>_. new_flight), nextFlight = 0, callers = (\<lambda>_. Idle),
      fkey = (\<lambda>_. \<lparr>ObjectKey = '''', ChunkIndex = 0\<rparr>), fleader = (\<lambda>_. 0), foutcome = (\<lambda>_. None)\<rparr>"

definition set_caller :: "flights \<Rightarrow> nat \<Rightarrow> pc \<Rightarrow> flights" where
  "set_caller s c q = s\<lparr>callers := (callers s)(c := q)\<rparr>"

definition set_flight :: "flights \<Rightarrow> nat \<Rightarrow> flight \<Rightarrow> flights" where
  "set_flight s f x = s\<lparr>fl := (fl s)(f := x)\<rparr>"

text \<open>The critical section after the loop turn that found no flight.\<close>

definition lead_flight :: "flights \<Rightarrow> nat \<Rightarrow> ChunkKey \<Rightarrow> flights" where
  "lead_flight s c k =
     (let f = nextFlight s
      in (set_caller (set_flight s f new_flight) c (Leading k f))
           \<lparr>inflight := (inflight s)(k \<mapsto> f), nextFlight := Suc f,
            fkey := (fkey s)(f := k), fleader := (fleader s)(f := c), foutcome := (foutcome s)(f := None)\<rparr>)"

text \<open>The critical section of a turn that found flight \<open>f\<close>.\<close>

definition join_flight :: "flights \<Rightarrow> nat \<Rightarrow> ChunkKey \<Rightarrow> nat \<Rightarrow> flights" where
  "join_flight s c k f =
     set_caller (set_flight s f ((fl s f)\<lparr>fwaiters := fwaiters (fl s f) + 1\<rparr>)) c (Waiting k f)"

text \<open>The critical section after the fetch: unpublish, and store the data only if someone waits.\<close>

definition publish_flight :: "flight \<Rightarrow> backend_error + bytes \<Rightarrow> flight" where
  "publish_flight x r =
     (let x1 = (case r of Inr d \<Rightarrow> if fwaiters x > 0 then x\<lparr>fdata := d\<rparr> else x | Inl e \<Rightarrow> x)
      in x1\<lparr>ferr := (case r of Inl e \<Rightarrow> Some e | Inr d \<Rightarrow> None)\<rparr>)"

definition publish :: "flights \<Rightarrow> nat \<Rightarrow> ChunkKey \<Rightarrow> nat \<Rightarrow> backend_error + bytes \<Rightarrow> flights" where
  "publish s c k f r =
     (set_caller (set_flight s f (publish_flight (fl s f) r)) c (Published k f r))
       \<lparr>inflight := (inflight s)(k := None), foutcome := (foutcome s)(f \<mapsto> r)\<rparr>"

text \<open>\<^verbatim>\<open>close(f.done)\<close> and the return of the leader.\<close>

definition close_flight :: "flights \<Rightarrow> nat \<Rightarrow> ChunkKey \<Rightarrow> nat \<Rightarrow> backend_error + bytes \<Rightarrow> flights" where
  "close_flight s c k f r = set_caller (set_flight s f ((fl s f)\<lparr>fdone := True\<rparr>)) c (Returned k r False)"

inductive sf_step :: "(ChunkKey \<Rightarrow> bytes \<Rightarrow> bool) \<Rightarrow> flights \<Rightarrow> flights \<Rightarrow> bool" for P where
  sf_call: "callers s c = Idle \<Longrightarrow> sf_step P s (set_caller s c (AtLoop k))"
| sf_lead: "callers s c = AtLoop k \<Longrightarrow> inflight s k = None \<Longrightarrow> sf_step P s (lead_flight s c k)"
| sf_join: "callers s c = AtLoop k \<Longrightarrow> inflight s k = Some f \<Longrightarrow> sf_step P s (join_flight s c k f)"
| sf_fetch: "callers s c = Leading k f \<Longrightarrow> (case r of Inr d \<Rightarrow> P k d \<and> length d \<le> ChunkSize | Inl e \<Rightarrow> True) \<Longrightarrow>
    sf_step P s (set_caller s c (Fetched k f r))"
| sf_publish: "callers s c = Fetched k f r \<Longrightarrow> sf_step P s (publish s c k f r)"
| sf_close: "callers s c = Published k f r \<Longrightarrow>
    sf_step P s (close_flight s c k f r)"
| sf_wake: "callers s c = Waiting k f \<Longrightarrow> fdone (fl s f) \<Longrightarrow> ferr (fl s f) = None \<Longrightarrow>
    sf_step P s (set_caller s c (Returned k (Inr (take ChunkSize (fdata (fl s f)))) True))"
| sf_retry: "callers s c = Waiting k f \<Longrightarrow> fdone (fl s f) \<Longrightarrow> ferr (fl s f) \<noteq> None \<Longrightarrow>
    sf_step P s (set_caller s c (AtLoop k))"
| sf_cancel: "callers s c = Waiting k f \<Longrightarrow> sf_step P s (set_caller s c (Returned k (Inl CtxDone) True))"

inductive sf_reach :: "(ChunkKey \<Rightarrow> bytes \<Rightarrow> bool) \<Rightarrow> flights \<Rightarrow> bool" for P where
  sf_start: "sf_reach P no_flights"
| sf_more: "sf_reach P s \<Longrightarrow> sf_step P s s' \<Longrightarrow> sf_reach P s'"

lemma flights_after [simp]:
  "inflight (set_caller s c q) = inflight s"
  "fl (set_caller s c q) = fl s"
  "nextFlight (set_caller s c q) = nextFlight s"
  "callers (set_caller s c q) = (callers s)(c := q)"
  "fkey (set_caller s c q) = fkey s"
  "fleader (set_caller s c q) = fleader s"
  "foutcome (set_caller s c q) = foutcome s"
  "inflight (set_flight s f x) = inflight s"
  "fl (set_flight s f x) = (fl s)(f := x)"
  "nextFlight (set_flight s f x) = nextFlight s"
  "callers (set_flight s f x) = callers s"
  "fkey (set_flight s f x) = fkey s"
  "fleader (set_flight s f x) = fleader s"
  "foutcome (set_flight s f x) = foutcome s"
  "inflight (lead_flight s c k) = (inflight s)(k \<mapsto> nextFlight s)"
  "fl (lead_flight s c k) = (fl s)(nextFlight s := new_flight)"
  "nextFlight (lead_flight s c k) = Suc (nextFlight s)"
  "callers (lead_flight s c k) = (callers s)(c := Leading k (nextFlight s))"
  "fkey (lead_flight s c k) = (fkey s)(nextFlight s := k)"
  "fleader (lead_flight s c k) = (fleader s)(nextFlight s := c)"
  "foutcome (lead_flight s c k) = (foutcome s)(nextFlight s := None)"
  "inflight (join_flight s c k f) = inflight s"
  "fl (join_flight s c k f) = (fl s)(f := (fl s f)\<lparr>fwaiters := fwaiters (fl s f) + 1\<rparr>)"
  "nextFlight (join_flight s c k f) = nextFlight s"
  "callers (join_flight s c k f) = (callers s)(c := Waiting k f)"
  "fkey (join_flight s c k f) = fkey s"
  "fleader (join_flight s c k f) = fleader s"
  "foutcome (join_flight s c k f) = foutcome s"
  "inflight (publish s c k f r) = (inflight s)(k := None)"
  "fl (publish s c k f r) = (fl s)(f := publish_flight (fl s f) r)"
  "nextFlight (publish s c k f r) = nextFlight s"
  "callers (publish s c k f r) = (callers s)(c := Published k f r)"
  "fkey (publish s c k f r) = fkey s"
  "fleader (publish s c k f r) = fleader s"
  "foutcome (publish s c k f r) = (foutcome s)(f \<mapsto> r)"
  by (simp_all add: set_caller_def set_flight_def lead_flight_def join_flight_def publish_def Let_def)

subsection \<open>The invariant\<close>

text \<open>What a caller's position says of its flight.\<close>

fun pc_ok :: "flights \<Rightarrow> nat \<Rightarrow> pc \<Rightarrow> bool" where
  "pc_ok s c (Leading k f) \<longleftrightarrow> f < nextFlight s \<and> fleader s f = c \<and> fkey s f = k \<and> \<not> fdone (fl s f) \<and> foutcome s f = None"
| "pc_ok s c (Fetched k f r) \<longleftrightarrow> f < nextFlight s \<and> fleader s f = c \<and> fkey s f = k \<and> \<not> fdone (fl s f) \<and> foutcome s f = None"
| "pc_ok s c (Published k f r) \<longleftrightarrow> f < nextFlight s \<and> fleader s f = c \<and> fkey s f = k \<and> \<not> fdone (fl s f) \<and> foutcome s f = Some r"
| "pc_ok s c (Waiting k f) \<longleftrightarrow> f < nextFlight s \<and> fkey s f = k \<and> fwaiters (fl s f) > 0 \<and> fleader s f \<noteq> c"
| "pc_ok s c (Returned k (Inr d) True) \<longleftrightarrow> (\<exists>f < nextFlight s. fkey s f = k \<and> foutcome s f = Some (Inr d) \<and> fdone (fl s f) \<and> fleader s f \<noteq> c)"
| "pc_ok s c _ \<longleftrightarrow> True"

fun at_work :: "ChunkKey \<Rightarrow> nat \<Rightarrow> pc \<Rightarrow> bool" where
  "at_work k f (Leading k' f') \<longleftrightarrow> k' = k \<and> f' = f"
| "at_work k f (Fetched k' f' r) \<longleftrightarrow> k' = k \<and> f' = f"
| "at_work k f _ \<longleftrightarrow> False"

text \<open>What holds of a flight that has been created.\<close>

definition flight_ok :: "(ChunkKey \<Rightarrow> bytes \<Rightarrow> bool) \<Rightarrow> flights \<Rightarrow> nat \<Rightarrow> bool" where
  "flight_ok P s f \<longleftrightarrow>
     (case foutcome s f of
        None \<Rightarrow> inflight s (fkey s f) = Some f \<and> at_work (fkey s f) f (callers s (fleader s f)) \<and> \<not> fdone (fl s f)
      | Some r \<Rightarrow>
          callers s (fleader s f) = (if fdone (fl s f) then Returned (fkey s f) r False else Published (fkey s f) f r) \<and>
          (case r of
             Inl e \<Rightarrow> ferr (fl s f) = Some e
           | Inr d \<Rightarrow> ferr (fl s f) = None \<and> P (fkey s f) d \<and> length d \<le> ChunkSize \<and>
               (fwaiters (fl s f) > 0 \<longrightarrow> fdata (fl s f) = d)))"

definition sf_inv :: "(ChunkKey \<Rightarrow> bytes \<Rightarrow> bool) \<Rightarrow> flights \<Rightarrow> bool" where
  "sf_inv P s \<longleftrightarrow>
     (\<forall>c. pc_ok s c (callers s c)) \<and>
     (\<forall>k f. inflight s k = Some f \<longrightarrow> f < nextFlight s \<and> fkey s f = k \<and> foutcome s f = None) \<and>
     (\<forall>f < nextFlight s. flight_ok P s f) \<and>
     (\<forall>c k f d. callers s c = Fetched k f (Inr d) \<longrightarrow> P k d \<and> length d \<le> ChunkSize)"

lemma pc_ok_frame:
  assumes "pc_ok s c q" and "nextFlight s \<le> nextFlight s'"
    and "\<And>f. f < nextFlight s \<Longrightarrow> fkey s' f = fkey s f \<and> fleader s' f = fleader s f \<and> fwaiters (fl s f) \<le> fwaiters (fl s' f)"
    and "\<And>f r. f < nextFlight s \<Longrightarrow> foutcome s f = Some r \<Longrightarrow> foutcome s' f = Some r"
    and "\<And>f. f < nextFlight s \<Longrightarrow> fdone (fl s f) \<Longrightarrow> fdone (fl s' f)"
    and "\<And>f. f < nextFlight s \<Longrightarrow> fleader s f = c \<Longrightarrow> fdone (fl s' f) = fdone (fl s f) \<and> foutcome s' f = foutcome s f"
  shows "pc_ok s' c q"
proof (cases "(s, c, q)" rule: pc_ok.cases)
  case (5 s c k d)
  with assms show ?thesis by auto (metis order_less_le_trans)
qed (use assms in \<open>auto intro: order_less_le_trans order_less_le_trans [of 0]\<close>)

lemma sf_invD:
  assumes "sf_inv P s"
  shows "pc_ok s c (callers s c)"
    and "inflight s k = Some f \<Longrightarrow> f < nextFlight s \<and> fkey s f = k \<and> foutcome s f = None"
    and "f < nextFlight s \<Longrightarrow> flight_ok P s f"
    and "callers s c = Fetched k f (Inr d) \<Longrightarrow> P k d \<and> length d \<le> ChunkSize"
  using assms unfolding sf_inv_def by blast+

lemma sf_invI:
  assumes "\<And>c. pc_ok s c (callers s c)"
    and "\<And>k f. inflight s k = Some f \<Longrightarrow> f < nextFlight s \<and> fkey s f = k \<and> foutcome s f = None"
    and "\<And>f. f < nextFlight s \<Longrightarrow> flight_ok P s f"
    and "\<And>c k f d. callers s c = Fetched k f (Inr d) \<Longrightarrow> P k d \<and> length d \<le> ChunkSize"
  shows "sf_inv P s"
  using assms unfolding sf_inv_def by blast

lemma sf_init: "sf_inv P no_flights"
  by (rule sf_invI) (simp_all add: no_flights_def)

text \<open>Steps that change one caller only, which neither leads before nor after.\<close>

lemma sf_inv_caller:
  assumes inv: "sf_inv P s" and "pc_ok s c q"
    and "\<And>k f. \<not> at_work k f (callers s c)" and "\<And>k f r. callers s c \<noteq> Published k f r"
    and "\<And>k f r. q \<noteq> Fetched k f r" and "\<And>k r j. callers s c \<noteq> Returned k r j"
  shows "sf_inv P (set_caller s c q)"
proof (rule sf_invI)
  fix c'
  have "pc_ok s c' (callers (set_caller s c q) c')"
    using assms(2) sf_invD(1) [OF inv] by simp
  then show "pc_ok (set_caller s c q) c' (callers (set_caller s c q) c')"
    by (rule pc_ok_frame) simp_all
next
  fix f
  assume "f < nextFlight (set_caller s c q)"
  then have ok: "flight_ok P s f"
    using sf_invD(3) [OF inv] by simp
  then have "foutcome s f = None \<Longrightarrow> fleader s f \<noteq> c"
    using assms(3) by (auto simp: flight_ok_def)
  moreover have "foutcome s f = Some r \<Longrightarrow> fleader s f \<noteq> c" for r
    using ok assms(4) assms(6) [of "fkey s f" r False] by (cases "fdone (fl s f)") (auto simp: flight_ok_def)
  ultimately show "flight_ok P (set_caller s c q) f"
    using ok by (auto simp: flight_ok_def split: option.splits sum.splits)
next
  fix c' k f d
  assume "callers (set_caller s c q) c' = Fetched k f (Inr d)"
  then show "P k d \<and> length d \<le> ChunkSize"
    using assms(5) sf_invD(4) [OF inv] by (auto split: if_splits)
qed (use sf_invD(2) [OF inv] in \<open>simp add: set_caller_def\<close>)

lemma sf_inv_lead:
  assumes inv: "sf_inv P s" and at: "callers s c = AtLoop k" and none: "inflight s k = None"
  shows "sf_inv P (lead_flight s c k)"
proof (rule sf_invI)
  fix c'
  show "pc_ok (lead_flight s c k) c' (callers (lead_flight s c k) c')"
  proof (cases "c' = c")
    case False
    have "pc_ok s c' (callers s c')" by (rule sf_invD(1) [OF inv])
    then have "pc_ok (lead_flight s c k) c' (callers s c')"
      by (rule pc_ok_frame) simp_all
    with False show ?thesis by simp
  qed (simp add: new_flight_def)
next
  fix f
  assume "f < nextFlight (lead_flight s c k)"
  then consider "f = nextFlight s" | "f < nextFlight s"
    by (auto simp: less_Suc_eq)
  then show "flight_ok P (lead_flight s c k) f"
  proof cases
    case 2
    then have ok: "flight_ok P s f" by (rule sf_invD(3) [OF inv])
    have "fleader s f \<noteq> c"
      using ok at by (auto simp: flight_ok_def split: option.splits sum.splits if_splits)
    moreover have "foutcome s f = None \<Longrightarrow> fkey s f \<noteq> k \<and> fleader s f \<noteq> c"
      using ok none at by (auto simp: flight_ok_def)
    ultimately show ?thesis
      using ok 2 by (auto simp: flight_ok_def split: option.splits sum.splits)
  qed (simp add: flight_ok_def new_flight_def)
next
  fix k' f
  show "inflight (lead_flight s c k) k' = Some f \<Longrightarrow>
      f < nextFlight (lead_flight s c k) \<and> fkey (lead_flight s c k) f = k' \<and> foutcome (lead_flight s c k) f = None"
    using sf_invD(2) [OF inv, of k' f] by (auto split: if_splits)
next
  fix c' k' f d
  show "callers (lead_flight s c k) c' = Fetched k' f (Inr d) \<Longrightarrow> P k' d \<and> length d \<le> ChunkSize"
    using sf_invD(4) [OF inv] by (auto split: if_splits)
qed

lemma sf_inv_join:
  assumes inv: "sf_inv P s" and at: "callers s c = AtLoop k" and some: "inflight s k = Some f"
  shows "sf_inv P (join_flight s c k f)"
proof (rule sf_invI)
  have f: "f < nextFlight s" "fkey s f = k" "foutcome s f = None"
    using sf_invD(2) [OF inv some] by auto
  then have ok: "flight_ok P s f" by (blast intro: sf_invD(3) [OF inv])
  fix c'
  show "pc_ok (join_flight s c k f) c' (callers (join_flight s c k f) c')"
  proof (cases "c' = c")
    case True
    then show ?thesis
      using f ok at by (auto simp: flight_ok_def)
  next
    case False
    have "pc_ok s c' (callers s c')" by (rule sf_invD(1) [OF inv])
    then have "pc_ok (join_flight s c k f) c' (callers s c')"
      by (rule pc_ok_frame) auto
    with False show ?thesis by simp
  qed
next
  fix g
  assume "g < nextFlight (join_flight s c k f)"
  then have ok: "flight_ok P s g"
    using sf_invD(3) [OF inv] by simp
  have "fleader s g \<noteq> c"
    using ok at by (auto simp: flight_ok_def split: option.splits sum.splits if_splits)
  moreover have "foutcome s g \<noteq> None \<Longrightarrow> g \<noteq> f"
    using sf_invD(2) [OF inv some] by auto
  ultimately show "flight_ok P (join_flight s c k f) g"
    using ok at by (auto simp: flight_ok_def split: option.splits sum.splits)
next
  fix k' g
  show "inflight (join_flight s c k f) k' = Some g \<Longrightarrow> g < nextFlight (join_flight s c k f) \<and>
      fkey (join_flight s c k f) g = k' \<and> foutcome (join_flight s c k f) g = None"
    using sf_invD(2) [OF inv, of k' g] by simp
next
  fix c' k' g d
  show "callers (join_flight s c k f) c' = Fetched k' g (Inr d) \<Longrightarrow> P k' d \<and> length d \<le> ChunkSize"
    using sf_invD(4) [OF inv] by (auto split: if_splits)
qed

lemma sf_inv_fetch:
  assumes inv: "sf_inv P s" and at: "callers s c = Leading k f"
    and r: "case r of Inr d \<Rightarrow> P k d \<and> length d \<le> ChunkSize | Inl e \<Rightarrow> True"
  shows "sf_inv P (set_caller s c (Fetched k f r))"
proof (rule sf_invI)
  have mine: "pc_ok s c (Leading k f)" using sf_invD(1) [OF inv, of c] at by simp
  fix c'
  have "pc_ok s c' (callers (set_caller s c (Fetched k f r)) c')"
    using mine sf_invD(1) [OF inv, of c'] by simp
  then show "pc_ok (set_caller s c (Fetched k f r)) c' (callers (set_caller s c (Fetched k f r)) c')"
    by (rule pc_ok_frame) simp_all
next
  fix g
  assume "g < nextFlight (set_caller s c (Fetched k f r))"
  then have "flight_ok P s g" using sf_invD(3) [OF inv] by simp
  then show "flight_ok P (set_caller s c (Fetched k f r)) g"
    using at by (auto simp: flight_ok_def split: option.splits sum.splits if_splits)
next
  fix c' k' g d
  show "callers (set_caller s c (Fetched k f r)) c' = Fetched k' g (Inr d) \<Longrightarrow> P k' d \<and> length d \<le> ChunkSize"
    using sf_invD(4) [OF inv] r by (auto split: if_splits)
qed (use sf_invD(2) [OF inv] in simp)

lemma sf_inv_publish:
  assumes inv: "sf_inv P s" and at: "callers s c = Fetched k f r"
  shows "sf_inv P (publish s c k f r)"
proof (rule sf_invI)
  have mine: "pc_ok s c (Fetched k f r)" using sf_invD(1) [OF inv, of c] at by simp
  {
    fix c'
    have old: "pc_ok s c' (callers s c')" by (rule sf_invD(1) [OF inv])
    show "pc_ok (publish s c k f r) c' (callers (publish s c k f r) c')"
    proof (cases "c' = c")
      case True
      with mine show ?thesis by (simp add: publish_flight_def Let_def split: sum.split)
    next
      case False
      from old have "pc_ok (publish s c k f r) c' (callers s c')"
        by (rule pc_ok_frame) (use mine False in \<open>auto simp: publish_flight_def Let_def split: sum.split\<close>)
      with False show ?thesis by simp
    qed
  }
  fix g
  assume g: "g < nextFlight (publish s c k f r)"
  then have ok: "flight_ok P s g" using sf_invD(3) [OF inv] by simp
  show "flight_ok P (publish s c k f r) g"
  proof (cases "g = f")
    case True
    with mine sf_invD(4) [OF inv, of c k f] at show ?thesis
      by (auto simp: flight_ok_def publish_flight_def Let_def split: sum.split)
  next
    case False
    then have "foutcome s g = None \<Longrightarrow> fkey s g \<noteq> k \<and> fleader s g \<noteq> c"
      using ok mine at sf_invD(3) [OF inv, of f] by (auto simp: flight_ok_def)
    moreover have "foutcome s g \<noteq> None \<Longrightarrow> fleader s g \<noteq> c"
      using ok at by (auto simp: flight_ok_def split: if_splits)
    ultimately show ?thesis
      using ok False by (auto simp: flight_ok_def split: option.splits sum.splits)
  qed
next
  fix k' g
  have "pc_ok s c (Fetched k f r)" using sf_invD(1) [OF inv, of c] at by simp
  then show "inflight (publish s c k f r) k' = Some g \<Longrightarrow> g < nextFlight (publish s c k f r) \<and>
      fkey (publish s c k f r) g = k' \<and> foutcome (publish s c k f r) g = None"
    using sf_invD(2) [OF inv, of k' g] by (auto split: if_splits)
next
  fix c' k' g d
  show "callers (publish s c k f r) c' = Fetched k' g (Inr d) \<Longrightarrow> P k' d \<and> length d \<le> ChunkSize"
    using sf_invD(4) [OF inv] by (auto split: if_splits)
qed

lemma sf_inv_close:
  assumes inv: "sf_inv P s" and at: "callers s c = Published k f r"
  shows "sf_inv P (close_flight s c k f r)"
proof (rule sf_invI)
  have mine: "pc_ok s c (Published k f r)" using sf_invD(1) [OF inv, of c] at by simp
  {
    fix c'
    have old: "pc_ok s c' (callers s c')" by (rule sf_invD(1) [OF inv])
    show "pc_ok (close_flight s c k f r) c' (callers (close_flight s c k f r) c')"
    proof (cases "c' = c")
      case True
      then show ?thesis by (cases r) (simp_all add: close_flight_def)
    next
      case False
      from old have "pc_ok (close_flight s c k f r) c' (callers s c')"
        by (rule pc_ok_frame) (use mine False in \<open>auto simp: close_flight_def\<close>)
      with False show ?thesis by (simp add: close_flight_def)
    qed
  }
  fix g
  assume g: "g < nextFlight (close_flight s c k f r)"
  then have "flight_ok P s g" using sf_invD(3) [OF inv] by (simp add: close_flight_def)
  then show "flight_ok P (close_flight s c k f r) g"
    using mine at by (auto simp: flight_ok_def close_flight_def split: option.splits sum.splits if_splits)
next
  fix k' g
  show "inflight (close_flight s c k f r) k' = Some g \<Longrightarrow> g < nextFlight (close_flight s c k f r) \<and>
      fkey (close_flight s c k f r) g = k' \<and> foutcome (close_flight s c k f r) g = None"
    using sf_invD(2) [OF inv, of k' g] by (auto simp: close_flight_def)
next
  fix c' k' g d
  show "callers (close_flight s c k f r) c' = Fetched k' g (Inr d) \<Longrightarrow> P k' d \<and> length d \<le> ChunkSize"
    using sf_invD(4) [OF inv] by (auto simp: close_flight_def split: if_splits)
qed

text \<open>A waiter of a closed flight without error sees the data of the leader's fetch.\<close>

lemma waiter_data:
  assumes inv: "sf_inv P s" and at: "callers s c = Waiting k f"
    and fin: "fdone (fl s f)" "ferr (fl s f) = None"
  obtains d where "foutcome s f = Some (Inr d)" "fdata (fl s f) = d" "length d \<le> ChunkSize"
    "fkey s f = k" "f < nextFlight s" "fleader s f \<noteq> c"
proof -
  have mine: "pc_ok s c (Waiting k f)" using sf_invD(1) [OF inv, of c] at by simp
  then have "flight_ok P s f" by (auto intro: sf_invD(3) [OF inv])
  with mine fin that show thesis
    by (auto simp: flight_ok_def split: option.splits sum.splits)
qed

lemma sf_step_inv:
  assumes "sf_step P s s'" and inv: "sf_inv P s"
  shows "sf_inv P s'"
  using assms(1)
proof cases
  case (sf_call c k)
  then show ?thesis using inv by (auto intro!: sf_inv_caller)
next
  case (sf_lead c k)
  then show ?thesis using inv by (auto intro: sf_inv_lead)
next
  case (sf_join c k f)
  then show ?thesis using inv by (auto intro: sf_inv_join)
next
  case (sf_fetch c k f r)
  then show ?thesis using sf_inv_fetch [OF inv] by simp
next
  case (sf_publish c k f r)
  then show ?thesis using inv by (auto intro: sf_inv_publish)
next
  case (sf_close c k f r)
  then show ?thesis using sf_inv_close [OF inv] by (simp add: close_flight_def)
next
  case (sf_wake c k f)
  obtain d where d: "foutcome s f = Some (Inr d)" "fdata (fl s f) = d" "length d \<le> ChunkSize"
    "fkey s f = k" "f < nextFlight s" "fleader s f \<noteq> c"
    by (rule waiter_data [OF inv sf_wake(2-4)])
  then have "pc_ok s c (Returned k (Inr (take ChunkSize (fdata (fl s f)))) True)"
    using sf_wake(3) by auto
  then show ?thesis
    unfolding sf_wake(1) using sf_wake(2) by (intro sf_inv_caller [OF inv]) simp_all
next
  case (sf_retry c k f)
  then show ?thesis using inv by (auto intro!: sf_inv_caller)
next
  case (sf_cancel c k f)
  then show ?thesis using inv by (auto intro!: sf_inv_caller)
qed

lemma sf_reach_inv: "sf_reach P s \<Longrightarrow> sf_inv P s"
  by (induction rule: sf_reach.induct) (auto intro: sf_init sf_step_inv)

subsection \<open>A run with two callers\<close>

lemma two_callers_waiting:
  "\<exists>s. sf_reach P s \<and> callers s 0 = Leading k 0 \<and> callers s 1 = Waiting k 0 \<and>
     fdone (fl s 0) = False \<and> fwaiters (fl s 0) = 1"
proof -
  let ?s1 = "set_caller no_flights 0 (AtLoop k)"
  let ?s2 = "lead_flight ?s1 0 k"
  let ?s3 = "set_caller ?s2 1 (AtLoop k)"
  let ?s4 = "join_flight ?s3 1 k 0"
  have r1: "sf_reach P ?s1"
    by (rule sf_more [OF sf_start sf_call]) (simp add: no_flights_def)
  have r2: "sf_reach P ?s2"
    by (rule sf_more [OF r1 sf_lead]) (simp_all add: no_flights_def)
  have r3: "sf_reach P ?s3"
    by (rule sf_more [OF r2 sf_call]) (simp add: no_flights_def)
  have r4: "sf_reach P ?s4"
    by (rule sf_more [OF r3 sf_join]) (simp_all add: no_flights_def)
  then show ?thesis
    by (intro exI [of _ ?s4]) (simp add: no_flights_def new_flight_def)
qed

lemma two_callers_served:
  assumes "P k d" and "length d \<le> ChunkSize"
  shows "\<exists>s. sf_reach P s \<and> callers s 0 = Returned k (Inr d) False \<and> callers s 1 = Returned k (Inr d) True"
proof -
  obtain s where s: "sf_reach P s" "callers s 0 = Leading k 0" "callers s 1 = Waiting k 0"
    "fdone (fl s 0) = False" "fwaiters (fl s 0) = 1"
    using two_callers_waiting by blast
  let ?s1 = "set_caller s 0 (Fetched k 0 (Inr d))"
  let ?s2 = "publish ?s1 0 k 0 (Inr d)"
  let ?s3 = "close_flight ?s2 0 k 0 (Inr d)"
  have r1: "sf_reach P ?s1"
    by (rule sf_more [OF s(1) sf_fetch]) (use s assms in simp_all)
  have r2: "sf_reach P ?s2"
    by (rule sf_more [OF r1 sf_publish]) simp
  have r3: "sf_reach P ?s3"
    by (rule sf_more [OF r2 sf_close]) simp
  have "sf_reach P (set_caller ?s3 1 (Returned k (Inr (take ChunkSize (fdata (fl ?s3 0)))) True))"
    by (rule sf_more [OF r3 sf_wake]) (use s in \<open>simp_all add: close_flight_def publish_flight_def\<close>)
  moreover have "fdata (fl ?s3 0) = d"
    using s by (simp add: close_flight_def publish_flight_def)
  ultimately show ?thesis
    using assms(2) by (intro exI) (auto simp: close_flight_def)
qed

subsection \<open>Properties\<close>

text \<open>
  C11: Single flight: at any moment of any interleaving at most one caller is fetching a given chunk
  (between creating the flight and unpublishing it), so concurrent requests and prefetches of one
  chunk never issue duplicate GETs to the store.
\<close>

theorem one_fetch_per_chunk:
  assumes "sf_reach P s" and "at_work k f (callers s c)" and "at_work k g (callers s c')"
  shows "c = c' \<and> f = g"
proof -
  have inv: "sf_inv P s" by (rule sf_reach_inv [OF assms(1)])
  have own: "inflight s k = Some h \<and> fleader s h = d" if "at_work k h (callers s d)" for h d
  proof -
    have "h < nextFlight s \<and> fleader s h = d \<and> fkey s h = k \<and> foutcome s h = None"
      using sf_invD(1) [OF inv, of d] that by (cases "callers s d") auto
    then show ?thesis
      using sf_invD(3) [OF inv, of h] by (auto simp: flight_ok_def)
  qed
  show ?thesis
    using own [OF assms(2)] own [OF assms(3)] by simp
qed

theorem one_fetch_per_chunk_witness:
  "\<exists>s. sf_reach (\<lambda>k d. True) s \<and> at_work \<lparr>ObjectKey = ''a'', ChunkIndex = 0\<rparr> 0 (callers s 0) \<and>
     \<not> at_work \<lparr>ObjectKey = ''a'', ChunkIndex = 0\<rparr> 0 (callers s 1)"
proof -
  obtain s where s: "sf_reach (\<lambda>k d. True) s" "callers s 0 = Leading \<lparr>ObjectKey = ''a'', ChunkIndex = 0\<rparr> 0"
    using two_callers_waiting by blast
  then show ?thesis
    using one_fetch_per_chunk [OF s(1), of "\<lparr>ObjectKey = ''a'', ChunkIndex = 0\<rparr>" 0 0 0 1] by auto
qed

text \<open>
  C10: A caller that joined another's fetch and reports success returns exactly the bytes some other
  caller fetched for the same chunk as leader of a flight that succeeded, and that leader has
  returned them too. In particular the data is stored whenever somebody waits: the copy the leader
  skips when it sees no waiter is never read.
\<close>

theorem joined_gets_leaders_bytes:
  assumes "sf_reach P s" and "callers s c = Returned k (Inr d) True"
  shows "P k d \<and> length d \<le> ChunkSize \<and> (\<exists>c'. c' \<noteq> c \<and> callers s c' = Returned k (Inr d) False)"
proof -
  have inv: "sf_inv P s" by (rule sf_reach_inv [OF assms(1)])
  obtain f where f: "f < nextFlight s" "fkey s f = k" "foutcome s f = Some (Inr d)" "fdone (fl s f)" "fleader s f \<noteq> c"
    using sf_invD(1) [OF inv, of c] assms(2) by auto
  then show ?thesis
    using sf_invD(3) [OF inv f(1)] by (auto simp: flight_ok_def)
qed

theorem joined_gets_leaders_bytes_witness:
  "\<exists>s :: flights. callers s 1 = Returned \<lparr>ObjectKey = ''a'', ChunkIndex = 0\<rparr> (Inr [9]) True \<and>
     (\<exists>c'. c' \<noteq> 1 \<and> callers s c' = Returned \<lparr>ObjectKey = ''a'', ChunkIndex = 0\<rparr> (Inr [9]) False)"
proof -
  obtain s where s: "sf_reach (\<lambda>k d. d = [9]) s" "callers s 1 = Returned \<lparr>ObjectKey = ''a'', ChunkIndex = 0\<rparr> (Inr [9]) True"
    using two_callers_served [of "\<lambda>k d. d = [9]" _ "[9]"] by (auto simp: ChunkSize_val)
  then show ?thesis
    using s(2) joined_gets_leaders_bytes [OF s] by (intro exI [of _ s]) simp
qed

text \<open>
  C12: No waiter is stranded: as long as a flight somebody waits for is not closed, its leader is
  another caller that is still fetching, about to unpublish or about to close it, and can take its
  step; and once the flight is closed the waiter itself can go on. So the protocol cannot deadlock.
\<close>

theorem waiter_never_stranded:
  assumes "sf_reach P s" and "callers s c = Waiting k f"
  shows "if fdone (fl s f)
    then \<exists>q. q \<noteq> Waiting k f \<and> q \<noteq> Returned k (Inl CtxDone) True \<and> sf_step P s (set_caller s c q)
    else \<exists>c'. c' \<noteq> c \<and> (at_work k f (callers s c') \<or> (\<exists>r. callers s c' = Published k f r)) \<and>
      (\<exists>s'. sf_step P s s' \<and> callers s' c' \<noteq> callers s c')"
proof (cases "fdone (fl s f)")
  case True
  show ?thesis
  proof (cases "ferr (fl s f)")
    case None
    with True sf_wake [OF assms(2)] show ?thesis
      by (auto intro!: exI [of _ "Returned k (Inr (take ChunkSize (fdata (fl s f)))) True"])
  next
    case (Some e)
    with True sf_retry [OF assms(2)] show ?thesis
      by (auto intro!: exI [of _ "AtLoop k"])
  qed
next
  case False
  have inv: "sf_inv P s" by (rule sf_reach_inv [OF assms(1)])
  have "pc_ok s c (Waiting k f)" using sf_invD(1) [OF inv, of c] assms(2) by simp
  then have f: "f < nextFlight s" "fkey s f = k" "fleader s f \<noteq> c" by auto
  let ?l = "fleader s f"
  have "at_work k f (callers s ?l) \<or> (\<exists>r. callers s ?l = Published k f r)"
    using sf_invD(3) [OF inv f(1)] f(2) False by (auto simp: flight_ok_def split: option.splits)
  moreover from this consider "callers s ?l = Leading k f" | r where "callers s ?l = Fetched k f r"
    | r where "callers s ?l = Published k f r"
    by (cases "callers s ?l") auto
  then have "\<exists>s'. sf_step P s s' \<and> callers s' ?l \<noteq> callers s ?l"
  proof cases
    case 1
    with sf_fetch [OF 1, where r = "Inl CtxDone"] show ?thesis
      by (auto intro!: exI [of _ "set_caller s ?l (Fetched k f (Inl CtxDone))"])
  next
    case 2
    with sf_publish [OF 2] show ?thesis by force
  next
    case 3
    with sf_close [OF 3] show ?thesis by (force simp: close_flight_def)
  qed
  ultimately show ?thesis
    using False f(3) by auto
qed

theorem waiter_never_stranded_witness:
  "\<exists>(s :: flights) c'. callers s 1 = Waiting \<lparr>ObjectKey = ''a'', ChunkIndex = 0\<rparr> 0 \<and> c' \<noteq> 1 \<and>
     (at_work \<lparr>ObjectKey = ''a'', ChunkIndex = 0\<rparr> 0 (callers s c') \<or>
      (\<exists>r. callers s c' = Published \<lparr>ObjectKey = ''a'', ChunkIndex = 0\<rparr> 0 r))"
proof -
  obtain s where s: "sf_reach (\<lambda>k d. True) s" "callers s 1 = Waiting \<lparr>ObjectKey = ''a'', ChunkIndex = 0\<rparr> 0"
    "fdone (fl s 0) = False"
    using two_callers_waiting [of "\<lambda>k d. True" "\<lparr>ObjectKey = ''a'', ChunkIndex = 0\<rparr>"] by auto
  then show ?thesis
    using s(2) waiter_never_stranded [OF s(1,2)] unfolding s(3) if_False by blast
qed

end
