(* ===== verification/Metrics.thy ===== *)
theory Metrics
  imports Complex_Main Go_Strings
begin

section \<open>The metrics registry\<close>

text \<open>
  \<^verbatim>\<open>Registry\<close> of \<^verbatim>\<open>internal/metrics/prometheus.go\<close>. The collectors belong to the Prometheus client;
  what is kept of a collector is the calls the program made on it: how often a counter was
  incremented, the sum of increments and decrements of the gauge, the values added to
  \<^verbatim>\<open>BytesServed\<close>, the (tier, seconds) pairs observed. \<open>metric_descs\<close> is what \<^verbatim>\<open>NewRegistry\<close>
  registers. \<^verbatim>\<open>Gather\<close> is a parameter of \<open>Snapshot\<close>, whose own work is naming the samples.
\<close>

record Registry =
  CacheHitTotal :: nat
  CacheMissTotal :: nat
  ColdCacheHitTotal :: nat
  PrefetchQueued :: nat
  PrefetchDropped :: nat
  PrefetchHits :: nat
  PrefetchErrors :: nat
  PrefetchQueueLength :: int
  RequestsTotal :: "string \<times> string \<Rightarrow> nat"
  BytesServed :: "int list"
  RequestLatency :: "(string \<times> rat) list"

definition new_registry :: Registry where
  "new_registry =
     \<lparr>CacheHitTotal = 0, CacheMissTotal = 0, ColdCacheHitTotal = 0, PrefetchQueued = 0, PrefetchDropped = 0,
      PrefetchHits = 0, PrefetchErrors = 0, PrefetchQueueLength = 0, RequestsTotal = (\<lambda>_. 0), BytesServed = [],
      RequestLatency = []\<rparr>"

subsection \<open>What \<^verbatim>\<open>NewRegistry\<close> registers\<close>

datatype metric_type = COUNTER | GAUGE | SUMMARY | UNTYPED | HISTOGRAM

record metric_desc =
  desc_name :: string
  desc_type :: metric_type
  desc_labels :: "string list"

definition metric_descs :: "metric_desc list" where
  "metric_descs =
     [\<lparr>desc_name = ''proxy_cache_hot_hits_total'', desc_type = COUNTER, desc_labels = []\<rparr>,
      \<lparr>desc_name = ''proxy_cache_hot_misses_total'', desc_type = COUNTER, desc_labels = []\<rparr>,
      \<lparr>desc_name = ''proxy_cache_cold_hits_total'', desc_type = COUNTER, desc_labels = []\<rparr>,
      \<lparr>desc_name = ''proxy_prefetch_enqueued_total'', desc_type = COUNTER, desc_labels = []\<rparr>,
      \<lparr>desc_name = ''proxy_prefetch_dropped_total'', desc_type = COUNTER, desc_labels = []\<rparr>,
      \<lparr>desc_name = ''proxy_prefetch_completed_total'', desc_type = COUNTER, desc_labels = []\<rparr>,
      \<lparr>desc_name = ''proxy_prefetch_errors_total'', desc_type = COUNTER, desc_labels = []\<rparr>,
      \<lparr>desc_name = ''proxy_prefetch_queue_length'', desc_type = GAUGE, desc_labels = []\<rparr>,
      \<lparr>desc_name = ''proxy_requests_total'', desc_type = COUNTER, desc_labels = [''status'', ''cache_tier'']\<rparr>,
      \<lparr>desc_name = ''proxy_bytes_served_total'', desc_type = COUNTER, desc_labels = []\<rparr>,
      \<lparr>desc_name = ''proxy_request_duration_seconds'', desc_type = HISTOGRAM, desc_labels = [''cache_tier'']\<rparr>]"

text \<open>\<^verbatim>\<open>MustRegister\<close> panics on a name that is registered already.\<close>

fun must_register :: "string list \<Rightarrow> metric_desc list \<Rightarrow> string option" where
  "must_register taken [] = None"
| "must_register taken (m # ms) =
     (if desc_name m \<in> set taken then Some (desc_name m) else must_register (desc_name m # taken) ms)"

definition NewRegistry :: "string + Registry" where
  "NewRegistry = (case must_register [] metric_descs of Some dup \<Rightarrow> Inl dup | None \<Rightarrow> Inr new_registry)"

lemma NewRegistry_ok: "NewRegistry = Inr new_registry"
  by (simp add: NewRegistry_def metric_descs_def)

subsection \<open>\<^verbatim>\<open>Snapshot\<close>\<close>

text \<open>A gathered sample; the getters of an absent part return zero.\<close>

record dto_metric =
  label_values :: "string list"
  counter_value :: "rat option"
  gauge_value :: "rat option"
  histogram :: "(nat \<times> rat) option"

record dto_family =
  fam_name :: string
  fam_type :: metric_type
  fam_metrics :: "dto_metric list"

fun join_parts :: "string \<Rightarrow> string list \<Rightarrow> string" where
  "join_parts parts [] = parts"
| "join_parts parts (v # vs) = join_parts ((if parts \<noteq> '''' then parts @ '','' else parts) @ v) vs"

definition sample_key :: "string \<Rightarrow> dto_metric \<Rightarrow> string" where
  "sample_key name m =
     (if length (label_values m) > 0 then name @ ''{'' @ join_parts '''' (label_values m) @ ''}'' else name)"

definition the0 :: "rat option \<Rightarrow> rat" where
  "the0 v = (case v of None \<Rightarrow> 0 | Some x \<Rightarrow> x)"

definition snapshot_metric ::
  "(rat \<Rightarrow> rat) \<Rightarrow> dto_family \<Rightarrow> (string \<Rightarrow> rat option) \<Rightarrow> dto_metric \<Rightarrow> (string \<Rightarrow> rat option)" where
  "snapshot_metric rnd mf result m =
     (let key = sample_key (fam_name mf) m
      in case fam_type mf of
           COUNTER \<Rightarrow> result(key \<mapsto> the0 (counter_value m))
         | GAUGE \<Rightarrow> result(key \<mapsto> the0 (gauge_value m))
         | HISTOGRAM \<Rightarrow>
             (let (n, s) = (case histogram m of None \<Rightarrow> (0, 0) | Some h \<Rightarrow> h)
              in result(key @ ''#count'' \<mapsto> rnd (of_nat n), key @ ''#sum'' \<mapsto> s))
         | _ \<Rightarrow> result)"

definition snapshot_family :: "(rat \<Rightarrow> rat) \<Rightarrow> (string \<Rightarrow> rat option) \<Rightarrow> dto_family \<Rightarrow> (string \<Rightarrow> rat option)" where
  "snapshot_family rnd result mf = foldl (snapshot_metric rnd mf) result (fam_metrics mf)"

text \<open>A failed \<^verbatim>\<open>Gather\<close> gives the nil map (\<open>None\<close>), in which every key reads as zero.\<close>

definition Snapshot :: "(rat \<Rightarrow> rat) \<Rightarrow> string + dto_family list \<Rightarrow> (string \<Rightarrow> rat option) option" where
  "Snapshot rnd gathered =
     (case gathered of Inl err \<Rightarrow> None | Inr mfs \<Rightarrow> Some (foldl (snapshot_family rnd) (\<lambda>_. None) mfs))"

definition snap_value :: "(string \<Rightarrow> rat option) option \<Rightarrow> string \<Rightarrow> rat" where
  "snap_value m key = (case m of None \<Rightarrow> 0 | Some f \<Rightarrow> the0 (f key))"

subsection \<open>Sample names\<close>

text \<open>
  The families \<^verbatim>\<open>Gather\<close> returns for this registry's plain counters: one sample without labels each.
\<close>

definition plain_counter :: "string \<Rightarrow> nat \<Rightarrow> dto_family" where
  "plain_counter name n =
     \<lparr>fam_name = name, fam_type = COUNTER,
      fam_metrics = [\<lparr>label_values = [], counter_value = Some (of_nat n), gauge_value = None, histogram = None\<rparr>]\<rparr>"

lemma snapshot_plain_counter: "snapshot_family rnd m (plain_counter name n) = m(name \<mapsto> of_nat n)"
  by (simp add: snapshot_family_def plain_counter_def snapshot_metric_def sample_key_def the0_def)

text \<open>What one family can write: keys that are its name, perhaps followed by a brace or a hash sign.\<close>

lemma snapshot_metric_other:
  assumes "\<not> prefix (fam_name mf) key"
  shows "snapshot_metric rnd mf m x key = m key"
proof -
  have "key \<noteq> sample_key (fam_name mf) x @ s" for s
    using assms by (auto simp: sample_key_def)
  from this [of "[]"] this [of "''#count''"] this [of "''#sum''"] show ?thesis
    by (auto simp: snapshot_metric_def Let_def split: metric_type.split prod.split)
qed

lemma snapshot_family_other: "\<not> prefix (fam_name mf) key \<Longrightarrow> snapshot_family rnd m mf key = m key"
proof -
  assume a: "\<not> prefix (fam_name mf) key"
  have "foldl (snapshot_metric rnd mf) m xs key = m key" for xs
    by (induction xs arbitrary: m) (simp_all add: snapshot_metric_other [OF a])
  then show ?thesis
    by (simp add: snapshot_family_def)
qed

lemma snapshot_families_other:
  "(\<And>mf. mf \<in> set mfs \<Longrightarrow> \<not> prefix (fam_name mf) key) \<Longrightarrow> foldl (snapshot_family rnd) m mfs key = m key"
  by (induction mfs arbitrary: m) (simp_all add: snapshot_family_other)

lemma snapshot_counter_value:
  assumes "mfs = xs @ plain_counter name n # ys" and "\<And>mf. mf \<in> set ys \<Longrightarrow> \<not> prefix (fam_name mf) name"
  shows "snap_value (Snapshot rnd (Inr mfs)) name = of_nat n"
  using assms by (simp add: Snapshot_def snap_value_def snapshot_plain_counter snapshot_families_other the0_def)

end
