(* ===== verification/Prefetch.thy ===== *)
theory Prefetch
  imports Hot_Cache Single_Flight Metrics
begin

section \<open>The prefetcher\<close>

text \<open>
  \<^verbatim>\<open>Prefetcher\<close> of \<^verbatim>\<open>internal/engine/prefetch.go\<close>: a bounded channel of jobs, \<open>Schedule\<close> that fills it
  without blocking, workers that take jobs and put the fetched chunk into the hot cache. The channel
  is a queue with a capacity, a closed flag, and the workers parked on its receive (a send to a
  channel with a parked receiver hands the value over, whatever the capacity). Workers are counted
  by where they are: at the top of the loop, parked on the receive, holding a received job the gauge
  still counts (\<open>busy\<close>), inside \<open>fetchAndCache\<close>, or gone. The buffer
  \<^verbatim>\<open>pool.Get\<close> hands out is an argument (\<open>Buffer_Pool\<close> shows it has \<open>ChunkSize\<close> bytes and one
  holder), and so is the fetcher of the backend interface.
\<close>

record PrefetchConfig =
  Workers :: int
  QueueDepthCfg :: int
  LookAhead :: int

type_synonym prefetchJob = "string \<times> u64"

record Prefetcher =
  pcfg :: PrefetchConfig
  jobs :: "prefetchJob list"
  jobsClosed :: bool
  ctxDone :: bool
  ready :: nat
  parked :: nat
  busy :: "prefetchJob list"
  fetching :: "prefetchJob list"
  exited :: nat

text \<open>\<^verbatim>\<open>make(chan prefetchJob, cfg.QueueDepth)\<close> panics on a negative size.\<close>

definition NewPrefetcher :: "PrefetchConfig \<Rightarrow> go_panic + Prefetcher" where
  "NewPrefetcher c =
     (if QueueDepthCfg c < 0 then Inl MakeChanSize
      else Inr \<lparr>pcfg = c, jobs = [], jobsClosed = False, ctxDone = False, ready = 0, parked = 0, busy = [],
        fetching = [], exited = 0\<rparr>)"

text \<open>\<^verbatim>\<open>Start\<close>: the workers are launched.\<close>

definition Start :: "Prefetcher \<Rightarrow> Prefetcher" where
  "Start p = p\<lparr>ready := nat (Workers (pcfg p))\<rparr>"

definition queue_cap :: "Prefetcher \<Rightarrow> nat" where
  "queue_cap p = nat (QueueDepthCfg (pcfg p))"

definition QueueDepth :: "Prefetcher \<Rightarrow> int" where
  "QueueDepth p = int (length (jobs p))"

text \<open>\<^verbatim>\<open>Stop\<close> up to its wait for the workers; closing a closed channel panics.\<close>

definition Stop :: "Prefetcher \<Rightarrow> go_panic + Prefetcher" where
  "Stop p =
     (let p1 = p\<lparr>ctxDone := True\<rparr>
      in if jobsClosed p1 then Inl CloseOfClosedChannel else Inr (p1\<lparr>jobsClosed := True\<rparr>))"

subsection \<open>\<^verbatim>\<open>Schedule\<close>\<close>

text \<open>The \<^verbatim>\<open>select\<close> with a send and a default: the flag says which case it took.\<close>

definition send_job :: "prefetchJob \<Rightarrow> Prefetcher \<Rightarrow> go_panic + Prefetcher \<times> bool" where
  "send_job job p =
     (if jobsClosed p then Inl SendOnClosedChannel
      else if parked p > 0
      then Inr (p\<lparr>parked := parked p - 1, busy := busy p @ [job]\<rparr>, True)
      else if length (jobs p) < queue_cap p
      then Inr (p\<lparr>jobs := jobs p @ [job]\<rparr>, True)
      else Inr (p, False))"

definition inc_queued :: "Registry \<Rightarrow> Registry" where
  "inc_queued reg = reg\<lparr>PrefetchQueued := PrefetchQueued reg + 1\<rparr>"

definition inc_length :: "Registry \<Rightarrow> Registry" where
  "inc_length reg = reg\<lparr>PrefetchQueueLength := PrefetchQueueLength reg + 1\<rparr>"

definition inc_dropped :: "Registry \<Rightarrow> Registry" where
  "inc_dropped reg = reg\<lparr>PrefetchDropped := PrefetchDropped reg + 1\<rparr>"

text \<open>
  The caller holds no lock, so the other goroutines (the workers, other calls of \<open>Schedule\<close>, everything that counts)
  may run before each of its atomic actions: before the select of iteration \<open>i\<close>, and before each counter. What they do
  there to the pool and the counters is the argument \<open>others\<close>.
\<close>

datatype sched_pc = AtSend | AtQueued | AtLength | AtDropped | Panicked

type_synonym sched_others = "nat \<times> sched_pc \<Rightarrow> Prefetcher \<times> Registry \<Rightarrow> Prefetcher \<times> Registry"

fun schedule_from ::
  "sched_others \<Rightarrow> nat \<Rightarrow> nat \<Rightarrow> string \<Rightarrow> u64 \<Rightarrow> Prefetcher \<times> Registry \<Rightarrow> go_panic + Prefetcher \<times> Registry" where
  "schedule_from others i 0 objectKey startChunk s = Inr s"
| "schedule_from others i (Suc n) objectKey startChunk s =
     (let (p, reg) = others (i, AtSend) s
      in case send_job (objectKey, startChunk + of_nat i) p of
           Inl e \<Rightarrow> Inl e
         | Inr (p1, sent) \<Rightarrow>
             if sent
             then let (p2, reg2) = others (i, AtQueued) (p1, reg);
                      (p3, reg3) = others (i, AtLength) (p2, inc_queued reg2)
                  in schedule_from others (Suc i) n objectKey startChunk (p3, inc_length reg3)
             else let (p2, reg2) = others (i, AtDropped) (p1, reg)
                  in schedule_from others (Suc i) n objectKey startChunk (p2, inc_dropped reg2))"

definition Schedule ::
  "sched_others \<Rightarrow> string \<Rightarrow> u64 \<Rightarrow> Prefetcher \<times> Registry \<Rightarrow> go_panic + Prefetcher \<times> Registry" where
  "Schedule others objectKey startChunk s =
     schedule_from others 0 (nat (LookAhead (pcfg (fst s)))) objectKey startChunk s"

text \<open>
  The same call as a goroutine: where it is, and its next atomic action. \<open>schedule_is_goroutine\<close> shows that the function
  above is this goroutine run to its end among the others.
\<close>

record sched =
  sc_key :: string
  sc_start :: u64
  sc_i :: nat
  sc_pc :: sched_pc

definition sched_step :: "sched \<Rightarrow> Prefetcher \<times> Registry \<Rightarrow> sched \<times> Prefetcher \<times> Registry" where
  "sched_step t s =
     (case s of (p, reg) \<Rightarrow>
        (case sc_pc t of
           AtSend \<Rightarrow>
             (case send_job (sc_key t, sc_start t + of_nat (sc_i t)) p of
                Inl e \<Rightarrow> (t\<lparr>sc_pc := Panicked\<rparr>, p, reg)
              | Inr (p', sent) \<Rightarrow> (t\<lparr>sc_pc := (if sent then AtQueued else AtDropped)\<rparr>, p', reg))
         | AtQueued \<Rightarrow> (t\<lparr>sc_pc := AtLength\<rparr>, p, inc_queued reg)
         | AtLength \<Rightarrow> (t\<lparr>sc_pc := AtSend, sc_i := Suc (sc_i t)\<rparr>, p, inc_length reg)
         | AtDropped \<Rightarrow> (t\<lparr>sc_pc := AtSend, sc_i := Suc (sc_i t)\<rparr>, p, inc_dropped reg)
         | Panicked \<Rightarrow> (t, p, reg)))"

definition sched_live :: "nat \<Rightarrow> sched \<Rightarrow> bool" where
  "sched_live lookAhead t \<longleftrightarrow> sc_pc t \<noteq> Panicked \<and> (sc_pc t = AtSend \<longrightarrow> sc_i t < lookAhead)"

fun sched_run :: "sched_others \<Rightarrow> nat \<Rightarrow> nat \<Rightarrow> sched \<Rightarrow> Prefetcher \<times> Registry \<Rightarrow> sched \<times> Prefetcher \<times> Registry" where
  "sched_run others lookAhead 0 t s = (t, s)"
| "sched_run others lookAhead (Suc k) t s =
     (if sched_live lookAhead t
      then let (t', s') = sched_step t (others (sc_i t, sc_pc t) s) in sched_run others lookAhead k t' s'
      else (t, s))"

subsection \<open>\<^verbatim>\<open>fetchAndCache\<close>\<close>

definition fetchAndCache ::
  "(ChunkKey \<Rightarrow> bytes \<Rightarrow> bytes \<times> (backend_error + nat)) \<Rightarrow> bytes \<Rightarrow> prefetchJob \<Rightarrow> HotCache \<times> Registry \<Rightarrow>
     go_panic + (HotCache \<times> Registry) \<times> eviction list" where
  "fetchAndCache fetch buf job s =
     (case s of (hot, reg) \<Rightarrow>
        let key = \<lparr>ObjectKey = fst job, ChunkIndex = snd job\<rparr>; (hot1, found) = hot_get hot key
        in case found of
             Some data \<Rightarrow> Inr ((hot1, reg), [])
           | None \<Rightarrow>
               (case fetch key buf of
                  (buf', Inl err) \<Rightarrow> Inr ((hot1, reg\<lparr>PrefetchErrors := PrefetchErrors reg + 1\<rparr>), [])
                | (buf', Inr n) \<Rightarrow>
                    (case slice_checked buf' 0 (int n) of
                       Inl e \<Rightarrow> Inl e
                     | Inr owned \<Rightarrow>
                         let (hot2, evicted) = hot_put hot1 key owned
                         in Inr ((hot2, reg\<lparr>PrefetchHits := PrefetchHits reg + 1\<rparr>), evicted))))"

interpretation prefetch: fetch_through hot_lookup hot_put hot_inv "shared_key getObject b ws" "shared_served getObject b ws"
  for getObject b ws
  by (intro fetch_through.intro hot.cache_tier_axioms shared.chunk_fetcher_axioms)

subsection \<open>The steps of the pool\<close>

text \<open>
  One step of \<^verbatim>\<open>Stop\<close> or of a worker: it parks on the receive, takes a job, decrements the gauge for the job it has,
  finishes \<open>fetchAndCache\<close> (whose effect on the cache is that function), or leaves. A worker that has both the cancelled
  context and a job may do either.
\<close>

datatype pf_event =
    EvStop
  | EvPark
  | EvTake
  | EvDec nat
  | EvFinish nat
  | EvExitReady
  | EvExitParked

fun pf_event_step :: "pf_event \<Rightarrow> Prefetcher \<times> Registry \<Rightarrow> (go_panic + Prefetcher \<times> Registry) option" where
  "pf_event_step EvStop (p, reg) = Some (map_sum id (\<lambda>p'. (p', reg)) (Stop p))"
| "pf_event_step EvPark (p, reg) =
     (if ready p > 0 \<and> jobs p = [] \<and> \<not> jobsClosed p \<and> \<not> ctxDone p
      then Some (Inr (p\<lparr>ready := ready p - 1, parked := parked p + 1\<rparr>, reg)) else None)"
| "pf_event_step EvTake (p, reg) =
     (case jobs p of
        j # js \<Rightarrow> if ready p > 0 then Some (Inr (p\<lparr>ready := ready p - 1, jobs := js, busy := busy p @ [j]\<rparr>, reg)) else None
      | [] \<Rightarrow> None)"
| "pf_event_step (EvDec i) (p, reg) =
     (if i < length (busy p)
      then Some (Inr (p\<lparr>busy := take i (busy p) @ drop (Suc i) (busy p), fetching := busy p ! i # fetching p\<rparr>,
                      reg\<lparr>PrefetchQueueLength := PrefetchQueueLength reg - 1\<rparr>)) else None)"
| "pf_event_step (EvFinish i) (p, reg) =
     (if i < length (fetching p)
      then Some (Inr (p\<lparr>fetching := take i (fetching p) @ drop (Suc i) (fetching p), ready := ready p + 1\<rparr>, reg))
      else None)"
| "pf_event_step EvExitReady (p, reg) =
     (if ready p > 0 \<and> (ctxDone p \<or> (jobsClosed p \<and> jobs p = []))
      then Some (Inr (p\<lparr>ready := ready p - 1, exited := exited p + 1\<rparr>, reg)) else None)"
| "pf_event_step EvExitParked (p, reg) =
     (if parked p > 0 \<and> (ctxDone p \<or> jobsClosed p)
      then Some (Inr (p\<lparr>parked := parked p - 1, exited := exited p + 1\<rparr>, reg)) else None)"

text \<open>
  The pool with any number of goroutines in \<^verbatim>\<open>Schedule\<close>: a new call, one atomic action of one of them, or a step of a
  worker or of \<^verbatim>\<open>Stop\<close>. A send on the closed channel ends the goroutine that sends (\<^verbatim>\<open>net/http\<close> recovers the panic of a
  handler); a second \<^verbatim>\<open>Stop\<close> ends the process.
\<close>

datatype pool_event = PoolCall string u64 | PoolSched nat | PoolWork pf_event

type_synonym pool_state = "sched list \<times> Prefetcher \<times> Registry"

fun pool_step :: "pool_event \<Rightarrow> pool_state \<Rightarrow> (go_panic + pool_state) option" where
  "pool_step (PoolCall key i) (ts, s) =
     Some (Inr (ts @ [\<lparr>sc_key = key, sc_start = i, sc_i = 0, sc_pc = AtSend\<rparr>], s))"
| "pool_step (PoolSched j) (ts, s) =
     (if j < length ts \<and> sched_live (nat (LookAhead (pcfg (fst s)))) (ts ! j)
      then let (t, s') = sched_step (ts ! j) s in Some (Inr (ts[j := t], s'))
      else None)"
| "pool_step (PoolWork ev) (ts, s) = map_option (map_sum id (Pair ts)) (pf_event_step ev s)"

text \<open>A history; events that are not enabled do not happen, a panic ends it.\<close>

fun pool_run :: "pool_event list \<Rightarrow> pool_state \<Rightarrow> go_panic + pool_state" where
  "pool_run [] s = Inr s"
| "pool_run (e # es) s =
     (case pool_step e s of
        None \<Rightarrow> pool_run es s
      | Some (Inl x) \<Rightarrow> Inl x
      | Some (Inr s') \<Rightarrow> pool_run es s')"

subsection \<open>Accounting\<close>

text \<open>
  Of the goroutines in \<^verbatim>\<open>Schedule\<close>: those whose job is sent and not yet in the gauge, those whose job is not yet in
  its counter, and how many jobs each has offered.
\<close>

definition ungauged :: "sched \<Rightarrow> nat" where
  "ungauged t = (if sc_pc t = AtQueued \<or> sc_pc t = AtLength then 1 else 0)"

definition uncounted :: "sched \<Rightarrow> nat" where
  "uncounted t = (if sc_pc t = AtQueued \<or> sc_pc t = AtDropped then 1 else 0)"

definition offered :: "sched \<Rightarrow> nat" where
  "offered t = sc_i t + (if sc_pc t = AtSend \<or> sc_pc t = Panicked then 0 else 1)"

definition returned :: "nat \<Rightarrow> sched \<Rightarrow> bool" where
  "returned lookAhead t \<longleftrightarrow> sc_pc t = AtSend \<and> lookAhead \<le> sc_i t"

definition pf_inv :: "pool_state \<Rightarrow> bool" where
  "pf_inv s \<longleftrightarrow>
     (case s of (ts, p, reg) \<Rightarrow>
        length (jobs p) \<le> queue_cap p \<and> (parked p > 0 \<longrightarrow> jobs p = []) \<and>
        ready p + parked p + length (busy p) + length (fetching p) + exited p = nat (Workers (pcfg p)) \<and>
        PrefetchQueueLength reg + int (sum_list (map ungauged ts)) = int (length (jobs p) + length (busy p)) \<and>
        PrefetchQueued reg + PrefetchDropped reg + sum_list (map uncounted ts) = sum_list (map offered ts) \<and>
        (\<forall>t \<in> set ts. offered t \<le> nat (LookAhead (pcfg p))))"

lemmas sched_counts = ungauged_def uncounted_def offered_def

lemma send_job_cases:
  obtains "send_job job p = Inl SendOnClosedChannel"
    | "0 < parked p" "send_job job p = Inr (p\<lparr>parked := parked p - 1, busy := busy p @ [job]\<rparr>, True)"
    | "parked p = 0" "length (jobs p) < queue_cap p" "send_job job p = Inr (p\<lparr>jobs := jobs p @ [job]\<rparr>, True)"
    | "send_job job p = Inr (p, False)"
  by (cases "jobsClosed p"; cases "parked p > 0"; cases "length (jobs p) < queue_cap p") (auto simp: send_job_def)

lemma sched_step_inv:
  assumes inv: "pf_inv (ts, p, reg)" and j: "j < length ts" and live: "sched_live (nat (LookAhead (pcfg p))) (ts ! j)"
    and step: "sched_step (ts ! j) (p, reg) = (t', p', reg')"
  shows "pf_inv (ts[j := t'], p', reg') \<and> pcfg p' = pcfg p"
proof -
  define t where "t = ts ! j"
  let ?rest = "take j ts @ drop (Suc j) ts"
  note upd = sum_list_update_eq [OF j, of _ t'] sum_list_take_nth_drop [OF j]
  have old: "offered t \<le> nat (LookAhead (pcfg p))"
    using inv j by (simp add: pf_inv_def t_def)
  have st: "sched_step t (p, reg) = (t', p', reg')" "sched_live (nat (LookAhead (pcfg p))) t"
    using step live by (simp_all add: t_def)
  have others: "\<forall>u \<in> set (ts[j := t']). offered u \<le> nat (LookAhead (pcfg p))" if "offered t' \<le> nat (LookAhead (pcfg p))"
    using inv that set_update_subset_insert [of ts j t'] by (auto simp: pf_inv_def)
  have local: "pcfg p' = pcfg p \<and> offered t' \<le> nat (LookAhead (pcfg p)) \<and> length (jobs p') \<le> queue_cap p' \<and>
      (parked p' > 0 \<longrightarrow> jobs p' = []) \<and>
      ready p' + parked p' + length (busy p') + length (fetching p') + exited p' = nat (Workers (pcfg p')) \<and>
      PrefetchQueueLength reg' + int (ungauged t') + int (length (jobs p) + length (busy p)) =
        PrefetchQueueLength reg + int (ungauged t) + int (length (jobs p') + length (busy p')) \<and>
      PrefetchQueued reg' + PrefetchDropped reg' + uncounted t' + offered t =
        PrefetchQueued reg + PrefetchDropped reg + uncounted t + offered t'"
  proof (cases "sc_pc t")
    case AtSend
    show ?thesis
    proof (cases rule: send_job_cases [of "(sc_key t, sc_start t + of_nat (sc_i t))" p, case_names 1 2 3 4])
      case 1
      with st(1) AtSend have "t' = t\<lparr>sc_pc := Panicked\<rparr> \<and> p' = p \<and> reg' = reg"
        by (simp add: sched_step_def)
      with inv AtSend old show ?thesis
        by (simp add: pf_inv_def sched_counts)
    next
      case 2
      with st(1) AtSend have "t' = t\<lparr>sc_pc := AtQueued\<rparr> \<and> reg' = reg \<and>
          p' = p\<lparr>parked := parked p - 1, busy := busy p @ [(sc_key t, sc_start t + of_nat (sc_i t))]\<rparr>"
        by (simp add: sched_step_def)
      with inv AtSend st(2) 2 show ?thesis
        by (simp add: pf_inv_def sched_counts sched_live_def queue_cap_def)
    next
      case 3
      with st(1) AtSend have "t' = t\<lparr>sc_pc := AtQueued\<rparr> \<and> reg' = reg \<and>
          p' = p\<lparr>jobs := jobs p @ [(sc_key t, sc_start t + of_nat (sc_i t))]\<rparr>"
        by (simp add: sched_step_def)
      with inv AtSend st(2) 3 show ?thesis
        by (simp add: pf_inv_def sched_counts sched_live_def queue_cap_def)
    next
      case 4
      with st(1) AtSend have "t' = t\<lparr>sc_pc := AtDropped\<rparr> \<and> reg' = reg \<and> p' = p"
        by (simp add: sched_step_def)
      with inv AtSend st(2) show ?thesis
        by (simp add: pf_inv_def sched_counts sched_live_def)
    qed
  qed (use inv st old in \<open>auto simp: sched_step_def pf_inv_def sched_counts inc_queued_def inc_length_def inc_dropped_def\<close>)
  show ?thesis
    using inv local others unfolding pf_inv_def prod.case upd t_def [symmetric] by simp
qed

lemma worker_step_inv:
  assumes "pf_inv (ts, p, reg)" and "pf_event_step ev (p, reg) = Some (Inr (p', reg'))"
  shows "pf_inv (ts, p', reg') \<and> pcfg p' = pcfg p"
  using assms
  by (cases ev) (auto simp: pf_inv_def queue_cap_def Stop_def Let_def split: if_splits list.splits)

lemma sched_new:
  "ungauged \<lparr>sc_key = key, sc_start = i, sc_i = 0, sc_pc = AtSend\<rparr> = 0"
  "uncounted \<lparr>sc_key = key, sc_start = i, sc_i = 0, sc_pc = AtSend\<rparr> = 0"
  "offered \<lparr>sc_key = key, sc_start = i, sc_i = 0, sc_pc = AtSend\<rparr> = 0"
  by (simp_all add: ungauged_def uncounted_def offered_def)

lemma pool_step_inv:
  assumes "pool_step e s = Some (Inr s')" and "pf_inv s"
  shows "pf_inv s' \<and> pcfg (fst (snd s')) = pcfg (fst (snd s))"
proof (cases "(e, s)" rule: pool_step.cases)
  case (1 key i ts s2)
  with assms show ?thesis
    by (cases s2) (auto simp: pf_inv_def sched_new)
next
  case (2 j ts s2)
  then have es: "e = PoolSched j" "s = (ts, s2)" by simp_all
  obtain p reg where s2: "s2 = (p, reg)" by fastforce
  obtain t' p' reg' where st: "sched_step (ts ! j) (p, reg) = (t', p', reg')" by (metis prod_cases3)
  have en: "j < length ts" "sched_live (nat (LookAhead (pcfg p))) (ts ! j)" "s' = (ts[j := t'], p', reg')"
    using assms(1) by (simp_all add: es s2 st split: if_splits)
  from sched_step_inv [OF _ en(1,2) st] assms(2) show ?thesis
    by (simp add: es s2 en(3))
next
  case (3 ev ts s2)
  then have es: "e = PoolWork ev" "s = (ts, s2)" by simp_all
  obtain p reg where s2: "s2 = (p, reg)" by fastforce
  obtain p' reg' where st: "pf_event_step ev (p, reg) = Some (Inr (p', reg'))" "s' = (ts, p', reg')"
  proof -
    from assms(1) obtain x where x: "pf_event_step ev (p, reg) = Some x" "map_sum id (Pair ts) x = Inr s'"
      by (auto simp: es s2)
    then show thesis
      using that by (cases x) auto
  qed
  from worker_step_inv [OF _ st(1)] assms(2) show ?thesis
    by (simp add: es s2 st(2))
qed

lemma pool_run_inv:
  assumes "pool_run es s = Inr s'" and "pf_inv s"
  shows "pf_inv s' \<and> pcfg (fst (snd s')) = pcfg (fst (snd s))"
  using assms
proof (induction es s rule: pool_run.induct)
  case (2 e es s)
  show ?case
  proof (cases "pool_step e s")
    case (Some x)
    with "2.prems" obtain s1 where s1: "x = Inr s1" "pool_run es s1 = Inr s'"
      by (auto split: sum.splits)
    with Some pool_step_inv [of e s s1] "2.IH"(2) [OF Some s1] "2.prems"(2) show ?thesis by simp
  qed (use 2 in simp)
qed simp

lemma sum_list_returned:
  assumes "\<forall>t \<in> set ts. returned n t \<and> offered t \<le> n"
  shows "sum_list (map ungauged ts) = 0 \<and> sum_list (map uncounted ts) = 0 \<and> sum_list (map offered ts) = length ts * n"
proof -
  have each: "ungauged t = 0 \<and> uncounted t = 0 \<and> offered t = n" if "t \<in> set ts" for t
    using assms that by (auto simp: ungauged_def uncounted_def offered_def returned_def)
  show ?thesis
    using each by (induction ts) auto
qed

subsection \<open>What \<open>Schedule\<close> does\<close>

abbreviation alone :: sched_others where
  "alone \<equiv> \<lambda>_ s. s"

lemma schedule_from_spec:
  assumes "\<not> jobsClosed p" and "parked p = 0"
  shows "schedule_from alone i n key start (p, reg) =
    (let m = min n (queue_cap p - length (jobs p))
     in Inr (p\<lparr>jobs := jobs p @ map (\<lambda>j. (key, start + of_nat j)) [i ..< i + m]\<rparr>,
             reg\<lparr>PrefetchQueued := PrefetchQueued reg + m, PrefetchDropped := PrefetchDropped reg + (n - m),
                 PrefetchQueueLength := PrefetchQueueLength reg + int m\<rparr>))"
  using assms
proof (induction n arbitrary: i p reg)
  case 0
  then show ?case by simp
next
  case (Suc n)
  let ?room = "queue_cap p - length (jobs p)"
  show ?case
  proof (cases "length (jobs p) < queue_cap p")
    case True
    let ?p = "p\<lparr>jobs := jobs p @ [(key, start + of_nat i)]\<rparr>"
    let ?reg = "inc_length (inc_queued reg)"
    have q: "queue_cap ?p - length (jobs ?p) = ?room - 1" by (simp add: queue_cap_def)
    have m: "min (Suc n) ?room = Suc (min n (?room - 1))" using True by simp
    have u: "[i ..< Suc (i + x)] = i # [Suc i ..< Suc (i + x)]" for x
      by (rule upt_conv_Cons) simp
    have "schedule_from alone i (Suc n) key start (p, reg) = schedule_from alone (Suc i) n key start (?p, ?reg)"
      using Suc.prems True by (simp add: send_job_def)
    also have "\<dots> = (let m = min n (?room - 1)
     in Inr (?p\<lparr>jobs := jobs ?p @ map (\<lambda>j. (key, start + of_nat j)) [Suc i ..< Suc i + m]\<rparr>,
             ?reg\<lparr>PrefetchQueued := PrefetchQueued ?reg + m, PrefetchDropped := PrefetchDropped ?reg + (n - m),
                 PrefetchQueueLength := PrefetchQueueLength ?reg + int m\<rparr>))"
      using Suc.IH [of ?p "Suc i" ?reg] Suc.prems unfolding q by simp
    finally show ?thesis
      by (simp add: m u inc_queued_def inc_length_def Let_def del: upt_Suc)
  next
    case False
    then have "schedule_from alone i (Suc n) key start (p, reg) = schedule_from alone (Suc i) n key start (p, inc_dropped reg)"
      using Suc.prems by (simp add: send_job_def)
    with False Suc.IH [OF Suc.prems] show ?thesis
      by (simp add: inc_dropped_def)
  qed
qed

text \<open>Other goroutines that do not close the queue.\<close>

definition keeps_open :: "sched_others \<Rightarrow> bool" where
  "keeps_open others \<longleftrightarrow> (\<forall>q s. \<not> jobsClosed (fst s) \<longrightarrow> \<not> jobsClosed (fst (others q s)))"

lemma keeps_openD: "keeps_open others \<Longrightarrow> \<not> jobsClosed p \<Longrightarrow> others q (p, reg) = (p', reg') \<Longrightarrow> \<not> jobsClosed p'"
  unfolding keeps_open_def by (metis fst_conv)

lemma alone_keeps_open [simp]: "keeps_open alone"
  by (simp add: keeps_open_def)

lemma send_job_open:
  assumes "\<not> jobsClosed p"
  shows "\<exists>p' sent. send_job job p = Inr (p', sent) \<and> \<not> jobsClosed p'"
  using assms by (cases "parked p > 0 \<or> length (jobs p) < queue_cap p") (auto simp: send_job_def)

lemma schedule_from_closed:
  "jobsClosed (fst (others (i, AtSend) s)) \<Longrightarrow> 0 < n \<Longrightarrow> schedule_from others i n key start s = Inl SendOnClosedChannel"
  by (cases n) (simp_all add: send_job_def split_beta)

lemma schedule_from_open:
  assumes "keeps_open others"
  shows "\<not> jobsClosed (fst s) \<Longrightarrow> \<exists>s'. schedule_from others i n key start s = Inr s' \<and> \<not> jobsClosed (fst s')"
proof (induction n arbitrary: i s)
  case (Suc n)
  obtain p reg where o1: "others (i, AtSend) s = (p, reg)" by fastforce
  with Suc.prems assms have "\<not> jobsClosed p" by (metis keeps_openD prod.collapse)
  then obtain p1 sent where sj: "send_job (key, start + of_nat i) p = Inr (p1, sent)" "\<not> jobsClosed p1"
    using send_job_open by blast
  obtain p2 reg2 where o2: "others (i, AtQueued) (p1, reg) = (p2, reg2)" by fastforce
  obtain p3 reg3 where o3: "others (i, AtLength) (p2, inc_queued reg2) = (p3, reg3)" by fastforce
  obtain p4 reg4 where o4: "others (i, AtDropped) (p1, reg) = (p4, reg4)" by fastforce
  have "\<not> jobsClosed p3" "\<not> jobsClosed p4"
    using keeps_openD [OF assms] sj(2) o2 o3 o4 by blast+
  with Suc.IH [of "(p3, inc_length reg3)" "Suc i"] Suc.IH [of "(p4, inc_dropped reg4)" "Suc i"] show ?case
    using o1 sj(1) o2 o3 o4 by (cases sent) (simp_all add: Let_def)
qed simp

text \<open>The function is the goroutine, run to its end with the same others.\<close>

lemma schedule_is_goroutine:
  assumes "i + n = lookAhead"
  shows "\<exists>k t' s'. sched_run others lookAhead k \<lparr>sc_key = key, sc_start = start, sc_i = i, sc_pc = AtSend\<rparr> s = (t', s') \<and>
    (case schedule_from others i n key start s of
       Inl e \<Rightarrow> sc_pc t' = Panicked
     | Inr s'' \<Rightarrow> returned lookAhead t' \<and> s'' = s')"
  using assms
proof (induction n arbitrary: i s)
  case 0
  then show ?case
    by (intro exI [of _ 0]) (simp add: returned_def)
next
  case (Suc n)
  let ?t = "\<lambda>i pc. \<lparr>sc_key = key, sc_start = start, sc_i = i, sc_pc = pc\<rparr>"
  have i: "i < lookAhead" "Suc i + n = lookAhead" using Suc.prems by simp_all
  obtain p reg where o1: "others (i, AtSend) s = (p, reg)" by fastforce
  show ?case
  proof (cases "send_job (key, start + of_nat i) p")
    case (Inl e)
    then show ?thesis
      using i o1 by (intro exI [of _ 1]) (simp add: sched_live_def sched_step_def)
  next
    case (Inr x)
    obtain p1 sent where x: "x = (p1, sent)" by fastforce
    obtain p2 reg2 where o2: "others (i, AtQueued) (p1, reg) = (p2, reg2)" by fastforce
    obtain p3 reg3 where o3: "others (i, AtLength) (p2, inc_queued reg2) = (p3, reg3)" by fastforce
    obtain p4 reg4 where o4: "others (i, AtDropped) (p1, reg) = (p4, reg4)" by fastforce
    let ?s = "if sent then (p3, inc_length reg3) else (p4, inc_dropped reg4)"
    obtain k t' s' where ih: "sched_run others lookAhead k (?t (Suc i) AtSend) ?s = (t', s')"
      "case schedule_from others (Suc i) n key start ?s of Inl e \<Rightarrow> sc_pc t' = Panicked
       | Inr s'' \<Rightarrow> returned lookAhead t' \<and> s'' = s'"
      using Suc.IH [OF i(2), of ?s] by blast
    have "sched_run others lookAhead (Suc (Suc (if sent then Suc k else k))) (?t i AtSend) s = (t', s')"
      using i(1) o1 o2 o3 o4 Inr x ih(1) by (cases sent) (simp_all add: sched_live_def sched_step_def)
    moreover have "schedule_from others i (Suc n) key start s = schedule_from others (Suc i) n key start ?s"
      using o1 o2 o3 o4 Inr x by (cases sent) simp_all
    ultimately show ?thesis
      using ih(2) by metis
  qed
qed

subsection \<open>What \<open>fetchAndCache\<close> does\<close>

lemma fetchAndCache_cases [consumes 3, case_names hit failed filled]:
  assumes "hot_inv hot" and "length buf = ChunkSize" and k: "k = \<lparr>ObjectKey = fst job, ChunkIndex = snd job\<rparr>"
  obtains (hit) hot1 where "fetchAndCache (shared_key getObject b ws) buf job (hot, reg) = Inr ((hot1, reg), [])"
      "hot_inv hot1" "hot_lookup hot1 = hot_lookup hot" "hot_lookup hot k \<noteq> None"
    | (failed) hot1 e where "snd (shared_key getObject b ws k buf) = Inl e"
      "fetchAndCache (shared_key getObject b ws) buf job (hot, reg) =
        Inr ((hot1, reg\<lparr>PrefetchErrors := PrefetchErrors reg + 1\<rparr>), [])"
      "hot_inv hot1" "hot_lookup hot1 = hot_lookup hot" "hot_lookup hot k = None"
    | (filled) hot1 d where "shared_served getObject b ws k d" "length d \<le> ChunkSize"
      "fetchAndCache (shared_key getObject b ws) buf job (hot, reg) =
        Inr ((fst (hot_put hot1 k d), reg\<lparr>PrefetchHits := PrefetchHits reg + 1\<rparr>), snd (hot_put hot1 k d))"
      "hot_inv hot1" "hot_lookup hot1 = hot_lookup hot" "hot_lookup hot k = None"
proof -
  obtain hot1 where g: "hot_get hot k = (hot1, hot_lookup hot k)"
    using hot_get_result [OF assms(1), of k] by (metis prod.collapse)
  have h1: "hot_inv hot1" "hot_lookup hot1 = hot_lookup hot"
    using hot_get_inv [OF assms(1), of k] hot_get_lookup [OF assms(1), of k] g by (auto intro: ext)
  show thesis
  proof (cases "hot_lookup hot k")
    case (Some d)
    have "fetchAndCache (shared_key getObject b ws) buf job (hot, reg) = Inr ((hot1, reg), [])"
      using g Some by (simp add: fetchAndCache_def k [symmetric] Let_def)
    with h1 Some that(1) show thesis by blast
  next
    case None
    obtain buf' r where r: "shared_key getObject b ws k buf = (buf', r)" by fastforce
    show thesis
    proof (cases r)
      case (Inl e)
      then have "fetchAndCache (shared_key getObject b ws) buf job (hot, reg) =
          Inr ((hot1, reg\<lparr>PrefetchErrors := PrefetchErrors reg + 1\<rparr>), [])"
        using g None r by (simp add: fetchAndCache_def k [symmetric] Let_def)
      with h1 None r Inl that(2) show thesis by simp
    next
      case (Inr n)
      let ?d = "take n buf'"
      have "slice_checked buf' 0 (int n) = Inr ?d" "shared_served getObject b ws k ?d" "length ?d \<le> ChunkSize"
        using shared.fetch_copy [of getObject b ws k buf n] shared.fetch_served [OF assms(2), of getObject b ws k n]
          shared.fetch_owned_bounded [OF assms(2), of getObject b ws k n] r Inr by simp_all
      moreover from this have "fetchAndCache (shared_key getObject b ws) buf job (hot, reg) =
          Inr ((fst (hot_put hot1 k ?d), reg\<lparr>PrefetchHits := PrefetchHits reg + 1\<rparr>), snd (hot_put hot1 k ?d))"
        using g None r Inr by (simp add: fetchAndCache_def k [symmetric] Let_def split_beta)
      ultimately show thesis
        using h1 None that(3) by blast
    qed
  qed
qed

subsection \<open>Properties\<close>

text \<open>
  \<open>Schedule\<close> never blocks and never overfills: run alone, with all workers busy, it appends exactly the next
  \<open>min LookAhead (free slots)\<close> chunk indices (wrapping at \<open>2^64\<close>) in order, counts those as queued
  and the rest as dropped, and moves the gauge by what it queued.
\<close>

lemma schedule_fills_free_slots:
  assumes "\<not> jobsClosed p" and "parked p = 0" and "n = nat (LookAhead (pcfg p))"
    and "m = min n (queue_cap p - length (jobs p))"
  shows "Schedule alone key start (p, reg) =
    Inr (p\<lparr>jobs := jobs p @ map (\<lambda>j. (key, start + of_nat j)) [0 ..< m]\<rparr>,
         reg\<lparr>PrefetchQueued := PrefetchQueued reg + m, PrefetchDropped := PrefetchDropped reg + (n - m),
             PrefetchQueueLength := PrefetchQueueLength reg + int m\<rparr>)"
  using schedule_from_spec [OF assms(1,2), of 0 n key start reg] assms(3,4) by (simp add: Schedule_def Let_def)

definition demo_prefetcher :: Prefetcher where
  "demo_prefetcher =
     \<lparr>pcfg = \<lparr>Workers = 1, QueueDepthCfg = 2, LookAhead = 3\<rparr>, jobs = [], jobsClosed = False, ctxDone = False,
      ready = 0, parked = 0, busy = [], fetching = [], exited = 0\<rparr>"

text \<open>
  C24: In every history of a started pool (any number of \<open>Schedule\<close> calls whose sends and counter updates interleave
  with each other, with a stop, and with workers parking, taking, decrementing, processing and leaving) the queue never
  exceeds its depth; the queue-length gauge plus the calls that have sent a job and not yet counted it in the gauge is
  the number of queued jobs plus those a worker has received and not yet taken off the gauge; every worker is accounted
  for; the queued and dropped counters plus the calls about to count are the jobs offered so far, at most \<open>LookAhead\<close>
  for each call. Once every call has returned, the gauge is exactly the jobs queued or received and not taken off, and
  each of the \<open>LookAhead\<close> jobs of each call was counted exactly once, as queued or as dropped.
\<close>

theorem prefetch_accounting:
  assumes "NewPrefetcher c = Inr p0" and "pool_run es ([], Start p0, new_registry) = Inr (ts, p, reg)"
  shows "QueueDepth p \<le> QueueDepthCfg c \<and>
    PrefetchQueueLength reg + int (sum_list (map ungauged ts)) = QueueDepth p + int (length (busy p)) \<and>
    ready p + parked p + length (busy p) + length (fetching p) + exited p = nat (Workers c) \<and>
    PrefetchQueued reg + PrefetchDropped reg + sum_list (map uncounted ts) = sum_list (map offered ts) \<and>
    (\<forall>t \<in> set ts. offered t \<le> nat (LookAhead c)) \<and>
    ((\<forall>t \<in> set ts. returned (nat (LookAhead c)) t) \<longrightarrow>
       PrefetchQueueLength reg = QueueDepth p + int (length (busy p)) \<and>
       PrefetchQueued reg + PrefetchDropped reg = length ts * nat (LookAhead c))"
proof -
  have c: "pcfg (Start p0) = c" "0 \<le> QueueDepthCfg c"
    using assms(1) by (auto simp: NewPrefetcher_def Start_def split: if_splits)
  have "pf_inv ([], Start p0, new_registry)"
    using assms(1) by (auto simp: NewPrefetcher_def Start_def pf_inv_def new_registry_def split: if_splits)
  from pool_run_inv [OF assms(2) this] c have inv: "pf_inv (ts, p, reg)" and cfg: "pcfg p = c" by simp_all
  have "PrefetchQueueLength reg = QueueDepth p + int (length (busy p)) \<and>
      PrefetchQueued reg + PrefetchDropped reg = length ts * nat (LookAhead c)"
    if r: "\<forall>t \<in> set ts. returned (nat (LookAhead c)) t"
  proof -
    have "\<forall>t \<in> set ts. returned (nat (LookAhead c)) t \<and> offered t \<le> nat (LookAhead c)"
      using r inv cfg by (auto simp: pf_inv_def)
    from sum_list_returned [OF this] inv show ?thesis
      by (simp add: pf_inv_def QueueDepth_def del: sum_list_eq_0_iff)
  qed
  moreover have "QueueDepth p \<le> QueueDepthCfg c"
    using inv cfg c(2) by (auto simp: pf_inv_def queue_cap_def QueueDepth_def)
  ultimately show ?thesis
    using inv cfg unfolding pf_inv_def prod.case QueueDepth_def by simp
qed

text \<open>A worker that receives and decrements before the sender counts: the gauge is below zero.\<close>

definition early_worker :: "pool_event list" where
  "early_worker = [PoolWork EvPark, PoolCall ''v'' 7, PoolSched 0, PoolWork (EvDec 0)]"

lemma early_worker_run:
  "pool_run early_worker ([], Start (demo_prefetcher\<lparr>pcfg := \<lparr>Workers = 1, QueueDepthCfg = 2, LookAhead = 4\<rparr>\<rparr>), new_registry) =
    Inr ([\<lparr>sc_key = ''v'', sc_start = 7, sc_i = 0, sc_pc = AtQueued\<rparr>],
      demo_prefetcher\<lparr>pcfg := \<lparr>Workers = 1, QueueDepthCfg = 2, LookAhead = 4\<rparr>, fetching := [(''v'', 7)]\<rparr>,
      new_registry\<lparr>PrefetchQueueLength := -1\<rparr>)"
  by (simp add: early_worker_def demo_prefetcher_def Start_def sched_live_def sched_step_def send_job_def queue_cap_def
      new_registry_def)

theorem prefetch_accounting_witness:
  "\<exists>p0 ts p reg. NewPrefetcher \<lparr>Workers = 1, QueueDepthCfg = 2, LookAhead = 4\<rparr> = Inr p0 \<and>
     pool_run early_worker ([], Start p0, new_registry) = Inr (ts, p, reg) \<and>
     PrefetchQueueLength reg + int (sum_list (map ungauged ts)) = 0 \<and> PrefetchQueueLength reg = -1"
proof -
  let ?p0 = "demo_prefetcher\<lparr>pcfg := \<lparr>Workers = 1, QueueDepthCfg = 2, LookAhead = 4\<rparr>\<rparr>"
  have "NewPrefetcher \<lparr>Workers = 1, QueueDepthCfg = 2, LookAhead = 4\<rparr> = Inr ?p0"
    by (simp add: NewPrefetcher_def demo_prefetcher_def)
  from this prefetch_accounting [OF this early_worker_run] early_worker_run show ?thesis
    by (auto simp: QueueDepth_def demo_prefetcher_def new_registry_def)
qed

text \<open>
  After \<open>Stop\<close> any \<open>Schedule\<close> with a positive look-ahead panics (a send on the closed channel),
  before it every \<open>Schedule\<close> succeeds unless somebody stops the pool meanwhile; a request handler still running when the
  main function's deferred \<open>Stop\<close> has closed the queue is therefore aborted (\<^verbatim>\<open>net/http\<close> recovers the panic).
\<close>

lemma schedule_panics_iff_stopped:
  "(Stop p = Inr p' \<longrightarrow> 0 < LookAhead (pcfg p) \<longrightarrow> Schedule alone key start (p', reg) = Inl SendOnClosedChannel) \<and>
   (\<not> jobsClosed p \<longrightarrow> keeps_open others \<longrightarrow> (\<exists>s. Schedule others key start (p, reg) = Inr s))"
proof (intro conjI impI)
  assume "Stop p = Inr p'" "0 < LookAhead (pcfg p)"
  then show "Schedule alone key start (p', reg) = Inl SendOnClosedChannel"
    by (auto simp: Schedule_def Stop_def Let_def intro!: schedule_from_closed split: if_splits)
next
  assume "\<not> jobsClosed p" "keeps_open others"
  then show "\<exists>s. Schedule others key start (p, reg) = Inr s"
    using schedule_from_open [of others "(p, reg)" 0 "nat (LookAhead (pcfg p))" key start] by (auto simp: Schedule_def)
qed

text \<open>
  A prefetch job never panics, and leaves the hot cache coherent: if everything cached is data
  its chunk may have (\<open>P\<close>) and so is whatever a fetch of this chunk can deliver, then afterwards
  everything cached and everything evicted is; a cached chunk is not fetched again; a failed fetch is
  counted and caches nothing; otherwise the chunk is readable and the job counted as completed.
\<close>

lemma prefetch_job_coherent:
  assumes "hot_inv hot" and "holds_all (hot_lookup hot) P" and "length buf = ChunkSize"
    and "k = \<lparr>ObjectKey = fst job, ChunkIndex = snd job\<rparr>"
    and "\<And>d. shared_served getObject b ws k d \<Longrightarrow> P k d"
  shows "\<exists>hot' reg' evicted.
    fetchAndCache (shared_key getObject b ws) buf job (hot, reg) = Inr ((hot', reg'), evicted) \<and>
    hot_inv hot' \<and> holds_all (hot_lookup hot') P \<and> (\<forall>(k', d) \<in> set evicted. P k' d) \<and>
    (if hot_lookup hot k \<noteq> None then reg' = reg \<and> hot_lookup hot' = hot_lookup hot
     else if hot_lookup hot' k = None
     then reg' = reg\<lparr>PrefetchErrors := PrefetchErrors reg + 1\<rparr> \<and> hot_lookup hot' = hot_lookup hot
     else reg' = reg\<lparr>PrefetchHits := PrefetchHits reg + 1\<rparr>)"
  using assms(1,3,4)
proof (cases rule: fetchAndCache_cases [where getObject = getObject and b = b and ws = ws and reg = reg])
  case (hit hot1)
  then show ?thesis using assms(2) by auto
next
  case (failed hot1 e)
  then show ?thesis using assms(2) by auto
next
  case (filled hot1 d)
  have "holds_all (hot_lookup hot1) P" using filled assms(2) by simp
  then have "hot_inv (fst (hot_put hot1 k d))" "holds_all (hot_lookup (fst (hot_put hot1 k d))) P"
    "\<forall>(k', v') \<in> set (snd (hot_put hot1 k d)). P k' v'"
    using filled assms(5) hot.put_inv hot.put_coherent hot.put_evicts_coherent by blast+
  then show ?thesis
    using filled hot.put_same [of hot1 k d] by auto
qed

end
