(* ===== verification/Tracker.thy ===== *)
theory Tracker
  imports Prefetch
begin

section \<open>The velocity tracker\<close>

text \<open>
  \<^verbatim>\<open>VelocityTracker\<close> of \<^verbatim>\<open>internal/engine/predictor.go\<close>. A \<open>float64\<close> is a rational; every operation
  on one is the exact operation followed by the rounding \<open>rnd\<close>, a parameter (the values that occur
  are far from overflow, and nothing here divides by zero). A time is its number of nanoseconds; the
  moment \<^verbatim>\<open>time.Now()\<close> returns is the argument \<open>now\<close> of \<open>Record\<close>, and two calls may well take the
  lock in the opposite order of their moments.
\<close>

record TrackerConfig =
  StreakThreshold :: int
  VelocityThresholdChunksPerSec :: rat

record readState =
  lastChunkIndex :: u64
  lastReadAt :: int
  streakLen :: int
  velocityEWMA :: rat

record VelocityTracker =
  tcfg :: TrackerConfig
  states :: "string \<Rightarrow> readState option"

definition NewVelocityTracker :: "TrackerConfig \<Rightarrow> VelocityTracker" where
  "NewVelocityTracker c = \<lparr>tcfg = c, states = (\<lambda>_. None)\<rparr>"

subsection \<open>Durations\<close>

text \<open>\<^verbatim>\<open>t.Sub(u)\<close> saturates at the ends of \<open>int64\<close>.\<close>

definition time_sub :: "int \<Rightarrow> int \<Rightarrow> int" where
  "time_sub t u = max (- (2 ^ 63)) (min (2 ^ 63 - 1) (t - u))"

definition seconds :: "(rat \<Rightarrow> rat) \<Rightarrow> int \<Rightarrow> rat" where
  "seconds rnd d =
     (let sec = d sdiv Second; nsec = d smod Second
      in rnd (rnd (of_int sec) + rnd (rnd (of_int nsec) / 1000000000)))"

subsection \<open>\<^verbatim>\<open>Record\<close> and \<^verbatim>\<open>Evict\<close>\<close>

text \<open>The branch for a read of a new chunk of a known object.\<close>

definition advance :: "(rat \<Rightarrow> rat) \<Rightarrow> int \<Rightarrow> u64 \<Rightarrow> readState \<Rightarrow> readState" where
  "advance rnd now chunkIndex st =
     (let isSequential = (chunkIndex = lastChunkIndex st + 1);
          elapsed = seconds rnd (time_sub now (lastReadAt st));
          st1 =
            (if isSequential \<and> elapsed > 0
             then let instant = rnd (1 / elapsed)
                  in st\<lparr>velocityEWMA :=
                           (if velocityEWMA st = 0 then instant
                            else rnd (rnd (rnd (3 / 10) * instant) + rnd (rnd (7 / 10) * velocityEWMA st))),
                        streakLen := i64 (streakLen st + 1)\<rparr>
             else st\<lparr>streakLen := 1, velocityEWMA := rnd (velocityEWMA st * rnd (1 / 2))\<rparr>)
      in st1\<lparr>lastChunkIndex := chunkIndex, lastReadAt := now\<rparr>)"

text \<open>The part of \<^verbatim>\<open>Record\<close> under the lock; the result says whether to prefetch.\<close>

definition track :: "(rat \<Rightarrow> rat) \<Rightarrow> int \<Rightarrow> string \<Rightarrow> u64 \<Rightarrow> VelocityTracker \<Rightarrow> VelocityTracker \<times> bool" where
  "track rnd now objectKey chunkIndex t =
     (case states t objectKey of
        None \<Rightarrow>
          (t\<lparr>states := (states t)(objectKey \<mapsto>
               \<lparr>lastChunkIndex = chunkIndex, lastReadAt = now, streakLen = 1, velocityEWMA = 0\<rparr>)\<rparr>, False)
      | Some st \<Rightarrow>
          if chunkIndex = lastChunkIndex st then (t, False)
          else let st' = advance rnd now chunkIndex st
               in (t\<lparr>states := (states t)(objectKey \<mapsto> st')\<rparr>,
                   streakLen st' \<ge> StreakThreshold (tcfg t) \<and>
                   velocityEWMA st' \<ge> VelocityThresholdChunksPerSec (tcfg t)))"

text \<open>
  \<^verbatim>\<open>Schedule\<close> is called after the lock is released; \<open>others\<close> is what the other goroutines do to the pool between its
  actions.
\<close>

definition Record ::
  "(rat \<Rightarrow> rat) \<Rightarrow> sched_others \<Rightarrow> int \<Rightarrow> string \<Rightarrow> u64 \<Rightarrow> VelocityTracker \<times> Prefetcher \<times> Registry \<Rightarrow>
     go_panic + VelocityTracker \<times> Prefetcher \<times> Registry" where
  "Record rnd others now objectKey chunkIndex s =
     (case s of (t, p, reg) \<Rightarrow>
        let (t', shouldPrefetch) = track rnd now objectKey chunkIndex t
        in if shouldPrefetch
           then map_sum id (\<lambda>(p', reg'). (t', p', reg')) (Schedule others objectKey (chunkIndex + 1) (p, reg))
           else Inr (t', p, reg))"

definition Evict :: "string \<Rightarrow> VelocityTracker \<Rightarrow> VelocityTracker" where
  "Evict objectKey t = t\<lparr>states := (states t)(objectKey := None)\<rparr>"

subsection \<open>Histories of reads\<close>

text \<open>
  A history is the list of \<open>Record\<close> calls in the order they took the lock. The reads of one object
  that count are those of another chunk than the one that counted last; \<open>counted\<close> lists them, newest
  first.
\<close>

type_synonym read = "int \<times> u64"

fun track_all :: "(rat \<Rightarrow> rat) \<Rightarrow> (int \<times> string \<times> u64) list \<Rightarrow> VelocityTracker \<Rightarrow> VelocityTracker" where
  "track_all rnd [] t = t"
| "track_all rnd ((now, key, i) # rs) t = track_all rnd rs (fst (track rnd now key i t))"

definition count_read :: "read list \<Rightarrow> read \<Rightarrow> read list" where
  "count_read c r = (if c \<noteq> [] \<and> snd (hd c) = snd r then c else r # c)"

definition counted :: "string \<Rightarrow> (int \<times> string \<times> u64) list \<Rightarrow> read list" where
  "counted key rs = foldl count_read [] (map (\<lambda>(now, k, i). (now, i)) (filter (\<lambda>(now, k, i). k = key) rs))"

definition follows :: "(rat \<Rightarrow> rat) \<Rightarrow> read \<Rightarrow> read \<Rightarrow> bool" where
  "follows rnd q r \<longleftrightarrow> snd r = snd q + 1 \<and> seconds rnd (time_sub (fst r) (fst q)) > 0"

text \<open>The number of reads in the newest unbroken run.\<close>

fun run_length :: "(rat \<Rightarrow> rat) \<Rightarrow> read list \<Rightarrow> nat" where
  "run_length rnd [] = 0"
| "run_length rnd [r] = 1"
| "run_length rnd (r # q # rs) = (if follows rnd q r then Suc (run_length rnd (q # rs)) else 1)"

definition tracks :: "(rat \<Rightarrow> rat) \<Rightarrow> read list \<Rightarrow> readState option \<Rightarrow> bool" where
  "tracks rnd c st \<longleftrightarrow>
     (case st of
        None \<Rightarrow> c = []
      | Some s \<Rightarrow> c \<noteq> [] \<and> hd c = (lastReadAt s, lastChunkIndex s) \<and> streakLen s = i64 (int (run_length rnd c)) \<and>
          ((\<forall>x \<ge> 0. rnd x \<ge> 0) \<longrightarrow> velocityEWMA s \<ge> 0))"

lemma track_other: "k \<noteq> key \<Longrightarrow> states (fst (track rnd now k i t)) key = states t key"
  by (simp add: track_def Let_def split: option.split)

lemma track_tcfg [simp]: "tcfg (fst (track rnd now k i t)) = tcfg t"
  by (simp add: track_def Let_def split: option.split)

lemma advance_fields [simp]:
  "lastChunkIndex (advance rnd now i st) = i" "lastReadAt (advance rnd now i st) = now"
  "streakLen (advance rnd now i st) =
     (if follows rnd (lastReadAt st, lastChunkIndex st) (now, i) then i64 (streakLen st + 1) else 1)"
  by (simp_all add: advance_def follows_def Let_def)

lemma advance_velocity_nonneg:
  assumes r: "\<forall>x \<ge> 0. rnd x \<ge> 0" and v: "velocityEWMA st \<ge> 0"
  shows "velocityEWMA (advance rnd now i st) \<ge> 0"
proof -
  have half: "rnd (velocityEWMA st * rnd (1 / 2)) \<ge> 0" using r v by simp
  have inst: "rnd (1 / e) \<ge> 0" if "e > 0" for e using r that by simp
  have "rnd (rnd (rnd (3 / 10) * rnd (1 / e)) + rnd (rnd (7 / 10) * velocityEWMA st)) \<ge> 0" if "e > 0" for e
  proof -
    have "rnd (rnd (3 / 10) * rnd (1 / e)) \<ge> 0" "rnd (rnd (7 / 10) * velocityEWMA st) \<ge> 0"
      using r v inst [OF that] by simp_all
    then show ?thesis using r by (metis add_nonneg_nonneg)
  qed
  with half inst show ?thesis
    by (simp add: advance_def Let_def)
qed

lemma tracks_step:
  assumes "tracks rnd c (states t key)"
  shows "tracks rnd (count_read c (now, i)) (states (fst (track rnd now key i t)) key)"
proof (cases "states t key")
  case None
  with assms show ?thesis
    by (simp add: tracks_def track_def count_read_def i64_id)
next
  case (Some st)
  with assms obtain rs where c: "c = (lastReadAt st, lastChunkIndex st) # rs"
    by (cases c) (auto simp: tracks_def)
  show ?thesis
  proof (cases "i = lastChunkIndex st")
    case True
    with assms Some c show ?thesis
      by (simp add: track_def count_read_def)
  next
    case False
    then have "states (fst (track rnd now key i t)) key = Some (advance rnd now i st)"
      using Some by (simp add: track_def Let_def)
    moreover have "count_read c (now, i) = (now, i) # c"
      using False c by (simp add: count_read_def)
    moreover have "run_length rnd ((now, i) # c) =
        (if follows rnd (lastReadAt st, lastChunkIndex st) (now, i) then Suc (run_length rnd c) else 1)"
      by (simp add: c)
    moreover have "i64 (1 + int (run_length rnd c)) = i64 (streakLen st + 1)"
      using assms Some by (simp add: tracks_def add.commute)
    ultimately show ?thesis
      using assms Some advance_velocity_nonneg [of rnd st now i]
      by (auto simp: tracks_def i64_id)
  qed
qed

lemma tracks_all:
  assumes "tracks rnd c (states t key)"
  shows "tracks rnd (foldl count_read c (map (\<lambda>(now, k, i). (now, i)) (filter (\<lambda>(now, k, i). k = key) rs)))
    (states (track_all rnd rs t) key)"
  using assms
proof (induction rnd rs t arbitrary: c rule: track_all.induct)
  case (2 rnd now k i rs t)
  show ?case
  proof (cases "k = key")
    case True
    with "2.IH" [of "count_read c (now, i)"] tracks_step [OF "2.prems", of now i] show ?thesis
      by simp
  next
    case False
    with 2 track_other [OF False, of rnd now i t] show ?thesis
      by simp
  qed
qed simp

lemma track_all_tcfg [simp]: "tcfg (track_all rnd rs t) = tcfg t"
  by (induction rnd rs t rule: track_all.induct) simp_all

lemma tracks_history: "tracks rnd (counted key rs) (states (track_all rnd rs (NewVelocityTracker c)) key)"
  unfolding counted_def by (rule tracks_all) (simp add: tracks_def NewVelocityTracker_def)

lemma track_trigger:
  assumes "snd (track rnd now key i t)"
  obtains st where "states t key = Some st" "i \<noteq> lastChunkIndex st"
    "states (fst (track rnd now key i t)) key = Some (advance rnd now i st)"
    "streakLen (advance rnd now i st) \<ge> StreakThreshold (tcfg t)"
    "velocityEWMA (advance rnd now i st) \<ge> VelocityThresholdChunksPerSec (tcfg t)"
  using assms by (auto simp: track_def Let_def split: option.splits if_splits)

lemma i64_le: "0 \<le> x \<Longrightarrow> i64 x \<le> x"
proof -
  assume x: "0 \<le> x"
  have "i64 x \<le> take_bit 64 x"
    by (simp add: i64_def signed_take_bit_eq_take_bit_minus)
  also have "\<dots> \<le> x"
    using x by (simp add: take_bit_eq_mod zmod_le_nonneg_dividend)
  finally show ?thesis .
qed

subsection \<open>A steady reader\<close>

text \<open>
  What is used of \<open>float64\<close>: a result that is zero or far from underflow and overflow is rounded with a relative error
  of at most \<open>2^-53\<close>.
\<close>

definition ulp :: rat where
  "ulp = 1 / 2 ^ 53"

definition float64_like :: "(rat \<Rightarrow> rat) \<Rightarrow> bool" where
  "float64_like rnd \<longleftrightarrow> (\<forall>x. x = 0 \<or> (1 / 2 ^ 100 \<le> \<bar>x\<bar> \<and> \<bar>x\<bar> \<le> 2 ^ 100) \<longrightarrow> \<bar>rnd x - x\<bar> \<le> \<bar>x\<bar> * ulp)"

lemma rnd_zero: "float64_like rnd \<Longrightarrow> rnd 0 = 0"
  by (auto simp: float64_like_def dest: spec [of _ 0])

lemma rnd_bounds:
  assumes "float64_like rnd" and "lo \<le> x" and "x \<le> hi" and "1 / 2 ^ 100 \<le> lo" and "hi \<le> 2 ^ 100"
  shows "lo * (1 - ulp) \<le> rnd x \<and> rnd x \<le> hi * (1 + ulp)"
proof -
  have x: "0 < x" "1 / 2 ^ 100 \<le> \<bar>x\<bar>" "\<bar>x\<bar> \<le> 2 ^ 100"
    using assms(2-5) by auto
  then have "\<bar>rnd x - x\<bar> \<le> x * ulp"
    using assms(1) by (metis float64_like_def abs_of_pos)
  then have r: "x * (1 - ulp) \<le> rnd x" "rnd x \<le> x * (1 + ulp)"
    by (simp_all add: algebra_simps abs_le_iff)
  have "lo * (1 - ulp) \<le> x * (1 - ulp)" "x * (1 + ulp) \<le> hi * (1 + ulp)"
    using assms(2,3) by (intro mult_right_mono; simp add: ulp_def)+
  with r show ?thesis by linarith
qed

lemma rnd_nonneg_bounds:
  assumes "float64_like rnd" and "x = 0 \<or> (1 / 2 ^ 100 \<le> x \<and> x \<le> 2 ^ 100)"
  shows "x * (1 - ulp) \<le> rnd x \<and> rnd x \<le> x * (1 + ulp)"
  using assms(2) rnd_zero [OF assms(1)] rnd_bounds [OF assms(1), of x x x] by auto

text \<open>The elapsed time of a gap, in seconds.\<close>

lemma seconds_near:
  assumes f: "float64_like rnd" and g: "0 < gap" "gap < 2 ^ 63"
  defines "s \<equiv> of_int gap / 1000000000"
  shows "s * (1 - 4 * ulp) \<le> seconds rnd gap \<and> seconds rnd gap \<le> s * (1 + 4 * ulp)"
proof -
  define q where "q = (of_int (gap sdiv Second) :: rat)"
  define r where "r = (of_int (gap smod Second) :: rat)"
  have div: "gap sdiv Second = gap div Second" "gap smod Second = gap mod Second"
    using g(1) by (simp_all add: signed_divide_int_def signed_modulo_int_def sgn_if Second_def minus_div_mult_eq_mod)
  have qi: "gap sdiv Second = 0 \<or> 1 \<le> gap sdiv Second" "gap sdiv Second \<le> 2 ^ 34"
    "gap smod Second = 0 \<or> 1 \<le> gap smod Second" "gap smod Second \<le> 999999999"
    unfolding div using g by (auto simp: Second_def)
  have "(of_int gap :: rat) = of_int (gap sdiv Second * Second + gap smod Second)"
    by (simp only: sdiv_mult_smod_eq)
  then have s: "s = q + r / 1000000000"
    by (simp add: s_def q_def r_def Second_def field_simps)
  have q: "q = 0 \<or> (1 \<le> q \<and> q \<le> 2 ^ 34)" and r: "r = 0 \<or> (1 \<le> r \<and> r \<le> 999999999)"
    using qi unfolding q_def r_def by (metis of_int_0 of_int_1 of_int_le_iff of_int_numeral of_int_power)+
  define a where "a = rnd q"
  define b where "b = rnd r"
  define c where "c = rnd (b / 1000000000)"
  have a: "q * (1 - ulp) \<le> a" "a \<le> q * (1 + ulp)"
    unfolding a_def using rnd_nonneg_bounds [OF f, of q] q by auto
  have b: "r * (1 - ulp) \<le> b" "b \<le> r * (1 + ulp)"
    unfolding b_def using rnd_nonneg_bounds [OF f, of r] r by auto
  have b0: "b = 0 \<or> (1 / 2 \<le> b \<and> b \<le> 2 ^ 31)"
    using r rnd_zero [OF f] b by (auto simp: b_def ulp_def)
  have c: "b / 1000000000 * (1 - ulp) \<le> c" "c \<le> b / 1000000000 * (1 + ulp)"
    unfolding c_def using rnd_nonneg_bounds [OF f, of "b / 1000000000"] b0 by auto
  have pos: "0 \<le> q" "0 \<le> r" "q = 0 \<longrightarrow> r \<noteq> 0" using q r g(1) s by (auto simp: s_def)
  have ac: "s * (1 - 5 / 2 * ulp) \<le> a + c" "a + c \<le> s * (1 + 5 / 2 * ulp)"
    using a b c pos(1,2) unfolding s by (simp_all add: ulp_def field_simps)
  have sr: "1 / 1000000000 \<le> s" "s \<le> 2 ^ 34"
  proof -
    have "(1 :: rat) \<le> of_int gap" "(of_int gap :: rat) \<le> of_int (2 ^ 63)"
      using g by (simp, subst of_int_le_iff, simp)
    then show "1 / 1000000000 \<le> s" "s \<le> 2 ^ 34"
      by (simp_all add: s_def)
  qed
  have "s * (1 - 5 / 2 * ulp) * (1 - ulp) \<le> rnd (a + c) \<and> rnd (a + c) \<le> s * (1 + 5 / 2 * ulp) * (1 + ulp)"
    by (rule rnd_bounds [OF f ac]) (use sr in \<open>simp_all add: ulp_def\<close>)
  moreover have "seconds rnd gap = rnd (a + c)"
    by (simp add: seconds_def Let_def a_def b_def c_def q_def r_def)
  moreover have "s * (1 - 4 * ulp) \<le> s * (1 - 5 / 2 * ulp) * (1 - ulp)"
    "s * (1 + 5 / 2 * ulp) * (1 + ulp) \<le> s * (1 + 4 * ulp)"
    using sr(1) by (simp_all add: ulp_def field_simps)
  ultimately show ?thesis by linarith
qed

text \<open>The margin within which a velocity estimate is the rate of a steady reader.\<close>

definition margin :: rat where
  "margin = 1 / 2 ^ 40"

definition near_rate :: "rat \<Rightarrow> rat \<Rightarrow> bool" where
  "near_rate v rate \<longleftrightarrow> rate * (1 - margin) \<le> v \<and> v \<le> rate * (1 + margin)"

lemma instant_near:
  assumes f: "float64_like rnd" and g: "0 < gap" "gap < 2 ^ 63"
  defines "rate \<equiv> 1000000000 / of_int gap"
  shows "0 < seconds rnd gap" and "rate * (1 - 6 * ulp) \<le> rnd (1 / seconds rnd gap)"
    and "rnd (1 / seconds rnd gap) \<le> rate * (1 + 6 * ulp)"
proof -
  define s where "s = (of_int gap / 1000000000 :: rat)"
  have "(1 :: rat) \<le> of_int gap" "(of_int gap :: rat) \<le> of_int (2 ^ 63)"
    using g by (simp, subst of_int_le_iff, simp)
  then have sr: "1 / 1000000000 \<le> s" "s \<le> 2 ^ 34"
    by (simp_all add: s_def)
  have rate: "rate = 1 / s" by (simp add: rate_def s_def)
  have e: "s * (1 - 4 * ulp) \<le> seconds rnd gap" "seconds rnd gap \<le> s * (1 + 4 * ulp)"
    using seconds_near [OF f g] by (simp_all add: s_def)
  have u: "0 < 1 - 4 * ulp" "0 < 1 + 4 * ulp" by (simp_all add: ulp_def)
  have p: "0 < s * (1 - 4 * ulp)" using sr(1) u(1) by simp
  then show e0: "0 < seconds rnd gap" using e(1) by linarith
  have lo: "1 / (s * (1 + 4 * ulp)) \<le> 1 / seconds rnd gap" and hi: "1 / seconds rnd gap \<le> 1 / (s * (1 - 4 * ulp))"
    using e e0 p by (auto intro!: frac_le)
  have s0: "0 < s" using sr(1) by simp
  have "1 / (2 ^ 35) \<le> 1 / (s * (1 + 4 * ulp))"
    using sr s0 u by (intro frac_le) (auto simp: ulp_def)
  then have l100: "1 / 2 ^ 100 \<le> 1 / (s * (1 + 4 * ulp))" by (rule order_trans [rotated]) simp
  have "1 / (s * (1 - 4 * ulp)) \<le> 1 / (1 / 2000000000)"
    using sr by (intro frac_le) (auto simp: ulp_def)
  then have h100: "1 / (s * (1 - 4 * ulp)) \<le> 2 ^ 100" by (rule order_trans) simp
  have r: "1 / (s * (1 + 4 * ulp)) * (1 - ulp) \<le> rnd (1 / seconds rnd gap)"
    "rnd (1 / seconds rnd gap) \<le> 1 / (s * (1 - 4 * ulp)) * (1 + ulp)"
    using rnd_bounds [OF f lo hi l100 h100] by simp_all
  have "1 / s * (1 - 6 * ulp) \<le> 1 / (s * (1 + 4 * ulp)) * (1 - ulp)"
    "1 / (s * (1 - 4 * ulp)) * (1 + ulp) \<le> 1 / s * (1 + 6 * ulp)"
    using s0 by (simp_all add: ulp_def field_simps)
  with r show "rate * (1 - 6 * ulp) \<le> rnd (1 / seconds rnd gap)" "rnd (1 / seconds rnd gap) \<le> rate * (1 + 6 * ulp)"
    unfolding rate by linarith+
qed

lemma ewma_near:
  assumes f: "float64_like rnd" and rate: "1 / 2 ^ 34 \<le> rate" "rate \<le> 2 ^ 30"
    and x: "rate * (1 - 6 * ulp) \<le> x" "x \<le> rate * (1 + 6 * ulp)" and v: "near_rate v rate"
  shows "near_rate (rnd (rnd (rnd (3 / 10) * x) + rnd (rnd (7 / 10) * v))) rate"
proof -
  have r0: "0 < rate" using rate(1) by (rule less_le_trans [rotated]) simp
  have v': "rate * (1 - margin) \<le> v" "v \<le> rate * (1 + margin)" using v by (simp_all add: near_rate_def)
  have a: "3 / 10 * (1 - ulp) \<le> rnd (3 / 10)" "rnd (3 / 10) \<le> 3 / 10 * (1 + ulp)"
    and b: "7 / 10 * (1 - ulp) \<le> rnd (7 / 10)" "rnd (7 / 10) \<le> 7 / 10 * (1 + ulp)"
    using rnd_bounds [OF f, of "3 / 10" "3 / 10" "3 / 10"] rnd_bounds [OF f, of "7 / 10" "7 / 10" "7 / 10"] by simp_all
  have u: "0 \<le> 1 - 6 * ulp" "0 \<le> 1 - ulp" "0 \<le> 1 - margin" by (simp_all add: ulp_def margin_def)
  have xv: "0 \<le> x" "0 \<le> v"
    using order_trans [OF mult_nonneg_nonneg x(1)] order_trans [OF mult_nonneg_nonneg v'(1)] r0 u by simp_all
  have ab: "0 \<le> rnd (3 / 10)" "0 \<le> rnd (7 / 10)" using a(1) b(1) by (simp_all add: ulp_def)
  have nn: "0 \<le> rate * (1 - 6 * ulp)" "0 \<le> rate * (1 - margin)" "0 \<le> 3 / 10 * (1 + ulp)" "0 \<le> 7 / 10 * (1 + ulp)"
    using r0 u by (simp_all add: ulp_def)
  have p1: "3 / 10 * (1 - ulp) * (rate * (1 - 6 * ulp)) \<le> rnd (3 / 10) * x"
    "rnd (3 / 10) * x \<le> 3 / 10 * (1 + ulp) * (rate * (1 + 6 * ulp))"
    using mult_mono [OF a(1) x(1) ab(1) nn(1)] mult_mono [OF a(2) x(2) nn(3) xv(1)] by simp_all
  have p2: "7 / 10 * (1 - ulp) * (rate * (1 - margin)) \<le> rnd (7 / 10) * v"
    "rnd (7 / 10) * v \<le> 7 / 10 * (1 + ulp) * (rate * (1 + margin))"
    using mult_mono [OF b(1) v'(1) ab(2) nn(2)] mult_mono [OF b(2) v'(2) nn(4) xv(2)] by simp_all
  have q1: "3 / 10 * (1 - ulp) * (rate * (1 - 6 * ulp)) * (1 - ulp) \<le> rnd (rnd (3 / 10) * x)"
    "rnd (rnd (3 / 10) * x) \<le> 3 / 10 * (1 + ulp) * (rate * (1 + 6 * ulp)) * (1 + ulp)"
    using rnd_bounds [OF f p1] rate by (simp_all add: ulp_def)
  have q2: "7 / 10 * (1 - ulp) * (rate * (1 - margin)) * (1 - ulp) \<le> rnd (rnd (7 / 10) * v)"
    "rnd (rnd (7 / 10) * v) \<le> 7 / 10 * (1 + ulp) * (rate * (1 + margin)) * (1 + ulp)"
    using rnd_bounds [OF f p2] rate by (simp_all add: ulp_def margin_def)
  let ?y = "rnd (rnd (3 / 10) * x) + rnd (rnd (7 / 10) * v)"
  have y: "rate * (1 - margin * 9 / 10) \<le> ?y" "?y \<le> rate * (1 + margin * 9 / 10)"
    using q1 q2 r0 by (simp_all add: ulp_def margin_def)
  have "rate * (1 - margin * 9 / 10) * (1 - ulp) \<le> rnd ?y \<and> rnd ?y \<le> rate * (1 + margin * 9 / 10) * (1 + ulp)"
    by (rule rnd_bounds [OF f y]) (use rate in \<open>simp_all add: margin_def\<close>)
  then show ?thesis
    using r0 by (simp add: near_rate_def ulp_def margin_def)
qed

definition steady :: "int \<Rightarrow> int \<Rightarrow> string \<Rightarrow> u64 \<Rightarrow> nat \<Rightarrow> (int \<times> string \<times> u64) list" where
  "steady t0 gap key i m = map (\<lambda>j. (t0 + gap * int j, key, i + of_nat j)) [0 ..< m]"

lemma track_all_append: "track_all rnd (rs @ [(now, key, i)]) t = fst (track rnd now key i (track_all rnd rs t))"
  by (induction rnd rs t rule: track_all.induct) simp_all

lemma time_sub_gap: "0 < gap \<Longrightarrow> gap < 2 ^ 63 \<Longrightarrow> time_sub (t0 + gap * int (Suc m)) (t0 + gap * int m) = gap"
  by (simp add: time_sub_def algebra_simps)

text \<open>One more read of a steady reader.\<close>

lemma steady_advance:
  assumes f: "float64_like rnd" and g: "0 < gap" "gap < 2 ^ 63" and m: "int (Suc n) < 2 ^ 63 - 1"
    and st: "lastChunkIndex st = i + of_nat n" "lastReadAt st = t0 + gap * int n" "streakLen st = int (Suc n)"
    and v: "velocityEWMA st = 0 \<or> near_rate (velocityEWMA st) (1000000000 / of_int gap)"
  defines "st' \<equiv> advance rnd (t0 + gap * int (Suc n)) (i + of_nat (Suc n)) st"
  shows "streakLen st' = int (Suc (Suc n))" and "near_rate (velocityEWMA st') (1000000000 / of_int gap)"
proof -
  let ?rate = "1000000000 / of_int gap :: rat"
  have "(1 :: rat) \<le> of_int gap" "(of_int gap :: rat) \<le> of_int (2 ^ 63)"
    using g by (simp, subst of_int_le_iff, simp)
  then have rate: "1 / 2 ^ 34 \<le> ?rate" "?rate \<le> 2 ^ 30"
    by (simp_all add: field_simps)
  note inst = instant_near [OF f g]
  have sub: "time_sub (t0 + gap * int (Suc n)) (t0 + gap * int n) = gap" by (rule time_sub_gap [OF g])
  have fol: "follows rnd (t0 + gap * int n, i + of_nat n) (t0 + gap * int (Suc n), i + of_nat (Suc n))"
    using inst(1) by (simp add: follows_def sub del: of_nat_Suc) simp
  then show "streakLen st' = int (Suc (Suc n))"
    using m st by (simp add: st'_def i64_id)
  have r0: "0 < ?rate" using g(1) by simp
  have one: "near_rate (rnd (1 / seconds rnd gap)) ?rate"
  proof -
    have "?rate * (1 - margin) \<le> ?rate * (1 - 6 * ulp)" "?rate * (1 + 6 * ulp) \<le> ?rate * (1 + margin)"
      using r0 by (intro mult_left_mono; simp add: ulp_def margin_def)+
    with inst show ?thesis by (simp add: near_rate_def)
  qed
  have seq: "i + of_nat (Suc n) = lastChunkIndex st + 1"
    using st(1) by simp
  have el: "seconds rnd (time_sub (t0 + gap * int (Suc n)) (lastReadAt st)) = seconds rnd gap"
    using sub st(2) by simp
  have "velocityEWMA st' = (if velocityEWMA st = 0 then rnd (1 / seconds rnd gap)
      else rnd (rnd (rnd (3 / 10) * rnd (1 / seconds rnd gap)) + rnd (rnd (7 / 10) * velocityEWMA st)))"
    unfolding st'_def advance_def Let_def el using seq inst(1) by simp
  then show "near_rate (velocityEWMA st') ?rate"
    using v one ewma_near [OF f rate inst(2,3)] by auto
qed

lemma steady_state:
  assumes f: "float64_like rnd" and g: "0 < gap" "gap < 2 ^ 63" and "int (Suc n) < 2 ^ 63"
  shows "\<exists>st. states (track_all rnd (steady t0 gap key i (Suc n)) (NewVelocityTracker c)) key = Some st \<and>
    lastChunkIndex st = i + of_nat n \<and> lastReadAt st = t0 + gap * int n \<and> streakLen st = int (Suc n) \<and>
    (if n = 0 then velocityEWMA st = 0 else near_rate (velocityEWMA st) (1000000000 / of_int gap))"
  using assms(4)
proof (induction n)
  case 0
  then show ?case
    by (simp add: steady_def track_def NewVelocityTracker_def)
next
  case (Suc n)
  let ?now = "t0 + gap * int (Suc n)" and ?i = "i + of_nat (Suc n)"
  let ?t = "track_all rnd (steady t0 gap key i (Suc n)) (NewVelocityTracker c)"
  have snoc: "steady t0 gap key i (Suc (Suc n)) = steady t0 gap key i (Suc n) @ [(?now, key, ?i)]"
    by (simp add: steady_def)
  obtain st where st: "states ?t key = Some st" "lastChunkIndex st = i + of_nat n" "lastReadAt st = t0 + gap * int n"
    "streakLen st = int (Suc n)" "velocityEWMA st = 0 \<or> near_rate (velocityEWMA st) (1000000000 / of_int gap)"
    using Suc.IH Suc.prems by (auto split: if_splits)
  have ne: "?i \<noteq> lastChunkIndex st"
    using st(2) by simp
  have tr: "states (fst (track rnd ?now key ?i ?t)) key = Some (advance rnd ?now ?i st)"
    using st(1) ne by (simp add: track_def Let_def del: of_nat_Suc)
  have "int (Suc n) < 2 ^ 63 - 1" using Suc.prems by simp
  note adv = steady_advance [OF f g this st(2-5)]
  show ?case
    unfolding snoc track_all_append using tr adv by (simp del: of_nat_Suc)
qed

subsection \<open>Properties\<close>

text \<open>
  C25: After any history of \<open>Record\<close> calls on any objects, the tracker's state of an object is exactly
  what the reads of that object that changed chunk determine: it remembers the newest of them, and its
  streak is the length of the newest run of reads each of the next chunk at a later time (as an
  \<open>int64\<close>). Repeated reads of one chunk and reads of other objects have no influence.
\<close>

theorem streak_is_newest_run:
  "case states (track_all rnd rs (NewVelocityTracker c)) key of
     None \<Rightarrow> counted key rs = []
   | Some st \<Rightarrow> counted key rs \<noteq> [] \<and> hd (counted key rs) = (lastReadAt st, lastChunkIndex st) \<and>
       streakLen st = i64 (int (run_length rnd (counted key rs)))"
  using tracks_history [of rnd key rs c] by (auto simp: tracks_def split: option.splits)

text \<open>
  With a threshold of at least two, a prefetch is only ever triggered by a read of the chunk
  right after the one that counted last, at the end of a run of at least \<open>StreakThreshold\<close>
  consecutive chunks, with the velocity estimate at or above its threshold: random access,
  re-reads and first reads never prefetch.
\<close>

lemma trigger_needs_streak:
  assumes "2 \<le> StreakThreshold c"
    and "t = track_all rnd rs (NewVelocityTracker c)" and "snd (track rnd now key i t)"
  shows "int (run_length rnd (count_read (counted key rs) (now, i))) \<ge> StreakThreshold c \<and>
    (\<exists>st. states t key = Some st \<and> i = lastChunkIndex st + 1) \<and>
    (\<exists>st'. states (fst (track rnd now key i t)) key = Some st' \<and>
       velocityEWMA st' \<ge> VelocityThresholdChunksPerSec c)"
proof -
  obtain st where st: "states t key = Some st" "i \<noteq> lastChunkIndex st"
    "states (fst (track rnd now key i t)) key = Some (advance rnd now i st)"
    "streakLen (advance rnd now i st) \<ge> StreakThreshold c"
    "velocityEWMA (advance rnd now i st) \<ge> VelocityThresholdChunksPerSec c"
    using track_trigger [OF assms(3)] assms(2) by (auto simp: NewVelocityTracker_def)
  have "follows rnd (lastReadAt st, lastChunkIndex st) (now, i)"
    using st(4) assms(1) by (simp split: if_splits)
  then have "i = lastChunkIndex st + 1" by (simp add: follows_def)
  moreover have "tracks rnd (count_read (counted key rs) (now, i)) (states (fst (track rnd now key i t)) key)"
    unfolding assms(2) by (rule tracks_step) (rule tracks_history)
  then have "streakLen (advance rnd now i st) = i64 (int (run_length rnd (count_read (counted key rs) (now, i))))"
    unfolding st(3) by (simp add: tracks_def)
  then have "StreakThreshold c \<le> int (run_length rnd (count_read (counted key rs) (now, i)))"
    using st(4) i64_le [of "int (run_length rnd (count_read (counted key rs) (now, i)))"] by simp
  ultimately show ?thesis
    using st by blast
qed

definition demo_tracker_cfg :: TrackerConfig where
  "demo_tracker_cfg = \<lparr>StreakThreshold = 2, VelocityThresholdChunksPerSec = 1 / 2\<rparr>"

text \<open>
  C26: A steady sequential reader is detected on time, up to the rounding of \<open>float64\<close>: reading one chunk
  every \<open>gap\<close> nanoseconds, its read number \<open>m + 1\<close> schedules the chunks after it when it is not the first read,
  \<open>m + 1\<close> reads reach the streak threshold, and the velocity threshold is at most the rate \<open>10^9 / gap\<close> less the
  relative margin \<open>2^-40\<close>; it schedules nothing when it is the first read, or \<open>m + 1\<close> reads do not reach the streak
  threshold, or the velocity threshold exceeds the rate by more than that margin. In between, the accumulated rounding
  decides. All that is assumed of the rounding is a relative error of at most \<open>2^-53\<close> between \<open>2^-100\<close> and \<open>2^100\<close>.
\<close>

theorem steady_reader_prefetches:
  assumes "float64_like rnd" and "0 < gap" and "gap < 2 ^ 63" and "int m < 2 ^ 63 - 1"
    and "t = track_all rnd (steady t0 gap key i m) (NewVelocityTracker c)"
    and "rate = 1000000000 / of_int gap"
  shows "\<exists>t'.
    (m \<noteq> 0 \<and> StreakThreshold c \<le> int m + 1 \<and> VelocityThresholdChunksPerSec c \<le> rate * (1 - 1 / 2 ^ 40) \<longrightarrow>
       Record rnd others (t0 + gap * int m) key (i + of_nat m) (t, p, reg) =
         map_sum id (\<lambda>(p', reg'). (t', p', reg')) (Schedule others key (i + of_nat m + 1) (p, reg))) \<and>
    (m = 0 \<or> int m + 1 < StreakThreshold c \<or> rate * (1 + 1 / 2 ^ 40) < VelocityThresholdChunksPerSec c \<longrightarrow>
       Record rnd others (t0 + gap * int m) key (i + of_nat m) (t, p, reg) = Inr (t', p, reg))"
proof (cases m)
  case 0
  then show ?thesis
    using assms(5) by (simp add: steady_def Record_def track_def NewVelocityTracker_def)
next
  case (Suc n)
  let ?now = "t0 + gap * int m" and ?i = "i + of_nat m"
  obtain st where st: "states t key = Some st" "lastChunkIndex st = i + of_nat n" "lastReadAt st = t0 + gap * int n"
    "streakLen st = int (Suc n)" "velocityEWMA st = 0 \<or> near_rate (velocityEWMA st) rate"
    using steady_state [OF assms(1-3), of n t0 key i c] assms(4-6) Suc by (auto split: if_splits)
  have "int (Suc n) < 2 ^ 63 - 1" using assms(4) Suc by simp
  note adv = steady_advance [OF assms(1-3) this st(2-4) st(5) [unfolded assms(6)], folded assms(6) Suc]
  have ne: "?i \<noteq> lastChunkIndex st"
    using st(2) Suc by simp
  have "tcfg t = c"
    using assms(5) by (simp add: NewVelocityTracker_def)
  then have tr: "snd (track rnd ?now key ?i t) \<longleftrightarrow>
      StreakThreshold c \<le> int m + 1 \<and> VelocityThresholdChunksPerSec c \<le> velocityEWMA (advance rnd ?now ?i st)"
    using st(1) ne adv(1) by (simp add: track_def Let_def add.commute)
  have near: "rate * (1 - 1 / 2 ^ 40) \<le> velocityEWMA (advance rnd ?now ?i st)"
    "velocityEWMA (advance rnd ?now ?i st) \<le> rate * (1 + 1 / 2 ^ 40)"
    using adv(2) by (simp_all add: near_rate_def margin_def)
  show ?thesis
  proof (intro exI [of _ "fst (track rnd ?now key ?i t)"] conjI impI)
    assume "m \<noteq> 0 \<and> StreakThreshold c \<le> int m + 1 \<and> VelocityThresholdChunksPerSec c \<le> rate * (1 - 1 / 2 ^ 40)"
    then have "snd (track rnd ?now key ?i t)"
      using tr near(1) by linarith
    then show "Record rnd others ?now key ?i (t, p, reg) =
        map_sum id (\<lambda>(p', reg'). (fst (track rnd ?now key ?i t), p', reg')) (Schedule others key (?i + 1) (p, reg))"
      by (simp add: Record_def Let_def split_beta)
  next
    assume "m = 0 \<or> int m + 1 < StreakThreshold c \<or> rate * (1 + 1 / 2 ^ 40) < VelocityThresholdChunksPerSec c"
    then have "\<not> snd (track rnd ?now key ?i t)"
      using tr near(2) Suc by linarith
    then show "Record rnd others ?now key ?i (t, p, reg) = Inr (fst (track rnd ?now key ?i t), p, reg)"
      by (simp add: Record_def Let_def split_beta)
  qed
qed

text \<open>A rounding that always loses a little.\<close>

definition demo_rnd :: "rat \<Rightarrow> rat" where
  "demo_rnd x = x * (1 - 1 / 2 ^ 53)"

lemma demo_rnd_float: "float64_like demo_rnd"
  by (simp add: float64_like_def demo_rnd_def ulp_def algebra_simps)

theorem steady_reader_prefetches_witness:
  "\<exists>t'. Record demo_rnd alone 1000000000 ''v'' 8
     (track_all demo_rnd (steady 0 500000000 ''v'' 6 2) (NewVelocityTracker demo_tracker_cfg), demo_prefetcher, new_registry) =
     map_sum id (\<lambda>(p', reg'). (t', p', reg')) (Schedule alone ''v'' 9 (demo_prefetcher, new_registry))"
  using steady_reader_prefetches [OF demo_rnd_float, of 500000000 2 _ 0 "''v''" 6 demo_tracker_cfg _ alone demo_prefetcher
      new_registry, OF _ _ _ refl refl]
  by (simp add: demo_tracker_cfg_def)

end
