(* ===== verification/Go_Path.thy ===== *)
theory Go_Path
  imports Go_Strings
begin

section \<open>Paths and hexadecimal\<close>

text \<open>
  \<^verbatim>\<open>path/filepath.Clean\<close> and \<^verbatim>\<open>filepath.Join\<close> on Unix, and \<^verbatim>\<open>encoding/hex.Encode\<close>, as the standard
  library documents them. A path whose last components are plain (no slash, not empty, not \<open>.\<close> or
  \<open>..\<close>) keeps them when it is cleaned, which makes the cold cache's file names injective.
\<close>

subsection \<open>Components\<close>

fun split_slash :: "string \<Rightarrow> string list" where
  "split_slash [] = [[]]"
| "split_slash (c # cs) =
     (if c = CHR ''/'' then [] # split_slash cs
      else (case split_slash cs of [] \<Rightarrow> [[c]] | p # ps \<Rightarrow> (c # p) # ps))"

fun intercalate :: "string \<Rightarrow> string list \<Rightarrow> string" where
  "intercalate sep [] = []"
| "intercalate sep [x] = x"
| "intercalate sep (x # y # ys) = x @ sep @ intercalate sep (y # ys)"

definition clean_step :: "bool \<Rightarrow> string list \<Rightarrow> string \<Rightarrow> string list" where
  "clean_step rooted acc c =
     (if c = [] \<or> c = ''.'' then acc
      else if c = ''..'' then (case acc of
          [] \<Rightarrow> (if rooted then [] else [''..''])
        | x # xs \<Rightarrow> (if x = ''..'' then ''..'' # acc else xs))
      else c # acc)"

definition rooted :: "string \<Rightarrow> bool" where
  "rooted p \<longleftrightarrow> p \<noteq> [] \<and> hd p = CHR ''/''"

definition clean_comps :: "string \<Rightarrow> string list" where
  "clean_comps p = rev (foldl (clean_step (rooted p)) [] (split_slash p))"

definition path_clean :: "string \<Rightarrow> string" where
  "path_clean p =
     (let s = intercalate ''/'' (clean_comps p)
      in if rooted p then CHR ''/'' # s else if s = [] then ''.'' else s)"

definition path_join :: "string list \<Rightarrow> string" where
  "path_join elems =
     (case dropWhile (\<lambda>e. e = []) elems of
        [] \<Rightarrow> []
      | e # es \<Rightarrow> path_clean (intercalate ''/'' (e # es)))"

definition plain :: "string \<Rightarrow> bool" where
  "plain c \<longleftrightarrow> c \<noteq> [] \<and> c \<noteq> ''.'' \<and> c \<noteq> ''..'' \<and> CHR ''/'' \<notin> set c"

lemma plainI: "c \<noteq> [] \<Longrightarrow> CHR ''.'' \<notin> set c \<Longrightarrow> CHR ''/'' \<notin> set c \<Longrightarrow> plain c"
  by (auto simp: plain_def)

lemma split_slash_nonempty [simp]: "split_slash s \<noteq> []"
  by (cases s) (auto split: list.split)

lemma split_slash_plain: "CHR ''/'' \<notin> set c \<Longrightarrow> split_slash c = [c]"
  by (induction c) auto

lemma split_slash_append: "split_slash (s @ CHR ''/'' # t) = split_slash s @ split_slash t"
proof (induction s)
  case (Cons c s)
  then show ?case
    using split_slash_nonempty [of s] by (auto split: list.split)
qed simp

lemma clean_comps_append_plain:
  assumes "plain c" and "s \<noteq> []"
  shows "clean_comps (s @ CHR ''/'' # c) = clean_comps s @ [c]"
  using assms by (simp add: clean_comps_def split_slash_append split_slash_plain plain_def clean_step_def rooted_def)

lemma clean_comps_plain: "plain c \<Longrightarrow> clean_comps c = [c]"
  by (cases c) (auto simp: clean_comps_def split_slash_plain plain_def clean_step_def rooted_def)

lemma intercalate_snoc:
  "intercalate sep (xs @ [x]) = (if xs = [] then x else intercalate sep xs @ sep @ x)"
  by (induction sep xs rule: intercalate.induct) auto

text \<open>The directory part a base path contributes to any file name joined onto it.\<close>

definition base_part :: "string \<Rightarrow> string" where
  "base_part base =
     (if base = [] then []
      else (if rooted base then ''/'' else []) @
        (if clean_comps base = [] then [] else intercalate ''/'' (clean_comps base) @ ''/''))"

lemma path_join_plain:
  assumes "plain a" and "plain b" and "plain c"
  shows "path_join [base, a, b, c] = base_part base @ a @ ''/'' @ b @ ''/'' @ c"
proof (cases "base = []")
  case True
  have ne: "a \<noteq> []" and na: "\<not> rooted (a @ ''/'' @ b @ ''/'' @ c)"
    using assms by (cases a; auto simp: plain_def rooted_def)+
  have "clean_comps (a @ ''/'' @ b @ ''/'' @ c) = [a, b, c]"
    using clean_comps_append_plain [of c "a @ ''/'' @ b"] clean_comps_append_plain [of b a]
      clean_comps_plain [of a] assms ne by simp
  with True assms ne na show ?thesis
    by (simp add: path_join_def path_clean_def base_part_def Let_def)
next
  case False
  have "clean_comps (base @ ''/'' @ a @ ''/'' @ b @ ''/'' @ c) = clean_comps base @ [a, b, c]"
    using clean_comps_append_plain [of c "base @ ''/'' @ a @ ''/'' @ b"]
      clean_comps_append_plain [of b "base @ ''/'' @ a"] clean_comps_append_plain [of a base] assms False
    by simp
  moreover have "rooted (base @ ''/'' @ a @ ''/'' @ b @ ''/'' @ c) = rooted base"
    using False by (simp add: rooted_def)
  ultimately show ?thesis
    using False assms intercalate_snoc [of "''/''" "clean_comps base @ [a, b]" c]
      intercalate_snoc [of "''/''" "clean_comps base @ [a]" b] intercalate_snoc [of "''/''" "clean_comps base" a]
    by (auto simp: path_join_def path_clean_def base_part_def Let_def plain_def)
qed

subsection \<open>Hexadecimal\<close>

definition hex_digit :: "nat \<Rightarrow> char" where
  "hex_digit n = ''0123456789abcdef'' ! n"

definition hex_byte :: "byte \<Rightarrow> string" where
  "hex_byte b = [hex_digit (unat b div 16), hex_digit (unat b mod 16)]"

definition hex_encode :: "bytes \<Rightarrow> string" where
  "hex_encode bs = concat (map hex_byte bs)"

lemma hex_digit_inj: "m < 16 \<Longrightarrow> n < 16 \<Longrightarrow> hex_digit m = hex_digit n \<longleftrightarrow> m = n"
proof -
  have "distinct ''0123456789abcdef''"
    by simp
  then show "m < 16 \<Longrightarrow> n < 16 \<Longrightarrow> ?thesis"
    unfolding hex_digit_def by (subst nth_eq_iff_index_eq) simp_all
qed

lemma hex_digit_set: "n < 16 \<Longrightarrow> hex_digit n \<in> set ''0123456789abcdef''"
  unfolding hex_digit_def by (rule nth_mem) simp

lemma unat_byte: "unat (b :: byte) < 256"
proof -
  have "unat b < 2 ^ LENGTH(8)"
    by (rule unsigned_less)
  then show ?thesis by simp
qed

lemma hex_byte_inj: "hex_byte a = hex_byte b \<longleftrightarrow> a = b"
proof
  assume "hex_byte a = hex_byte b"
  moreover have "unat a div 16 < 16" "unat b div 16 < 16"
    using unat_byte [of a] unat_byte [of b] by auto
  ultimately have "unat a div 16 = unat b div 16" "unat a mod 16 = unat b mod 16"
    by (simp_all add: hex_byte_def hex_digit_inj)
  then have "unat a = unat b"
    by (metis div_mult_mod_eq)
  then show "a = b" by (simp add: word_unat_eq_iff)
qed simp

lemma length_hex_encode: "length (hex_encode bs) = 2 * length bs"
  by (induction bs) (simp_all add: hex_encode_def hex_byte_def)

lemma hex_encode_inj: "length as = length bs \<Longrightarrow> hex_encode as = hex_encode bs \<longleftrightarrow> as = bs"
proof (induction as bs rule: list_induct2)
  case (Cons a as b bs)
  moreover have "hex_encode (x # xs) = hex_byte x @ hex_encode xs" for x xs
    by (simp add: hex_encode_def)
  moreover have "length (hex_byte x) = 2" for x
    by (simp add: hex_byte_def)
  ultimately show ?case
    by (metis append_eq_append_conv hex_byte_inj list.inject)
qed simp

lemma hex_encode_chars: "set (hex_encode bs) \<subseteq> set ''0123456789abcdef''"
proof -
  have "set (hex_byte b) \<subseteq> set ''0123456789abcdef''" for b
  proof -
    have "unat b div 16 < 16"
      using unat_byte [of b] by auto
    then have "hex_digit (unat b div 16) \<in> set ''0123456789abcdef''"
      "hex_digit (unat b mod 16) \<in> set ''0123456789abcdef''"
      by (rule hex_digit_set) (rule hex_digit_set, simp)
    then show ?thesis
      unfolding hex_byte_def by (metis empty_set insert_subset list.simps(15) empty_subsetI)
  qed
  then show ?thesis
    by (auto simp: hex_encode_def simp del: list.set)
qed

end
