(* ===== verification/Cold_Cache.thy ===== *)
theory Cold_Cache
  imports Chunk_Key Go_Path Cache_Interface
begin

section \<open>The cold cache\<close>

text \<open>
  \<^verbatim>\<open>ColdCache\<close> of \<^verbatim>\<open>internal/cache/disk.go\<close>: flat files below a base directory, written to a
  \<^verbatim>\<open>.tmp\<close> file first and renamed. The file system is a map from paths to contents; directories are
  not represented, and every system call may fail, as the \<open>faults\<close> argument of an operation says (an
  open can fail before anything is written, a write can fail after some bytes). A \<open>None\<close> fault is a
  call that succeeds. The operations here run one after the other; \<open>Cold_Race\<close> interleaves the system
  calls of several of them.

  The path of a chunk depends on its object key only through the 64-bit hash: \<open>slot\<close> is what the
  path determines.
\<close>

subsection \<open>File names\<close>

text \<open>\<^verbatim>\<open>raw := [8]byte{byte(h >> 56), ..., byte(h)}\<close>, big-endian.\<close>

definition be_bytes :: "u64 \<Rightarrow> bytes" where
  "be_bytes h = map (\<lambda>i. ucast (drop_bit i h)) [56, 48, 40, 32, 24, 16, 8, 0]"

lemma length_be_bytes: "length (be_bytes h) = 8"
  unfolding be_bytes_def length_map by simp

lemma length_hex_be [simp]: "length (hex_encode (be_bytes h)) = 16"
  by (simp add: length_hex_encode length_be_bytes)

definition chunkPath :: "string \<Rightarrow> ChunkKey \<Rightarrow> string" where
  "chunkPath baseDir k =
     (let h = fnv1aHash64 (ObjectKey k);
          hashHex = hex_encode (be_bytes h);
          shard = take 2 hashHex
      in path_join [baseDir, shard, hashHex, show_nat (unat (ChunkIndex k))])"

type_synonym slot = "u64 \<times> u64"

definition slot_of :: "ChunkKey \<Rightarrow> slot" where
  "slot_of k = (fnv1aHash64 (ObjectKey k), ChunkIndex k)"

definition slotPath :: "string \<Rightarrow> slot \<Rightarrow> string" where
  "slotPath baseDir sl =
     base_part baseDir @ take 2 (hex_encode (be_bytes (fst sl))) @ ''/'' @ hex_encode (be_bytes (fst sl)) @ ''/'' @
     show_nat (unat (snd sl))"

lemma plain_hex: "0 < n \<Longrightarrow> n \<le> 16 \<Longrightarrow> plain (take n (hex_encode (be_bytes h)))"
proof -
  assume n: "0 < n" "n \<le> 16"
  have "set (take n (hex_encode (be_bytes h))) \<subseteq> set ''0123456789abcdef''"
    by (rule subset_trans [OF set_take_subset hex_encode_chars])
  moreover have "CHR ''.'' \<notin> set ''0123456789abcdef''" "CHR ''/'' \<notin> set ''0123456789abcdef''"
    by simp_all
  ultimately have "CHR ''.'' \<notin> set (take n (hex_encode (be_bytes h)))"
    "CHR ''/'' \<notin> set (take n (hex_encode (be_bytes h)))"
    by blast+
  moreover have "length (take n (hex_encode (be_bytes h))) = n"
    using n by simp
  then have "take n (hex_encode (be_bytes h)) \<noteq> []"
    using n by (metis list.size(3) less_irrefl)
  ultimately show ?thesis
    by (intro plainI)
qed

lemma plain_show_nat: "plain (show_nat n)"
proof -
  have d: "c \<in> set (show_nat n) \<Longrightarrow> is_digit c" for c
    using show_nat_digits [of n] by (simp add: list_all_iff)
  then have "CHR ''.'' \<notin> set (show_nat n)" "CHR ''/'' \<notin> set (show_nat n)"
    using is_digit_neq by blast+
  then show ?thesis
    by (intro plainI) simp_all
qed

lemma chunkPath_slot: "chunkPath baseDir k = slotPath baseDir (slot_of k)"
proof -
  have "plain (hex_encode (be_bytes h))" for h
    using plain_hex [of 16 h] by simp
  then show ?thesis
    by (simp add: chunkPath_def slotPath_def slot_of_def Let_def path_join_plain plain_hex plain_show_nat)
qed

lemma be_bytes_inj: "be_bytes g = be_bytes h \<longleftrightarrow> g = h"
proof
  assume e: "be_bytes g = be_bytes h"
  have b: "bit g (m + n) = bit h (m + n)"
    if "(ucast (drop_bit m g) :: byte) = ucast (drop_bit m h)" "n < 8" for m n
  proof -
    have "bit (ucast (drop_bit m g) :: byte) n = bit (ucast (drop_bit m h) :: byte) n"
      using that(1) by simp
    then show ?thesis
      using that(2) by (simp add: bit_simps add.commute)
  qed
  have eqs: "(ucast (drop_bit m g) :: byte) = ucast (drop_bit m h)" if "m \<in> {0, 8, 16, 24, 32, 40, 48, 56}" for m
    using e that unfolding be_bytes_def by (simp only: list.map list.inject insert_iff empty_iff) blast
  show "g = h"
  proof (rule bit_word_eqI)
    fix i
    assume "i < LENGTH(64)"
    then have "i div 8 < 8" by simp
    then have "i div 8 \<in> {0, 1, 2, 3, 4, 5, 6, 7}" by auto
    then have "i div 8 * 8 \<in> {0, 8, 16, 24, 32, 40, 48, 56}" by auto
    then have "bit g (i div 8 * 8 + i mod 8) = bit h (i div 8 * 8 + i mod 8)"
      by (intro b eqs) simp_all
    then show "bit g i = bit h i"
      by simp
  qed
qed simp

lemma slotPath_inj: "slotPath base s = slotPath base s' \<longleftrightarrow> s = s'"
proof
  assume e: "slotPath base s = slotPath base s'"
  have "hex_encode (be_bytes (fst s)) = hex_encode (be_bytes (fst s')) \<and>
      show_nat (unat (snd s)) = show_nat (unat (snd s'))"
    using e by (simp add: slotPath_def)
  then have "be_bytes (fst s) = be_bytes (fst s')" "unat (snd s) = unat (snd s')"
    by (simp_all add: hex_encode_inj length_be_bytes show_nat_inj)
  then show "s = s'"
    by (simp add: be_bytes_inj prod_eq_iff word_unat_eq_iff)
qed simp

lemma tmp_not_slot: "slotPath base s @ ''.tmp'' \<noteq> slotPath base s'"
proof
  assume e: "slotPath base s @ ''.tmp'' = slotPath base s'"
  have "show_nat (unat (snd s)) @ ''.tmp'' = show_nat (unat (snd s'))"
    using e by (simp add: slotPath_def)
  then have "CHR ''.'' \<in> set (show_nat (unat (snd s')))"
    by (metis in_set_conv_decomp append_Cons)
  then show False
    using show_nat_digits [of "unat (snd s')"] is_digit_neq(4) by (auto simp: list_all_iff)
qed

lemma tmp_inj: "slotPath base s @ ''.tmp'' = slotPath base s' @ ''.tmp'' \<longleftrightarrow> s = s'"
  by (simp add: slotPath_inj)

subsection \<open>The file system and its failures\<close>

type_synonym fs = "string \<Rightarrow> bytes option"

datatype os_error = NotExist | OtherError string

datatype write_fault = OpenFails os_error | WriteFails nat os_error

record put_faults =
  mkdir_fault :: "os_error option"
  write_fault :: "write_fault option"
  rename_fault :: "os_error option"
  remove_fault :: "os_error option"

definition no_faults :: put_faults where
  "no_faults = \<lparr>mkdir_fault = None, write_fault = None, rename_fault = None, remove_fault = None\<rparr>"

datatype cold_error = MkdirError string os_error | WriteError string u64 os_error | RenameError string u64 os_error
  | BaseDirError string os_error

text \<open>\<^verbatim>\<open>os.WriteFile\<close>: create or truncate, then write; a failing write leaves the prefix it wrote.\<close>

definition write_file :: "write_fault option \<Rightarrow> fs \<Rightarrow> string \<Rightarrow> bytes \<Rightarrow> fs \<times> os_error option" where
  "write_file fault fs name data =
     (case fault of
        None \<Rightarrow> (fs(name \<mapsto> data), None)
      | Some (OpenFails e) \<Rightarrow> (fs, Some e)
      | Some (WriteFails n e) \<Rightarrow> (fs(name \<mapsto> take n data), Some e))"

text \<open>\<^verbatim>\<open>os.Rename\<close>: the target is replaced; a missing source is an error.\<close>

definition rename :: "os_error option \<Rightarrow> fs \<Rightarrow> string \<Rightarrow> string \<Rightarrow> fs \<times> os_error option" where
  "rename fault fs old new =
     (case fault of
        Some e \<Rightarrow> (fs, Some e)
      | None \<Rightarrow> (case fs old of None \<Rightarrow> (fs, Some NotExist) | Some d \<Rightarrow> (fs(old := None, new \<mapsto> d), None)))"

definition remove_file :: "os_error option \<Rightarrow> fs \<Rightarrow> string \<Rightarrow> fs \<times> os_error option" where
  "remove_file fault fs name =
     (case fault of
        Some e \<Rightarrow> (fs, Some e)
      | None \<Rightarrow> (case fs name of None \<Rightarrow> (fs, Some NotExist) | Some d \<Rightarrow> (fs(name := None), None)))"

subsection \<open>The operations\<close>

text \<open>\<^verbatim>\<open>NewColdCache\<close>: the base directory is created; the cache holds nothing but its name.\<close>

definition NewColdCache :: "os_error option \<Rightarrow> string \<Rightarrow> cold_error + string" where
  "NewColdCache mkdir baseDir =
     (case mkdir of Some e \<Rightarrow> Inl (BaseDirError baseDir e) | None \<Rightarrow> Inr baseDir)"

definition cold_put :: "put_faults \<Rightarrow> string \<Rightarrow> fs \<Rightarrow> ChunkKey \<Rightarrow> bytes \<Rightarrow> fs \<times> cold_error option" where
  "cold_put f baseDir fs k data =
     (let p = chunkPath baseDir k in
      case mkdir_fault f of
        Some e \<Rightarrow> (fs, Some (MkdirError (ObjectKey k) e))
      | None \<Rightarrow>
        let tmp = p @ ''.tmp''; (fs1, werr) = write_file (write_fault f) fs tmp data in
        case werr of
          Some e \<Rightarrow> (fs1, Some (WriteError (ObjectKey k) (ChunkIndex k) e))
        | None \<Rightarrow>
          let (fs2, rerr) = rename (rename_fault f) fs1 tmp p in
          case rerr of
            Some e \<Rightarrow> (fst (remove_file (remove_fault f) fs2 tmp), Some (RenameError (ObjectKey k) (ChunkIndex k) e))
          | None \<Rightarrow> (fs2, None))"

definition cold_get :: "os_error option \<Rightarrow> string \<Rightarrow> fs \<Rightarrow> ChunkKey \<Rightarrow> bytes option" where
  "cold_get fault baseDir fs k = (case fault of Some e \<Rightarrow> None | None \<Rightarrow> fs (chunkPath baseDir k))"

definition cold_delete :: "os_error option \<Rightarrow> string \<Rightarrow> fs \<Rightarrow> ChunkKey \<Rightarrow> fs \<times> os_error option" where
  "cold_delete fault baseDir fs k =
     (let (fs', err) = remove_file fault fs (chunkPath baseDir k)
      in if err = Some NotExist then (fs', None) else (fs', err))"

subsection \<open>The view by slot, and the cache contract\<close>

definition cold_at :: "string \<Rightarrow> fs \<Rightarrow> slot \<Rightarrow> bytes option" where
  "cold_at baseDir fs sl = fs (slotPath baseDir sl)"

definition cold_put_slot :: "string \<Rightarrow> fs \<Rightarrow> slot \<Rightarrow> bytes \<Rightarrow> fs \<times> (slot \<times> bytes) list" where
  "cold_put_slot baseDir fs sl data =
     (fs(slotPath baseDir sl @ ''.tmp'' := None, slotPath baseDir sl \<mapsto> data), [])"

lemma cold_get_at: "cold_get None baseDir fs k = cold_at baseDir fs (slot_of k)"
  by (simp add: cold_get_def cold_at_def chunkPath_slot)

lemma cold_put_ok:
  "snd (cold_put f baseDir fs k d) = None \<Longrightarrow>
     fst (cold_put f baseDir fs k d) = fst (cold_put_slot baseDir fs (slot_of k) d)"
  by (auto simp: cold_put_def cold_put_slot_def write_file_def rename_def Let_def chunkPath_slot
      split: option.splits write_fault.splits prod.splits)

lemma cold_put_error:
  assumes "snd (cold_put f baseDir fs k d) \<noteq> None"
  shows "cold_at baseDir (fst (cold_put f baseDir fs k d)) sl = cold_at baseDir fs sl"
proof -
  have "slotPath baseDir sl \<noteq> slotPath baseDir (slot_of k) @ ''.tmp''"
    by (metis tmp_not_slot)
  then show ?thesis
    using assms
    by (auto simp: cold_put_def write_file_def rename_def remove_file_def Let_def chunkPath_slot cold_at_def
        split: option.splits write_fault.splits prod.splits)
qed

lemma cold_put_no_faults: "snd (cold_put no_faults baseDir fs k d) = None"
  by (simp add: cold_put_def no_faults_def write_file_def rename_def Let_def)

lemma cold_at_put_slot:
  "cold_at baseDir (fst (cold_put_slot baseDir fs sl d)) sl' = (if sl' = sl then Some d else cold_at baseDir fs sl')"
proof -
  have "slotPath baseDir sl' \<noteq> slotPath baseDir sl @ ''.tmp''"
    by (metis tmp_not_slot)
  then show ?thesis
    by (simp add: cold_at_def cold_put_slot_def slotPath_inj)
qed

lemma cold_put_slot_evicts [simp]: "snd (cold_put_slot baseDir fs sl d) = []"
  by (simp add: cold_put_slot_def)

interpretation cold: cache_tier "cold_at baseDir" "cold_put_slot baseDir" "\<lambda>_. True"
  for baseDir
  by unfold_locales (auto simp: cold_at_put_slot split: if_splits)

lemma cold_put_coherent:
  assumes "holds_all (cold_at baseDir fs) P" and "P (slot_of k) d"
  shows "holds_all (cold_at baseDir (fst (cold_put f baseDir fs k d))) P"
proof (cases "snd (cold_put f baseDir fs k d)")
  case None
  with assms show ?thesis
    by (simp add: cold_put_ok cold.put_coherent)
next
  case (Some e)
  then have "cold_at baseDir (fst (cold_put f baseDir fs k d)) = cold_at baseDir fs"
    by (intro ext cold_put_error) simp
  with assms(1) show ?thesis by simp
qed

text \<open>Distinct object keys with the same 64-bit hash exist; the cold cache gives them one directory.\<close>

lemma fnv64_collision:
  "fnv1aHash64 ''8yn0iYCKYHlIj4-BwPqk'' = fnv1aHash64 ''GReLUrM4wMqfg9yzV3KQ''"
  by (simp add: fnv1aHash64_def fnv_step64_def offset64_def prime64_def)

subsection \<open>Properties\<close>

text \<open>
  C17: Two chunks share a file exactly when their object keys have the same 64-bit FNV-1a hash and
  their indices agree, whatever the base directory (relative, absolute, with redundant slashes or
  dot components); and no chunk file ever has the name of another chunk's temporary file.
\<close>

theorem chunkPath_equal_iff:
  "(chunkPath baseDir k = chunkPath baseDir k' \<longleftrightarrow>
      fnv1aHash64 (ObjectKey k) = fnv1aHash64 (ObjectKey k') \<and> ChunkIndex k = ChunkIndex k') \<and>
   chunkPath baseDir k @ ''.tmp'' \<noteq> chunkPath baseDir k'"
  by (simp add: chunkPath_slot slotPath_inj slot_of_def tmp_not_slot)

text \<open>
  C18: A successful \<open>Put\<close> into the cold cache makes \<open>Get\<close> return the bytes written, leaves no
  temporary file behind, and changes what \<open>Get\<close> returns for no chunk with another hash or index.
\<close>

theorem cold_put_then_get:
  assumes "cold_put f baseDir fs k d = (fs', None)"
  shows "cold_get None baseDir fs' k = Some d \<and> fs' (chunkPath baseDir k @ ''.tmp'') = None \<and>
    (\<forall>k'. slot_of k' \<noteq> slot_of k \<longrightarrow> cold_get None baseDir fs' k' = cold_get None baseDir fs k')"
proof -
  have fs': "fs' = fst (cold_put_slot baseDir fs (slot_of k) d)"
    using cold_put_ok [of f baseDir fs k d] assms by simp
  have "fs' (chunkPath baseDir k @ ''.tmp'') = None"
    using tmp_not_slot [of baseDir "slot_of k" "slot_of k"] by (simp add: fs' cold_put_slot_def chunkPath_slot)
  then show ?thesis
    by (simp add: cold_get_at fs' cold_at_put_slot)
qed

theorem cold_put_then_get_witness:
  "snd (cold_put no_faults ''/var/cache'' (\<lambda>_. None) \<lparr>ObjectKey = ''v.mp4'', ChunkIndex = 2\<rparr> [7, 8]) = None \<and>
   cold_get None ''/var/cache'' (fst (cold_put no_faults ''/var/cache'' (\<lambda>_. None) \<lparr>ObjectKey = ''v.mp4'', ChunkIndex = 2\<rparr> [7, 8]))
     \<lparr>ObjectKey = ''v.mp4'', ChunkIndex = 2\<rparr> = Some [7, 8]"
proof -
  let ?k = "\<lparr>ObjectKey = ''v.mp4'', ChunkIndex = 2\<rparr>"
  let ?r = "cold_put no_faults ''/var/cache'' (\<lambda>_. None) ?k [7, 8]"
  have none: "snd ?r = None"
    by (rule cold_put_no_faults)
  then have "?r = (fst ?r, None)"
    by (metis prod.collapse)
  from none cold_put_then_get [OF this] show ?thesis by blast
qed

text \<open>
  C19: A \<open>Put\<close> that fails, at whichever system call (directory, open, part of the write, rename,
  the clean-up included), leaves every cached chunk as it was: no \<open>Get\<close> sees partial data.
\<close>

theorem cold_put_failure_atomic:
  assumes "snd (cold_put f baseDir fs k d) \<noteq> None"
  shows "cold_get None baseDir (fst (cold_put f baseDir fs k d)) k' = cold_get None baseDir fs k'"
  using cold_put_error [OF assms] by (simp add: cold_get_at)

theorem cold_put_failure_atomic_witness:
  "snd (cold_put (no_faults\<lparr>write_fault := Some (WriteFails 1 (OtherError ''ENOSPC''))\<rparr>) ''c'' (\<lambda>_. None)
      \<lparr>ObjectKey = ''a'', ChunkIndex = 0\<rparr> [7, 8]) \<noteq> None \<and>
   cold_get None ''c'' (fst (cold_put (no_faults\<lparr>write_fault := Some (WriteFails 1 (OtherError ''ENOSPC''))\<rparr>) ''c'' (\<lambda>_. None)
      \<lparr>ObjectKey = ''a'', ChunkIndex = 0\<rparr> [7, 8])) \<lparr>ObjectKey = ''a'', ChunkIndex = 0\<rparr> = None"
proof -
  let ?f = "no_faults\<lparr>write_fault := Some (WriteFails 1 (OtherError ''ENOSPC''))\<rparr>"
  have h: "snd (cold_put ?f ''c'' (\<lambda>_. None) \<lparr>ObjectKey = ''a'', ChunkIndex = 0\<rparr> [7, 8]) \<noteq> None"
    by (simp add: cold_put_def no_faults_def write_file_def Let_def)
  show ?thesis
    using h cold_put_failure_atomic [OF h, of "\<lparr>ObjectKey = ''a'', ChunkIndex = 0\<rparr>"] by (simp add: cold_get_def)
qed

text \<open>
  C22: The cold cache confuses objects whose keys collide under the 64-bit hash, and such keys exist:
  after a chunk of the object \<open>8yn0iYCKYHlIj4-BwPqk\<close> has been stored, a \<open>Get\<close> of the same chunk of
  \<open>GReLUrM4wMqfg9yzV3KQ\<close> succeeds with the other object's bytes, on any file system and base
  directory.
\<close>

theorem cold_cache_serves_other_object:
  "cold_get None baseDir
     (fst (cold_put no_faults baseDir fs \<lparr>ObjectKey = ''8yn0iYCKYHlIj4-BwPqk'', ChunkIndex = i\<rparr> d))
     \<lparr>ObjectKey = ''GReLUrM4wMqfg9yzV3KQ'', ChunkIndex = i\<rparr> = Some d"
proof -
  let ?k = "\<lparr>ObjectKey = ''8yn0iYCKYHlIj4-BwPqk'', ChunkIndex = i\<rparr>"
  have "slot_of \<lparr>ObjectKey = ''GReLUrM4wMqfg9yzV3KQ'', ChunkIndex = i\<rparr> = slot_of ?k"
    by (simp add: slot_of_def fnv64_collision)
  then show ?thesis
    using cold_put_ok [OF cold_put_no_faults, of baseDir fs ?k d]
    by (simp add: cold_get_at cold_at_put_slot)
qed

text \<open>
  \<open>Delete\<close> is idempotent and exact: on a working disk it reports no error (deleting a missing
  chunk is not one), afterwards the chunk is gone, and a \<open>Get\<close> of any other hash or index answers
  as before.
\<close>

lemma cold_delete_exact:
  "snd (cold_delete None baseDir fs k) = None \<and>
   cold_get None baseDir (fst (cold_delete None baseDir fs k)) k' =
     (if slot_of k' = slot_of k then None else cold_get None baseDir fs k')"
  by (auto simp: cold_delete_def remove_file_def cold_get_at cold_at_def chunkPath_slot slotPath_inj
      split: option.splits)

end
