(* ===== verification/Handler.thy ===== *)
theory Handler
  imports Tracker Cold_Cache
begin

section \<open>The range request handler\<close>

text \<open>
  \<^verbatim>\<open>Handler\<close> of \<^verbatim>\<open>internal/proxy/handler.go\<close>. The state all requests share is a \<open>world\<close>: the two
  caches, the backend, the tracker, the prefetcher, the metrics, and the evicted chunks whose
  \<^verbatim>\<open>coldCache.Put\<close> goroutines (\<^verbatim>\<open>evictOnHot\<close> of \<^verbatim>\<open>cmd/proxy/main.go\<close>) have yet to run. What a request meets
  is in its environment: the answers of the object store, the flights its fetches join, the buffers
  from the pool, the clock, and what all other goroutines do to the world at the points where the
  handler holds no lock (\<open>others\<close>), among them the points inside a call of \<^verbatim>\<open>Schedule\<close> (\<open>ce_sched\<close>).
\<close>

subsection \<open>Tiers\<close>

datatype tier = HotTier | ColdTier | InflightTier | BackendTier

fun tier_name :: "tier \<Rightarrow> string" where
  "tier_name HotTier = ''hot''"
| "tier_name ColdTier = ''cold''"
| "tier_name InflightTier = ''inflight''"
| "tier_name BackendTier = ''backend''"

fun tierRank :: "tier \<Rightarrow> nat" where
  "tierRank HotTier = 0"
| "tierRank ColdTier = 1"
| "tierRank InflightTier = 2"
| "tierRank BackendTier = 3"

lemma tierRank_inj: "tierRank x = tierRank y \<Longrightarrow> x = y"
  by (cases x; cases y) simp_all

text \<open>Tiers are ordered by their rank.\<close>

instantiation tier :: linorder
begin

definition less_eq_tier :: "tier \<Rightarrow> tier \<Rightarrow> bool" where
  "less_eq_tier x y \<longleftrightarrow> tierRank x \<le> tierRank y"

definition less_tier :: "tier \<Rightarrow> tier \<Rightarrow> bool" where
  "less_tier x y \<longleftrightarrow> tierRank x < tierRank y"

instance
  by standard (auto simp: less_eq_tier_def less_tier_def dest: tierRank_inj)

end

subsection \<open>Requests and responses\<close>

record request =
  Method :: string
  UrlPath :: string
  RangeHeader :: string

text \<open>
  The response writer: the headers set, the status written (a later one is ignored), the body
  accepted so far, and how many more bytes the connection takes before a write fails.
\<close>

record response =
  headers :: "string \<Rightarrow> string option"
  status :: "int option"
  body :: bytes
  accepts :: "nat option"

definition new_response :: "nat option \<Rightarrow> response" where
  "new_response acc = \<lparr>headers = (\<lambda>_. None), status = None, body = [], accepts = acc\<rparr>"

definition set_header :: "string \<Rightarrow> string \<Rightarrow> response \<Rightarrow> response" where
  "set_header k v r = r\<lparr>headers := (headers r)(k \<mapsto> v)\<rparr>"

definition write_header :: "int \<Rightarrow> response \<Rightarrow> response" where
  "write_header code r = (if status r = None then r\<lparr>status := Some code\<rparr> else r)"

text \<open>\<^verbatim>\<open>w.Write(data)\<close>: the writer, the count, and whether it failed.\<close>

definition write_body :: "bytes \<Rightarrow> response \<Rightarrow> response \<times> nat \<times> bool" where
  "write_body d r =
     (let r1 = write_header 200 r
      in case accepts r1 of
           None \<Rightarrow> (r1\<lparr>body := body r1 @ d\<rparr>, length d, False)
         | Some m \<Rightarrow>
             let n = min m (length d)
             in (r1\<lparr>body := body r1 @ take n d, accepts := Some (m - n)\<rparr>, n, n < length d))"

text \<open>\<^verbatim>\<open>http.Error\<close>\<close>

definition http_error :: "string \<Rightarrow> int \<Rightarrow> response \<Rightarrow> response" where
  "http_error msg code r =
     (let r1 = set_header ''X-Content-Type-Options'' ''nosniff''
                 (set_header ''Content-Type'' ''text/plain; charset=utf-8'' r)
      in fst (write_body (bytes_of (msg @ [char_of (10 :: nat)])) (write_header code r1)))"

text \<open>\<^verbatim>\<open>io.Copy(w, body)\<close>: until the end or the first error of either side.\<close>

fun io_copy :: "reader \<Rightarrow> response \<Rightarrow> response" where
  "io_copy [] r = r"
| "io_copy ((d, e) # rd) r =
     (if d = [] then (case e of None \<Rightarrow> io_copy rd r | Some x \<Rightarrow> r)
      else case write_body d r of (r', n, failed) \<Rightarrow>
             if failed then r' else (case e of None \<Rightarrow> io_copy rd r' | Some x \<Rightarrow> r'))"

subsection \<open>The world and the environment\<close>

record world =
  w_hot :: HotCache
  w_disk :: fs
  w_backend :: Backend
  w_tracker :: VelocityTracker
  w_pf :: Prefetcher
  w_reg :: Registry
  w_spill :: "eviction list"

datatype point = BeforeChunk | AfterMiss | AfterFetch

record chunk_env =
  ce_flights :: "flight_wait list"
  ce_store :: get_object
  ce_buf :: bytes
  ce_cold :: "os_error option"
  ce_now :: int
  ce_others :: "point \<Rightarrow> world \<Rightarrow> world"
  ce_sched :: sched_others

record request_env =
  re_head :: head_object
  re_stream :: get_object
  re_chunk :: "u64 \<Rightarrow> chunk_env"
  re_elapsed :: rat
  re_accepts :: "nat option"

subsection \<open>\<^verbatim>\<open>resolveChunk\<close>\<close>

text \<open>\<^verbatim>\<open>h.cfg.HotCache.Put\<close> with its eviction callback, which starts the goroutines.\<close>

definition world_hot_put :: "ChunkKey \<Rightarrow> bytes \<Rightarrow> world \<Rightarrow> world" where
  "world_hot_put key data w =
     (let (hot', evicted) = hot_put (w_hot w) key data
      in w\<lparr>w_hot := hot', w_spill := w_spill w @ evicted\<rparr>)"

definition resolveChunk ::
  "string \<Rightarrow> chunk_env \<Rightarrow> ChunkKey \<Rightarrow> world \<Rightarrow> go_panic + world \<times> (backend_error + bytes \<times> tier)" where
  "resolveChunk baseDir e key w =
     (let (hot1, found) = hot_get (w_hot w) key; w1 = w\<lparr>w_hot := hot1\<rparr>; reg = w_reg w1
      in case found of
           Some data \<Rightarrow>
             Inr (w1\<lparr>w_reg := reg\<lparr>CacheHitTotal := CacheHitTotal reg + 1\<rparr>\<rparr>, Inr (data, HotTier))
         | None \<Rightarrow>
             let w2 = ce_others e AfterMiss (w1\<lparr>w_reg := reg\<lparr>CacheMissTotal := CacheMissTotal reg + 1\<rparr>\<rparr>)
             in case cold_get (ce_cold e) baseDir (w_disk w2) key of
                  Some data \<Rightarrow>
                    let reg2 = w_reg w2;
                        w3 = w2\<lparr>w_reg := reg2\<lparr>ColdCacheHitTotal := ColdCacheHitTotal reg2 + 1\<rparr>\<rparr>
                    in Inr (world_hot_put key data w3, Inr (data, ColdTier))
                | None \<Rightarrow>
                    (case FetchChunkShared (ce_store e) (w_backend w2) (ce_flights e) (ObjectKey key) (ChunkIndex key) (ce_buf e) of
                       (buf', Inl err, joined) \<Rightarrow> Inr (ce_others e AfterFetch w2, Inl err)
                     | (buf', Inr n, joined) \<Rightarrow>
                         let w3 = ce_others e AfterFetch w2
                         in case slice_checked buf' 0 (int n) of
                              Inl x \<Rightarrow> Inl x
                            | Inr owned \<Rightarrow>
                                if joined then Inr (w3, Inr (owned, InflightTier))
                                else Inr (world_hot_put key owned w3, Inr (owned, BackendTier))))"

subsection \<open>\<^verbatim>\<open>ServeHTTP\<close>\<close>

text \<open>\<^verbatim>\<open>h.cfg.Tracker.Record\<close>\<close>

definition world_record :: "(rat \<Rightarrow> rat) \<Rightarrow> sched_others \<Rightarrow> int \<Rightarrow> string \<Rightarrow> u64 \<Rightarrow> world \<Rightarrow> go_panic + world" where
  "world_record rnd others now objectKey chunkIdx w =
     (case Record rnd others now objectKey chunkIdx (w_tracker w, w_pf w, w_reg w) of
        Inl x \<Rightarrow> Inl x
      | Inr (t, p, reg) \<Rightarrow> Inr (w\<lparr>w_tracker := t, w_pf := p, w_reg := reg\<rparr>))"

text \<open>The indices \<open>chunkStart\<close> to \<open>chunkEnd\<close> of the loop (\<open>chunkEnd\<close> is below \<open>2^41\<close>).\<close>

definition chunk_indices :: "u64 \<Rightarrow> u64 \<Rightarrow> u64 list" where
  "chunk_indices a b = map (\<lambda>j. a + of_nat j) [0 ..< Suc (unat b) - unat a]"

text \<open>The loop that resolves the chunks: the chunks and the slowest tier, or the error.\<close>

fun resolve_all ::
  "(rat \<Rightarrow> rat) \<Rightarrow> string \<Rightarrow> (u64 \<Rightarrow> chunk_env) \<Rightarrow> string \<Rightarrow> u64 list \<Rightarrow> bytes list \<Rightarrow> tier \<Rightarrow> world \<Rightarrow>
     go_panic + world \<times> (backend_error + bytes list \<times> tier)" where
  "resolve_all rnd baseDir env objectKey [] chunks cacheTier w = Inr (w, Inr (chunks, cacheTier))"
| "resolve_all rnd baseDir env objectKey (i # is) chunks cacheTier w =
     (case resolveChunk baseDir (env i) \<lparr>ObjectKey = objectKey, ChunkIndex = i\<rparr> (ce_others (env i) BeforeChunk w) of
        Inl x \<Rightarrow> Inl x
      | Inr (w1, Inl err) \<Rightarrow> Inr (w1, Inl err)
      | Inr (w1, Inr (chunkData, tier)) \<Rightarrow>
          let cacheTier' = (if tierRank tier > tierRank cacheTier then tier else cacheTier)
          in case world_record rnd (ce_sched (env i)) (ce_now (env i)) objectKey i w1 of
               Inl x \<Rightarrow> Inl x
             | Inr w2 \<Rightarrow> resolve_all rnd baseDir env objectKey is (chunks @ [chunkData]) cacheTier' w2)"

text \<open>The loop that writes the chunks: the writer, the bytes served, and whether a write failed.\<close>

fun write_chunks :: "int \<Rightarrow> int \<Rightarrow> u64 \<Rightarrow> bytes list \<Rightarrow> response \<Rightarrow> int \<Rightarrow> go_panic + response \<times> int \<times> bool" where
  "write_chunks startByte endByte idx [] r served = Inr (r, served, False)"
| "write_chunks startByte endByte idx (chunkData # cs) r served =
     (let chunkByteBase = i64 (int64_of idx * int ChunkSize);
          sliceStart = (if startByte > chunkByteBase then i64 (startByte - chunkByteBase) else 0);
          sliceEnd = (if i64 (i64 (endByte - chunkByteBase) + 1) < int (length chunkData)
                      then i64 (i64 (endByte - chunkByteBase) + 1) else int (length chunkData))
      in if sliceStart \<ge> sliceEnd then Inr (r, served, False)
         else case slice_checked chunkData sliceStart sliceEnd of
                Inl x \<Rightarrow> Inl x
              | Inr d \<Rightarrow>
                  (case write_body d r of (r', n, failed) \<Rightarrow>
                     if failed then Inr (r', i64 (served + int n), True)
                     else write_chunks startByte endByte (idx + 1) cs r' (i64 (served + int n))))"

definition count_request :: "tier \<Rightarrow> int \<Rightarrow> rat \<Rightarrow> Registry \<Rightarrow> Registry" where
  "count_request cacheTier served elapsed reg =
     reg\<lparr>BytesServed := served # BytesServed reg,
         RequestLatency := (tier_name cacheTier, elapsed) # RequestLatency reg,
         RequestsTotal := (RequestsTotal reg)((''206'', tier_name cacheTier) :=
           RequestsTotal reg (''206'', tier_name cacheTier) + 1)\<rparr>"

definition proxyFull :: "request_env \<Rightarrow> string \<Rightarrow> world \<Rightarrow> response \<Rightarrow> world \<times> response" where
  "proxyFull re objectKey w r =
     (case GetObjectStream (re_stream re) (w_backend w) objectKey of
        Inl err \<Rightarrow> (w, http_error ''upstream error'' 502 r)
      | Inr (bdy, contentType) \<Rightarrow>
          let r1 = (if contentType \<noteq> '''' then set_header ''Content-Type'' contentType r else r)
          in (w, io_copy bdy (write_header 200 r1)))"

definition TierHeader :: string where
  "TierHeader = ''X-Cache-Tier''"

definition head_headers :: "int \<Rightarrow> response \<Rightarrow> response" where
  "head_headers objsize r =
     set_header ''Accept-Ranges'' ''bytes''
       (set_header ''Content-Type'' ''application/octet-stream''
          (set_header ''Content-Length'' (show_int objsize) r))"

definition range_headers :: "int \<Rightarrow> int \<Rightarrow> int \<Rightarrow> tier \<Rightarrow> response \<Rightarrow> response" where
  "range_headers startByte endByte objsize cacheTier r =
     set_header TierHeader (tier_name cacheTier)
       (set_header ''Accept-Ranges'' ''bytes''
         (set_header ''Content-Type'' ''application/octet-stream''
           (set_header ''Content-Length'' (show_int (i64 (i64 (endByte - startByte) + 1)))
             (set_header ''Content-Range''
               (''bytes '' @ show_int startByte @ ''-'' @ show_int endByte @ ''/'' @ show_int objsize) r))))"

definition serve_range ::
  "(rat \<Rightarrow> rat) \<Rightarrow> string \<Rightarrow> request_env \<Rightarrow> string \<Rightarrow> string \<Rightarrow> int \<Rightarrow> int \<Rightarrow> int \<Rightarrow> world \<Rightarrow> response \<Rightarrow>
     go_panic + world \<times> response" where
  "serve_range rnd baseDir re meth objectKey objsize startByte endByte w r =
     (let chunkStart = uint64_of (startByte sdiv int ChunkSize);
          chunkEnd = uint64_of (endByte sdiv int ChunkSize)
      in case resolve_all rnd baseDir (re_chunk re) objectKey (chunk_indices chunkStart chunkEnd) [] HotTier w of
           Inl x \<Rightarrow> Inl x
         | Inr (w1, Inl err) \<Rightarrow> Inr (w1, http_error ''upstream error'' 502 r)
         | Inr (w1, Inr (chunks, cacheTier)) \<Rightarrow>
             let r1 = write_header 206 (range_headers startByte endByte objsize cacheTier r)
             in case (if meth = ''GET'' then write_chunks startByte endByte chunkStart chunks r1 0
                      else Inr (r1, 0, False)) of
                  Inl x \<Rightarrow> Inl x
                | Inr (r2, served, failed) \<Rightarrow>
                    if failed then Inr (w1, r2)
                    else Inr (w1\<lparr>w_reg := count_request cacheTier served (re_elapsed re) (w_reg w1)\<rparr>, r2))"

definition ServeHTTP ::
  "(rat \<Rightarrow> rat) \<Rightarrow> string \<Rightarrow> request_env \<Rightarrow> request \<Rightarrow> world \<Rightarrow> go_panic + world \<times> response" where
  "ServeHTTP rnd baseDir re rq w =
     (let r = new_response (re_accepts re)
      in if Method rq \<noteq> ''GET'' \<and> Method rq \<noteq> ''HEAD'' then Inr (w, http_error ''method not allowed'' 405 r)
         else let objectKey = trim_prefix (UrlPath rq) ''/''
         in if objectKey = '''' then Inr (w, http_error ''missing object key in path'' 400 r)
         else if RangeHeader rq = '''' \<and> Method rq = ''GET'' then Inr (proxyFull re objectKey w r)
         else case ObjectSize (re_head re) (w_backend w) objectKey of
                (b', Inl err) \<Rightarrow> Inr (w\<lparr>w_backend := b'\<rparr>, http_error ''upstream error'' 502 r)
              | (b', Inr objsize) \<Rightarrow>
                  let w1 = w\<lparr>w_backend := b'\<rparr>
                  in if RangeHeader rq = '''' then Inr (w1, write_header 200 (head_headers objsize r))
                     else case resolveByteRange (RangeHeader rq) objsize of (startByte, endByte, ok) \<Rightarrow>
                       if \<not> ok
                       then Inr (w1, write_header 416 (set_header ''Content-Range'' (''bytes */'' @ show_int objsize) r))
                       else serve_range rnd baseDir re (Method rq) objectKey objsize startByte endByte w1 r)"

end
