(* ===== verification/Handler_Coherence.thy ===== *)
theory Handler_Coherence
  imports Handler
begin

section \<open>Coherence of the proxy\<close>

text \<open>
  The invariant every operation on the shared state keeps: whatever a cache holds, or an eviction is
  about to write, is the right bytes of its chunk of the object in the store; a cached size is the
  object's size. The cold cache knows only hashes, so this needs objects whose keys do not collide
  (\<open>no_collisions\<close>). \<open>env_safe\<close> is what a request assumes of its surroundings: the store may fail or break off at any
  time but is honest (\<open>s3_honest\<close>), flights it joins carry right bytes or an error (\<open>Single_Flight\<close> proves it of the
  flights themselves), the pool hands out full buffers, and other goroutines keep the invariant. \<open>env_ok\<close> adds that the
  store answers every ranged read as documented.
\<close>

definition no_collisions :: "(string \<Rightarrow> bytes option) \<Rightarrow> bool" where
  "no_collisions store \<longleftrightarrow> inj_on fnv1aHash64 (dom store)"

definition chunk_right :: "(string \<Rightarrow> bytes option) \<Rightarrow> ChunkKey \<Rightarrow> bytes \<Rightarrow> bool" where
  "chunk_right store k d \<longleftrightarrow>
     (case store (ObjectKey k) of
        None \<Rightarrow> False
      | Some obj \<Rightarrow> unat (ChunkIndex k) * ChunkSize < length obj \<and> d = chunk_of obj (unat (ChunkIndex k)))"

definition slot_right :: "(string \<Rightarrow> bytes option) \<Rightarrow> slot \<Rightarrow> bytes \<Rightarrow> bool" where
  "slot_right store sl d \<longleftrightarrow> (\<exists>k. slot_of k = sl \<and> chunk_right store k d)"

definition world_ok :: "(string \<Rightarrow> bytes option) \<Rightarrow> string \<Rightarrow> string \<Rightarrow> world \<Rightarrow> bool" where
  "world_ok store bucket baseDir w \<longleftrightarrow>
     hot_inv (w_hot w) \<and>
     holds_all (hot_lookup (w_hot w)) (chunk_right store) \<and>
     holds_all (cold_at baseDir (w_disk w)) (slot_right store) \<and>
     (\<forall>(k, d) \<in> set (w_spill w). chunk_right store k d) \<and>
     holds_all (sizes (w_backend w)) (\<lambda>k v. \<exists>obj. store k = Some obj \<and> v = int (length obj)) \<and>
     Bucket (cfg (w_backend w)) = bucket \<and>
     \<not> jobsClosed (w_pf w)"

definition env_safe :: "(string \<Rightarrow> bytes option) \<Rightarrow> string \<Rightarrow> string \<Rightarrow> ChunkKey \<Rightarrow> chunk_env \<Rightarrow> bool" where
  "env_safe store bucket baseDir k e \<longleftrightarrow>
     s3_honest (ce_store e) bucket store \<and> length (ce_buf e) = ChunkSize \<and>
     (\<forall>d c. FlightDone None d c \<in> set (ce_flights e) \<longrightarrow> chunk_right store k d) \<and>
     (\<forall>p w. world_ok store bucket baseDir w \<longrightarrow> world_ok store bucket baseDir (ce_others e p w)) \<and>
     keeps_open (ce_sched e)"

definition env_ok :: "(string \<Rightarrow> bytes option) \<Rightarrow> string \<Rightarrow> string \<Rightarrow> ChunkKey \<Rightarrow> chunk_env \<Rightarrow> bool" where
  "env_ok store bucket baseDir k e \<longleftrightarrow> env_safe store bucket baseDir k e \<and> s3_ranged (ce_store e) bucket store"

lemma env_okI:
  assumes "s3_ranged (ce_store e) bucket store" and "length (ce_buf e) = ChunkSize"
    and "\<And>d c. FlightDone None d c \<in> set (ce_flights e) \<Longrightarrow> chunk_right store k d"
    and "\<And>p w. world_ok store bucket baseDir w \<Longrightarrow> world_ok store bucket baseDir (ce_others e p w)"
    and "keeps_open (ce_sched e)"
  shows "env_ok store bucket baseDir k e"
  using assms s3_ranged_honest by (simp add: env_ok_def env_safe_def)

text \<open>No wait ends because the request itself is cancelled.\<close>

fun wait_calm :: "flight_wait \<Rightarrow> bool" where
  "wait_calm (FlightDone None d c) = True"
| "wait_calm (FlightDone (Some e) d c) = (\<not> c)"
| "wait_calm CtxDoneFirst = False"

definition calm :: "chunk_env \<Rightarrow> bool" where
  "calm e \<longleftrightarrow> list_all wait_calm (ce_flights e)"

lemma chunk_right_length: "chunk_right store k d \<Longrightarrow> length d \<le> ChunkSize"
  by (auto simp: chunk_right_def chunk_of_def split: option.splits)

lemma slot_right_key:
  assumes "no_collisions store" and "slot_right store (slot_of k) d" and "store (ObjectKey k) = Some obj"
  shows "chunk_right store k d"
proof -
  obtain k' where k': "slot_of k' = slot_of k" "chunk_right store k' d"
    using assms(2) by (auto simp: slot_right_def)
  then have "ObjectKey k' \<in> dom store"
    by (auto simp: chunk_right_def split: option.splits)
  then have "ObjectKey k' = ObjectKey k"
    using assms(1,3) k'(1) by (auto simp: no_collisions_def slot_of_def dest: inj_onD)
  with k' show ?thesis
    by (auto simp: slot_of_def chunk_right_def split: option.splits)
qed

lemma world_okD:
  assumes "world_ok store bucket baseDir w"
  shows "hot_inv (w_hot w)" and "holds_all (hot_lookup (w_hot w)) (chunk_right store)"
    and "holds_all (cold_at baseDir (w_disk w)) (slot_right store)"
    and "(k, d) \<in> set (w_spill w) \<Longrightarrow> chunk_right store k d"
    and "sizes (w_backend w) key = Some v \<Longrightarrow> \<exists>obj. store key = Some obj \<and> v = int (length obj)"
    and "Bucket (cfg (w_backend w)) = bucket" and "\<not> jobsClosed (w_pf w)"
  using assms by (auto simp: world_ok_def holds_all_def)

lemma world_ok_reg [simp]: "world_ok store bucket baseDir (w\<lparr>w_reg := x\<rparr>) = world_ok store bucket baseDir w"
  by (simp add: world_ok_def)

lemma world_ok_tracker [simp]: "world_ok store bucket baseDir (w\<lparr>w_tracker := x\<rparr>) = world_ok store bucket baseDir w"
  by (simp add: world_ok_def)

lemma world_ok_hot:
  assumes "world_ok store bucket baseDir w" and "hot_inv h" and "hot_lookup h = hot_lookup (w_hot w)"
  shows "world_ok store bucket baseDir (w\<lparr>w_hot := h\<rparr>)"
  using assms by (simp add: world_ok_def)

lemma world_ok_put:
  assumes ok: "world_ok store bucket baseDir w" and right: "chunk_right store k d"
  shows "world_ok store bucket baseDir (world_hot_put k d w)"
proof -
  have "hot_inv (fst (hot_put (w_hot w) k d))" "holds_all (hot_lookup (fst (hot_put (w_hot w) k d))) (chunk_right store)"
    "\<forall>(k', v') \<in> set (snd (hot_put (w_hot w) k d)). chunk_right store k' v'"
    using world_okD(1,2) [OF ok] right hot.put_inv hot.put_coherent hot.put_evicts_coherent by blast+
  then show ?thesis
    using ok by (auto simp: world_ok_def world_hot_put_def split_beta)
qed

subsection \<open>One chunk\<close>

lemma FetchChunk_pair:
  "FetchChunkShared getObject b ws key i buf =
     (fst (FetchChunk getObject b ws key i buf), snd (FetchChunk getObject b ws key i buf),
      snd (snd (FetchChunkShared getObject b ws key i buf)))"
  by (simp add: FetchChunk_def split: prod.split)

text \<open>What a fetch delivers from an honest store is the chunk.\<close>

lemma served_right:
  assumes "env_safe store bucket baseDir k e" and "Bucket (cfg b) = bucket"
    and "store (ObjectKey k) = Some obj" and "uint (ChunkIndex k) < 2 ^ 41"
    and "shared_served (ce_store e) b (ce_flights e) k d"
  shows "chunk_right store k d"
proof -
  have env: "s3_honest (ce_store e) (Bucket (cfg b)) store"
    "\<And>d c. FlightDone None d c \<in> set (ce_flights e) \<Longrightarrow> chunk_right store k d"
    using assms(1,2) by (auto simp: env_safe_def)
  consider "chunk_served (ce_store e) b k d" | d' c where "FlightDone None d' c \<in> set (ce_flights e)" "d = take ChunkSize d'"
    using assms(5) unfolding shared_served_def by blast
  then show ?thesis
  proof cases
    case 1
    then show ?thesis
      using honest_served [OF env(1) assms(3,4)] assms(3) by (simp add: chunk_right_def)
  next
    case 2
    then show ?thesis
      using env(2) chunk_right_length by fastforce
  qed
qed

lemma fetch_right:
  assumes "env_safe store bucket baseDir k e" and "Bucket (cfg b) = bucket"
    and "store (ObjectKey k) = Some obj" and "uint (ChunkIndex k) < 2 ^ 41"
    and "snd (FetchChunk (ce_store e) b (ce_flights e) (ObjectKey k) (ChunkIndex k) (ce_buf e)) = Inr n"
  shows "chunk_right store k (take n (fst (FetchChunk (ce_store e) b (ce_flights e) (ObjectKey k) (ChunkIndex k) (ce_buf e))))"
proof -
  have "length (ce_buf e) = ChunkSize"
    using assms(1) by (simp add: env_safe_def)
  then have "shared_served (ce_store e) b (ce_flights e) k
      (take n (fst (FetchChunk (ce_store e) b (ce_flights e) (ObjectKey k) (ChunkIndex k) (ce_buf e))))"
    using shared.fetch_served [of "ce_buf e" "ce_store e" b "ce_flights e" k n] assms(5) by (simp add: shared_key_def)
  then show ?thesis
    by (rule served_right [OF assms(1-4)])
qed

text \<open>A chunk's environment in which its fetch cannot fail.\<close>

definition chunk_reliable :: "(string \<Rightarrow> bytes option) \<Rightarrow> string \<Rightarrow> chunk_env \<Rightarrow> bool" where
  "chunk_reliable store bucket e \<longleftrightarrow> calm e \<and> s3_ranged (ce_store e) bucket store"

lemma env_ok_reliable: "env_ok store bucket baseDir k e \<Longrightarrow> chunk_reliable store bucket e \<longleftrightarrow> calm e"
  by (simp add: env_ok_def chunk_reliable_def)

lemma fetch_calm:
  assumes "chunk_reliable store bucket e" and "Bucket (cfg b) = bucket"
    and "store (ObjectKey k) = Some obj" and "uint (ChunkIndex k) < 2 ^ 41"
    and "unat (ChunkIndex k) * ChunkSize < length obj"
  shows "\<exists>n. snd (FetchChunk (ce_store e) b (ce_flights e) (ObjectKey k) (ChunkIndex k) (ce_buf e)) = Inr n"
proof -
  have env: "s3_ranged (ce_store e) bucket store"
    using assms(1) by (simp add: chunk_reliable_def)
  have lead: "\<exists>n. snd (fetchChunk (ce_store e) b (ObjectKey k) (ChunkIndex k) buf) = Inr n" for buf
  proof -
    obtain out where out: "ce_store e bucket (ObjectKey k) (Some (range_header (ChunkIndex k))) = Inr out"
      "body_bytes (Body out) = (chunk_of obj (unat (ChunkIndex k)), EOF)"
      using chunk_request [OF env assms(3,4)] assms(5) by (auto split: sum.splits)
    moreover have "chunk_of obj (unat (ChunkIndex k)) \<noteq> []"
      using assms(5) by (simp add: chunk_of_def)
    ultimately show ?thesis
      using assms(2) by (simp add: fetchChunk_unfold)
  qed
  have "list_all wait_calm ws \<Longrightarrow> \<exists>n. snd (FetchChunk (ce_store e) b ws (ObjectKey k) (ChunkIndex k) buf) = Inr n" for ws buf
  proof (induction ws)
    case Nil
    then show ?case using lead [of buf] by (simp add: FetchChunk_def split_beta)
  next
    case (Cons x ws)
    then show ?case
      by (cases x rule: wait_calm.cases) (auto simp: FetchChunk_def split: prod.split)
  qed
  then show ?thesis
    using assms(1) by (simp add: chunk_reliable_def calm_def)
qed

lemma resolveChunk_right:
  assumes ok: "world_ok store bucket baseDir w" and env: "env_safe store bucket baseDir k e"
    and nc: "no_collisions store" and obj: "store (ObjectKey k) = Some obj"
    and small: "uint (ChunkIndex k) < 2 ^ 41" and inside: "unat (ChunkIndex k) * ChunkSize < length obj"
  shows "\<exists>w' r. resolveChunk baseDir e k w = Inr (w', r) \<and> world_ok store bucket baseDir w' \<and>
    (case r of Inl err \<Rightarrow> \<not> chunk_reliable store bucket e | Inr (d, t) \<Rightarrow> d = chunk_of obj (unat (ChunkIndex k)))"
proof -
  have right: "chunk_right store k d \<longleftrightarrow> d = chunk_of obj (unat (ChunkIndex k))" for d
    using obj inside by (simp add: chunk_right_def)
  obtain hot1 where g: "hot_get (w_hot w) k = (hot1, hot_lookup (w_hot w) k)"
    using hot_get_result [OF world_okD(1) [OF ok], of k] by (metis prod.collapse)
  have ok1: "world_ok store bucket baseDir (w\<lparr>w_hot := hot1, w_reg := x\<rparr>)" for x
    using world_ok_hot [OF ok, of hot1] hot_get_inv [OF world_okD(1) [OF ok], of k]
      hot_get_lookup [OF world_okD(1) [OF ok], of k] g by (auto simp: fun_eq_iff)
  have oth: "world_ok store bucket baseDir v \<Longrightarrow> world_ok store bucket baseDir (ce_others e p v)" for v p
    using env by (simp add: env_safe_def)
  show ?thesis
  proof (cases "hot_lookup (w_hot w) k")
    case (Some d)
    then have "d = chunk_of obj (unat (ChunkIndex k))"
      using holds_allD [OF world_okD(2) [OF ok]] right by blast
    with g Some ok1 show ?thesis
      by (simp add: resolveChunk_def Let_def)
  next
    case None
    define w2 where "w2 = ce_others e AfterMiss
      (w\<lparr>w_hot := hot1, w_reg := (w_reg w)\<lparr>CacheMissTotal := Suc (CacheMissTotal (w_reg w))\<rparr>\<rparr>)"
    have ok2: "world_ok store bucket baseDir w2"
      unfolding w2_def by (intro oth ok1)
    show ?thesis
    proof (cases "cold_get (ce_cold e) baseDir (w_disk w2) k")
      case (Some d)
      then have "cold_at baseDir (w_disk w2) (slot_of k) = Some d"
        by (simp add: cold_get_def cold_at_def chunkPath_slot split: option.splits)
      then have "slot_right store (slot_of k) d"
        by (rule holds_allD [OF world_okD(3) [OF ok2]])
      then have cr: "chunk_right store k d"
        by (rule slot_right_key [OF nc _ obj])
      let ?w3 = "w2\<lparr>w_reg := (w_reg w2)\<lparr>ColdCacheHitTotal := ColdCacheHitTotal (w_reg w2) + 1\<rparr>\<rparr>"
      have "resolveChunk baseDir e k w = Inr (world_hot_put k d ?w3, Inr (d, ColdTier))"
        using g None Some by (simp add: resolveChunk_def Let_def w2_def [symmetric])
      moreover have "world_ok store bucket baseDir (world_hot_put k d ?w3)"
        using ok2 cr by (intro world_ok_put) simp_all
      moreover have "d = chunk_of obj (unat (ChunkIndex k))"
        using cr right by blast
      ultimately show ?thesis
        by simp
    next
      case none: None
      let ?f = "FetchChunk (ce_store e) (w_backend w2) (ce_flights e) (ObjectKey k) (ChunkIndex k) (ce_buf e)"
      let ?w3 = "ce_others e AfterFetch w2"
      have ok3: "world_ok store bucket baseDir ?w3" by (rule oth [OF ok2])
      note bucket = world_okD(6) [OF ok2]
      obtain joined where sh: "FetchChunkShared (ce_store e) (w_backend w2) (ce_flights e) (ObjectKey k) (ChunkIndex k) (ce_buf e)
          = (fst ?f, snd ?f, joined)"
        using FetchChunk_pair by blast
      show ?thesis
      proof (cases "snd ?f")
        case (Inl err)
        then have "\<not> chunk_reliable store bucket e"
          using fetch_calm [of store bucket e "w_backend w2" k obj] bucket obj small inside by auto
        with g None none sh Inl ok3 show ?thesis
          by (simp add: resolveChunk_def Let_def w2_def [symmetric])
      next
        case (Inr n)
        have c: "chunk_right store k (take n (fst ?f))"
          by (rule fetch_right [OF env bucket obj small Inr])
        have s: "slice_checked (fst ?f) 0 (int n) = Inr (take n (fst ?f))"
          using shared.fetch_copy [of "ce_store e" "w_backend w2" "ce_flights e" k "ce_buf e" n] Inr
          by (simp add: shared_key_def)
        from g None none sh Inr ok3 s c world_ok_put [OF ok3 c] show ?thesis
          by (simp add: resolveChunk_def Let_def w2_def [symmetric] right)
      qed
    qed
  qed
qed

subsection \<open>All chunks\<close>

lemma world_record_ok:
  assumes "world_ok store bucket baseDir w" and "keeps_open others"
  shows "\<exists>w'. world_record rnd others now key i w = Inr w' \<and> world_ok store bucket baseDir w'"
proof -
  let ?t = "track rnd now key i (w_tracker w)"
  obtain s where s: "Schedule others key (i + 1) (w_pf w, w_reg w) = Inr s" "\<not> jobsClosed (fst s)"
    using schedule_from_open [OF assms(2), of "(w_pf w, w_reg w)" 0 "nat (LookAhead (pcfg (w_pf w)))" key "i + 1"]
      world_okD(7) [OF assms(1)]
    by (auto simp: Schedule_def)
  have "world_ok store bucket baseDir (w\<lparr>w_tracker := t, w_pf := p, w_reg := reg\<rparr>)" if "\<not> jobsClosed p" for t p reg
    using assms(1) that by (simp add: world_ok_def)
  then show ?thesis
    using s assms world_okD(7) [OF assms(1)] by (cases s) (auto simp: world_record_def Record_def Let_def split: prod.splits)
qed

lemma resolve_all_right:
  assumes "world_ok store bucket baseDir w" and nc: "no_collisions store" and obj: "store key = Some obj"
    and "\<And>i. i \<in> set is \<Longrightarrow> env_safe store bucket baseDir \<lparr>ObjectKey = key, ChunkIndex = i\<rparr> (env i)"
    and "\<And>i. i \<in> set is \<Longrightarrow> uint i < 2 ^ 41 \<and> unat i * ChunkSize < length obj"
  shows "\<exists>w' r. resolve_all rnd baseDir env key is cs tr w = Inr (w', r) \<and> world_ok store bucket baseDir w' \<and>
    (case r of Inl err \<Rightarrow> \<exists>i \<in> set is. \<not> chunk_reliable store bucket (env i)
     | Inr (ds, t) \<Rightarrow> ds = cs @ map (\<lambda>i. chunk_of obj (unat i)) is)"
  using assms(1,4,5)
proof (induction "is" arbitrary: cs tr w)
  case (Cons i "is")
  let ?k = "\<lparr>ObjectKey = key, ChunkIndex = i\<rparr>"
  have e0: "env_safe store bucket baseDir ?k (env i)" using Cons.prems(2) by simp
  then have w0: "world_ok store bucket baseDir (ce_others (env i) BeforeChunk w)"
    using Cons.prems(1) by (simp add: env_safe_def)
  have "\<exists>w1 r. resolveChunk baseDir (env i) ?k (ce_others (env i) BeforeChunk w) = Inr (w1, r) \<and>
      world_ok store bucket baseDir w1 \<and>
      (case r of Inl err \<Rightarrow> \<not> chunk_reliable store bucket (env i) | Inr (d, t) \<Rightarrow> d = chunk_of obj (unat i))"
    using resolveChunk_right [OF w0 e0 nc, where obj = obj, unfolded ChunkKey.select_convs] obj Cons.prems(3) [of i]
    by simp
  then obtain w1 r where r: "resolveChunk baseDir (env i) ?k (ce_others (env i) BeforeChunk w) = Inr (w1, r)"
    "world_ok store bucket baseDir w1"
    "case r of Inl err \<Rightarrow> \<not> chunk_reliable store bucket (env i) | Inr (d, t) \<Rightarrow> d = chunk_of obj (unat i)"
    by blast
  show ?case
  proof (cases r)
    case (Inl err)
    with r show ?thesis by simp
  next
    case (Inr x)
    obtain d t where x: "x = (d, t)" "d = chunk_of obj (unat i)"
      using r(3) Inr by (cases x) simp
    have ko: "keeps_open (ce_sched (env i))" using e0 by (simp add: env_safe_def)
    obtain w2 where w2: "world_record rnd (ce_sched (env i)) (ce_now (env i)) key i w1 = Inr w2" "world_ok store bucket baseDir w2"
      using world_record_ok [OF r(2) ko] by blast
    let ?t = "if tierRank t > tierRank tr then t else tr"
    have "\<exists>w' r'. resolve_all rnd baseDir env key is (cs @ [d]) ?t w2 = Inr (w', r') \<and> world_ok store bucket baseDir w' \<and>
      (case r' of Inl err \<Rightarrow> \<exists>i \<in> set is. \<not> chunk_reliable store bucket (env i)
       | Inr (ds, t) \<Rightarrow> ds = (cs @ [d]) @ map (\<lambda>i. chunk_of obj (unat i)) is)"
      by (rule Cons.IH) (use w2(2) Cons.prems(2,3) in simp_all)
    then obtain w' r' where ih: "resolve_all rnd baseDir env key is (cs @ [d]) ?t w2 = Inr (w', r')"
      "world_ok store bucket baseDir w'"
      "case r' of Inl err \<Rightarrow> \<exists>i \<in> set is. \<not> chunk_reliable store bucket (env i)
       | Inr (ds, t) \<Rightarrow> ds = (cs @ [d]) @ map (\<lambda>i. chunk_of obj (unat i)) is"
      by blast
    have "resolve_all rnd baseDir env key (i # is) cs tr w = Inr (w', r')"
      using r(1) Inr x(1) w2(1) ih(1) by (simp add: Let_def)
    with ih(2,3) x(2) show ?thesis
      by (intro exI [of _ w'] exI [of _ r']) (auto split: sum.splits)
  qed
qed auto

subsection \<open>Writing the range\<close>

lemma write_body_append:
  assumes "status r \<noteq> None"
  shows "write_body (x @ y) r =
    (case write_body x r of (r1, n1, f1) \<Rightarrow>
       if f1 then (r1, n1, True)
       else case write_body y r1 of (r2, n2, f2) \<Rightarrow> (r2, n1 + n2, f2))"
  using assms by (auto simp: write_body_def write_header_def Let_def min_def split: option.splits)

lemma write_body_nil: "status r \<noteq> None \<Longrightarrow> write_body [] r = (r, 0, False)"
  by (auto simp: write_body_def write_header_def Let_def split: option.splits)

lemma write_body_status: "status r \<noteq> None \<Longrightarrow> status (fst (write_body d r)) = status r"
  by (simp add: write_body_def write_header_def Let_def split: option.splits)

lemma subslice_chunk:
  assumes "c * ChunkSize \<le> x" and "x \<le> y" and "y \<le> c * ChunkSize + ChunkSize"
  shows "subslice (chunk_of obj c) (x - c * ChunkSize) (y - c * ChunkSize) = subslice obj x y"
proof -
  have "subslice (chunk_of obj c) (x - c * ChunkSize) (y - c * ChunkSize) =
      subslice (drop (c * ChunkSize) obj) (x - c * ChunkSize) (y - c * ChunkSize)"
    unfolding chunk_of_def using assms(3) by (intro subslice_take) simp
  also have "\<dots> = subslice obj x y"
    using assms(1,2) by (simp add: subslice_drop)
  finally show ?thesis .
qed

lemma slice_checked_nat:
  "i \<le> j \<Longrightarrow> j \<le> length xs \<Longrightarrow> slice_checked xs (int i) (int j) = Inr (subslice xs i j)"
  by (simp add: slice_checked_def)

lemma write_one_chunk:
  fixes s e c :: nat
  assumes "s \<le> e" and "e < length obj" and "int (length obj) < 2 ^ 63"
    and "c * ChunkSize \<le> e" and "s < c * ChunkSize + ChunkSize" and "c < 2 ^ 41"
  defines "y \<equiv> min (Suc e) (c * ChunkSize + ChunkSize)"
  shows "write_chunks (int s) (int e) (of_nat c) (chunk_of obj c # cs) r served =
    (case write_body (subslice obj (max s (c * ChunkSize)) y) r of (r', n, failed) \<Rightarrow>
       if failed then Inr (r', i64 (served + int n), True)
       else write_chunks (int s) (int e) (of_nat (Suc c)) cs r' (i64 (served + int n)))"
proof -
  define b where "b = c * ChunkSize"
  have b: "b \<le> e" "s < b + ChunkSize" "y = min (Suc e) (b + ChunkSize)"
    using assms(4,5) by (simp_all add: b_def y_def)
  have uc: "uint (of_nat c :: u64) = int c"
    using assms(6) by (simp add: uint_nat unat_of_nat)
  then have "int64_of (of_nat c) = int c"
    using assms(6) by (simp add: int64_of_small)
  then have "int64_of (of_nat c) * int ChunkSize = int b"
    by (simp add: b_def)
  then have base: "i64 (int64_of (of_nat c) * int ChunkSize) = int b"
    using assms(2,3) b(1) by (simp add: i64_id)
  have start: "(if int s > int b then i64 (int s - int b) else 0) = int (max s b - b)"
    using assms(1-3) by (auto simp: i64_id of_nat_diff max_def)
  have e1: "i64 (i64 (int e - int b) + 1) = int (Suc e - b)"
    using assms(2,3) b(1) by (simp add: i64_id of_nat_diff)
  have len: "length (chunk_of obj c) = min ChunkSize (length obj - b)"
    by (simp add: length_chunk_of b_def)
  have fin: "(if int (Suc e - b) < int (length (chunk_of obj c)) then int (Suc e - b)
      else int (length (chunk_of obj c))) = int (y - b)"
    unfolding len b(3) using assms(2) b(1) by (simp add: min_def) arith
  have y: "max s b < y" "y \<le> b + ChunkSize" "y - b \<le> length (chunk_of obj c)"
    unfolding len b(3) using assms(1,2) b(1,2) ChunkSize_pos by (auto simp: min_def)
  have "slice_checked (chunk_of obj c) (int (max s b - b)) (int (y - b)) =
      Inr (subslice (chunk_of obj c) (max s b - b) (y - b))"
    using y(1) by (intro slice_checked_nat [OF _ y(3)] diff_le_mono) simp
  also have "subslice (chunk_of obj c) (max s b - b) (y - b) = subslice obj (max s b) y"
    using y subslice_chunk [of c "max s b" y obj] by (simp add: b_def)
  finally have sl: "slice_checked (chunk_of obj c) (int (max s b - b)) (int (y - b)) = Inr (subslice obj (max s b) y)" .
  have nxt: "of_nat c + 1 = (of_nat (Suc c) :: u64)"
    by simp
  have ne: "\<not> int (max s b - b) \<ge> int (y - b)"
    using diff_less_mono [OF y(1), of b] by simp
  show ?thesis
    unfolding write_chunks.simps Let_def base start e1 fin if_not_P [OF ne] sl sum.case nxt b_def [symmetric]
    by (rule refl)
qed

lemma subslice_empty: "j \<le> i \<Longrightarrow> subslice xs i j = []"
  by (simp add: subslice_def)

lemma split_out:
  fixes s e c :: nat
  assumes "s < c * ChunkSize + ChunkSize"
  defines "y \<equiv> min (Suc e) (c * ChunkSize + ChunkSize)"
  assumes "max s (c * ChunkSize) \<le> y"
  shows "subslice obj (max s (c * ChunkSize)) (Suc e) =
    subslice obj (max s (c * ChunkSize)) y @ subslice obj (max s (Suc c * ChunkSize)) (Suc e)"
proof (cases "Suc e \<le> c * ChunkSize + ChunkSize")
  case True
  then have "y = Suc e" by (simp add: y_def)
  moreover have "subslice obj (max s (Suc c * ChunkSize)) (Suc e) = []"
    using True by (intro subslice_empty) simp
  ultimately show ?thesis by simp
next
  case False
  then have y: "y = c * ChunkSize + ChunkSize" "y \<le> Suc e" by (simp_all add: y_def)
  have "max s (Suc c * ChunkSize) = y"
    using assms(1) y by simp
  then show ?thesis
    using subslice_append [OF assms(3) y(2), of obj] by simp
qed

lemma write_chunks_range:
  fixes s e c :: nat
  assumes "s \<le> e" and "e < length obj" and "int (length obj) < 2 ^ 63" and "c \<le> Suc (e div ChunkSize)"
    and "c \<le> e div ChunkSize \<longrightarrow> s < c * ChunkSize + ChunkSize" and "status r \<noteq> None" and "i64 served = served"
  shows "write_chunks (int s) (int e) (of_nat c) (map (chunk_of obj) [c ..< Suc (e div ChunkSize)]) r served =
    (case write_body (subslice obj (max s (c * ChunkSize)) (Suc e)) r of (r', n, failed) \<Rightarrow>
       Inr (r', i64 (served + int n), failed))"
  using assms(4-7)
proof (induction "Suc (e div ChunkSize) - c" arbitrary: c r served)
  case 0
  then have c: "c = Suc (e div ChunkSize)" by simp
  then have "subslice obj (max s (c * ChunkSize)) (Suc e) = []"
    using dividend_less_div_times [OF ChunkSize_pos, of e] by (intro subslice_empty) simp
  with 0 c show ?case
    by (simp add: write_body_nil)
next
  case (Suc x)
  let ?b = "c * ChunkSize"
  let ?y = "min (Suc e) (?b + ChunkSize)"
  let ?out1 = "subslice obj (max s ?b) ?y"
  let ?out2 = "subslice obj (max s (Suc c * ChunkSize)) (Suc e)"
  have c: "c \<le> e div ChunkSize" using Suc.hyps(2) by simp
  then have be: "?b \<le> e"
    using div_times_less_eq_dividend [of e ChunkSize] by (meson le_trans mult_le_mono1)
  have sb: "s < ?b + ChunkSize" using Suc.prems(2) c by simp
  have c41: "c < 2 ^ 41"
    using be assms(2,3) by (simp add: ChunkSize_val)
  have "max s ?b \<le> ?y"
    using assms(1) be sb by simp
  then have split: "subslice obj (max s ?b) (Suc e) = ?out1 @ ?out2"
    by (rule split_out [OF sb])
  have list: "map (chunk_of obj) [c ..< Suc (e div ChunkSize)] = chunk_of obj c # map (chunk_of obj) [Suc c ..< Suc (e div ChunkSize)]"
    using c by (simp add: upt_conv_Cons del: upt_Suc)
  obtain r1 n1 f1 where w1: "write_body ?out1 r = (r1, n1, f1)" by (metis prod_cases3)
  have st1: "status r1 \<noteq> None"
    using write_body_status [OF Suc.prems(3), of ?out1] Suc.prems(3) w1 by simp
  have ih: "write_chunks (int s) (int e) (of_nat (Suc c)) (map (chunk_of obj) [Suc c ..< Suc (e div ChunkSize)]) r1 (i64 (served + int n1)) =
    (case write_body ?out2 r1 of (r', n, failed) \<Rightarrow> Inr (r', i64 (i64 (served + int n1) + int n), failed))"
    by (rule Suc.hyps(1)) (use Suc.hyps(2) c sb st1 in auto)
  show ?case
    unfolding list write_one_chunk [OF assms(1-3) be sb c41] w1 split write_body_append [OF Suc.prems(3)] prod.case ih
    by (simp add: add.assoc split: prod.split)
qed

subsection \<open>Range requests\<close>

definition range_env_ok :: "(string \<Rightarrow> bytes option) \<Rightarrow> string \<Rightarrow> string \<Rightarrow> request_env \<Rightarrow> string \<Rightarrow> bool" where
  "range_env_ok store bucket baseDir re key \<longleftrightarrow>
     (\<forall>i. env_ok store bucket baseDir \<lparr>ObjectKey = key, ChunkIndex = i\<rparr> (re_chunk re i)) \<and>
     (case re_head re bucket key of
        Inl e \<Rightarrow> True
      | Inr n \<Rightarrow> \<exists>obj. store key = Some obj \<and> n = Some (int (length obj)))"

definition range_env_safe :: "(string \<Rightarrow> bytes option) \<Rightarrow> string \<Rightarrow> string \<Rightarrow> request_env \<Rightarrow> string \<Rightarrow> bool" where
  "range_env_safe store bucket baseDir re key \<longleftrightarrow>
     (\<forall>i. env_safe store bucket baseDir \<lparr>ObjectKey = key, ChunkIndex = i\<rparr> (re_chunk re i)) \<and>
     (case re_head re bucket key of
        Inl e \<Rightarrow> True
      | Inr n \<Rightarrow> \<exists>obj. store key = Some obj \<and> n = Some (int (length obj)))"

lemma range_env_ok_safe:
  "range_env_ok store bucket baseDir re key \<longleftrightarrow>
     range_env_safe store bucket baseDir re key \<and> (\<forall>i. s3_ranged (ce_store (re_chunk re i)) bucket store)"
  by (auto simp: range_env_ok_def range_env_safe_def env_ok_def)

lemma uint64_chunk:
  assumes "e < n" and "int n < 2 ^ 63"
  shows "uint64_of (int e sdiv int ChunkSize) = of_nat (e div ChunkSize)" and "e div ChunkSize < 2 ^ 41"
proof -
  have "int e sdiv int ChunkSize = int (e div ChunkSize)"
    by (simp add: signed_divide_int_def sgn_if zdiv_int)
  then show "uint64_of (int e sdiv int ChunkSize) = of_nat (e div ChunkSize)"
    by (simp add: uint64_of_def)
  have "e < 2 ^ 41 * ChunkSize"
    using assms by (simp add: ChunkSize_val)
  then show "e div ChunkSize < 2 ^ 41"
    using less_mult_imp_div_less by blast
qed

lemma chunk_indices_nat:
  assumes "x \<le> y" and "y < 2 ^ 41"
  shows "chunk_indices (of_nat x) (of_nat y) = map of_nat [x ..< Suc y]"
proof -
  have "unat (of_nat x :: u64) = x" "unat (of_nat y :: u64) = y"
    using assms by (simp_all add: unat_of_nat)
  moreover have "map (\<lambda>j. of_nat x + of_nat j) [0 ..< Suc y - x] = map (of_nat :: nat \<Rightarrow> u64) (map (\<lambda>j. j + x) [0 ..< Suc y - x])"
    by (simp add: add.commute)
  moreover have "map (\<lambda>j. j + x) [0 ..< Suc y - x] = [x ..< Suc y]"
    using assms(1) by (simp only: map_add_upt) simp
  ultimately show ?thesis
    by (simp only: chunk_indices_def)
qed

end
