(* ===== verification/Range_Requests.thy ===== *)
theory Range_Requests
  imports Handler_Coherence
begin

section \<open>What range requests return\<close>

text \<open>
  The end-to-end properties of \<open>ServeHTTP\<close>: which response each request gets, that a 206 carries
  exactly the requested bytes of the object, that the shared state stays coherent, which tier is
  reported, and that a fully cached range does not need the backend.
\<close>

definition range_response :: "nat option \<Rightarrow> string \<Rightarrow> bytes \<Rightarrow> nat \<Rightarrow> nat \<Rightarrow> tier \<Rightarrow> response" where
  "range_response acc meth obj s e t =
     (let r1 = write_header 206 (range_headers (int s) (int e) (int (length obj)) t (new_response acc))
      in if meth = ''GET'' then fst (write_body (subslice obj s (Suc e)) r1) else r1)"

lemma range_response_fields:
  assumes "s \<le> e" and "int e < 2 ^ 63 - 1"
  shows "status (range_response acc meth obj s e t) = Some 206"
    and "headers (range_response acc meth obj s e t) ''Content-Range'' =
      Some (''bytes '' @ show_int (int s) @ ''-'' @ show_int (int e) @ ''/'' @ show_int (int (length obj)))"
    and "headers (range_response acc meth obj s e t) ''Content-Length'' = Some (show_int (int (Suc e - s)))"
    and "headers (range_response acc meth obj s e t) ''X-Cache-Tier'' = Some (tier_name t)"
    and "body (range_response acc meth obj s e t) =
      (if meth = ''GET'' then case acc of None \<Rightarrow> subslice obj s (Suc e) | Some m \<Rightarrow> take m (subslice obj s (Suc e)) else [])"
proof -
  have "i64 (i64 (int e - int s) + 1) = int (Suc e - s)"
    using assms by (simp add: i64_id of_nat_diff)
  then show "status (range_response acc meth obj s e t) = Some 206"
    and "headers (range_response acc meth obj s e t) ''Content-Range'' =
      Some (''bytes '' @ show_int (int s) @ ''-'' @ show_int (int e) @ ''/'' @ show_int (int (length obj)))"
    and "headers (range_response acc meth obj s e t) ''Content-Length'' = Some (show_int (int (Suc e - s)))"
    and "headers (range_response acc meth obj s e t) ''X-Cache-Tier'' = Some (tier_name t)"
    and "body (range_response acc meth obj s e t) =
      (if meth = ''GET'' then case acc of None \<Rightarrow> subslice obj s (Suc e) | Some m \<Rightarrow> take m (subslice obj s (Suc e)) else [])"
    by (auto simp: range_response_def Let_def write_header_def range_headers_def set_header_def TierHeader_def
        new_response_def write_body_def min_def split: option.split)
qed

lemma serve_range_correct:
  assumes ok: "world_ok store bucket baseDir w" and nc: "no_collisions store" and obj: "store key = Some obj"
    and len: "int (length obj) < 2 ^ 63" and env: "range_env_safe store bucket baseDir re key"
    and se: "s \<le> e" "e < length obj"
  shows "\<exists>w' resp.
    serve_range rnd baseDir re meth key (int (length obj)) (int s) (int e) w (new_response acc) = Inr (w', resp) \<and>
    world_ok store bucket baseDir w' \<and>
    ((\<exists>t. resp = range_response acc meth obj s e t) \<or>
     (resp = http_error ''upstream error'' 502 (new_response acc) \<and> (\<exists>i. \<not> chunk_reliable store bucket (re_chunk re i))))"
proof -
  let ?a = "s div ChunkSize" and ?b = "e div ChunkSize"
  have ab: "?a \<le> ?b" using se(1) by (rule div_le_mono)
  have b41: "?b < 2 ^ 41" and ub: "uint64_of (int e sdiv int ChunkSize) = of_nat ?b"
    using uint64_chunk [OF se(2) len] by simp_all
  have ua: "uint64_of (int s sdiv int ChunkSize) = of_nat ?a"
    using uint64_chunk(1) [of s "length obj"] se len by simp
  let ?is = "chunk_indices (of_nat ?a) (of_nat ?b)"
  have idx: "?is = map of_nat [?a ..< Suc ?b]"
    by (rule chunk_indices_nat [OF ab b41])
  have un: "unat (of_nat c :: u64) = c" if "c < 2 ^ 41" for c
    using that by (simp add: unat_of_nat)
  have inside: "uint i < 2 ^ 41 \<and> unat i * ChunkSize < length obj" if i: "i \<in> set ?is" for i
  proof -
    obtain c where c: "i = of_nat c" "c \<le> ?b" using i by (auto simp: idx)
    then have "c < 2 ^ 41" using b41 by simp
    moreover have "c * ChunkSize \<le> e"
      using c(2) div_times_less_eq_dividend [of e ChunkSize] by (meson le_trans mult_le_mono1)
    ultimately show ?thesis
      using un [of c] se(2) by (simp add: c(1) uint_nat)
  qed
  have "env_safe store bucket baseDir \<lparr>ObjectKey = key, ChunkIndex = i\<rparr> (re_chunk re i)" for i
    using env by (simp add: range_env_safe_def)
  then obtain w1 r where ra: "resolve_all rnd baseDir (re_chunk re) key ?is [] HotTier w = Inr (w1, r)"
    "world_ok store bucket baseDir w1"
    "case r of Inl err \<Rightarrow> \<exists>i \<in> set ?is. \<not> chunk_reliable store bucket (re_chunk re i)
     | Inr (ds, t) \<Rightarrow> ds = [] @ map (\<lambda>i. chunk_of obj (unat i)) ?is"
    using resolve_all_right [OF ok nc obj, of ?is "re_chunk re" rnd "[]" HotTier] inside by blast
  show ?thesis
  proof (cases r)
    case (Inl err)
    with ra show ?thesis
      by (auto simp: serve_range_def Let_def ua ub)
  next
    case (Inr x)
    obtain ds t where x: "x = (ds, t)" by fastforce
    have "map (\<lambda>i. chunk_of obj (unat i)) ?is = map (chunk_of obj) [?a ..< Suc ?b]"
      unfolding idx map_map using un b41 by (intro map_cong) (auto simp: less_Suc_eq_le)
    then have ds: "ds = map (chunk_of obj) [?a ..< Suc ?b]"
      using ra(3) Inr x by simp
    let ?r1 = "write_header 206 (range_headers (int s) (int e) (int (length obj)) t (new_response acc))"
    have st: "status ?r1 \<noteq> None"
      by (simp add: write_header_def)
    have sa: "s < ?a * ChunkSize + ChunkSize"
      using dividend_less_div_times [OF ChunkSize_pos, of s] by simp
    have mx: "max s (?a * ChunkSize) = s"
      using div_times_less_eq_dividend [of s ChunkSize] by simp
    have wr: "write_chunks (int s) (int e) (of_nat ?a) ds ?r1 0 =
        (case write_body (subslice obj s (Suc e)) ?r1 of (r', n, failed) \<Rightarrow> Inr (r', i64 (0 + int n), failed))"
      using write_chunks_range [OF se len, of ?a ?r1 0] ab sa st unfolding ds mx by simp
    obtain r2 n f where wb: "write_body (subslice obj s (Suc e)) ?r1 = (r2, n, f)"
      by (metis prod_cases3)
    then have resp: "range_response acc meth obj s e t = (if meth = ''GET'' then r2 else ?r1)"
      by (simp add: range_response_def Let_def)
    have "\<exists>w'. serve_range rnd baseDir re meth key (int (length obj)) (int s) (int e) w (new_response acc) =
        Inr (w', range_response acc meth obj s e t) \<and> world_ok store bucket baseDir w'"
      unfolding resp using ra(1,2) Inr x wr wb by (simp add: serve_range_def Let_def ua ub)
    then show ?thesis
      by blast
  qed
qed

lemma ObjectSize_right:
  assumes ok: "world_ok store bucket baseDir w" and env: "range_env_safe store bucket baseDir re key"
  obtains b' r where "ObjectSize (re_head re) (w_backend w) key = (b', r)" "world_ok store bucket baseDir (w\<lparr>w_backend := b'\<rparr>)"
    "case r of Inl err \<Rightarrow> \<exists>x. err = HeadFailed key x \<and> re_head re bucket key = Inl x
     | Inr n \<Rightarrow> \<exists>obj. store key = Some obj \<and> n = int (length obj)"
proof -
  have bucket: "Bucket (cfg (w_backend w)) = bucket" by (rule world_okD(6) [OF ok])
  show thesis
  proof (cases "sizes (w_backend w) key")
    case (Some v)
    then have "ObjectSize (re_head re) (w_backend w) key = (w_backend w, Inr v)"
      by (simp add: ObjectSize_def)
    with Some ok show thesis
      using world_okD(5) [OF ok Some] by (intro that) auto
  next
    case None
    show thesis
    proof (cases "re_head re bucket key")
      case (Inl x)
      with None bucket have "ObjectSize (re_head re) (w_backend w) key = (w_backend w, Inl (HeadFailed key x))"
        by (simp add: ObjectSize_def)
      with Inl ok show thesis by (intro that) auto
    next
      case (Inr n)
      with env obtain obj where n: "store key = Some obj" "n = Some (int (length obj))"
        by (auto simp: range_env_safe_def)
      let ?b = "(w_backend w)\<lparr>sizes := (sizes (w_backend w))(key \<mapsto> int (length obj))\<rparr>"
      have "ObjectSize (re_head re) (w_backend w) key = (?b, Inr (int (length obj)))"
        using None bucket Inr n by (simp add: ObjectSize_def Let_def)
      moreover have "world_ok store bucket baseDir (w\<lparr>w_backend := ?b\<rparr>)"
        using ok n(1) by (auto simp: world_ok_def holds_all_def)
      ultimately show thesis
        using n by (intro that) auto
    qed
  qed
qed

subsection \<open>The hot path\<close>

definition quiet :: "chunk_env \<Rightarrow> bool" where
  "quiet e \<longleftrightarrow> (\<forall>p w. ce_others e p w = w) \<and> ce_sched e = alone"

lemma schedule_from_counters:
  "schedule_from alone i n key start s = Inr s' \<Longrightarrow>
     CacheHitTotal (snd s') = CacheHitTotal (snd s) \<and> CacheMissTotal (snd s') = CacheMissTotal (snd s) \<and>
     ColdCacheHitTotal (snd s') = ColdCacheHitTotal (snd s)"
proof (induction n arbitrary: i s)
  case (Suc n)
  obtain p reg where s: "s = (p, reg)" by fastforce
  then obtain p1 sent where sj: "send_job (key, start + of_nat i) p = Inr (p1, sent)"
    using Suc.prems by (auto split: sum.splits)
  let ?s = "(p1, if sent then inc_length (inc_queued reg) else inc_dropped reg)"
  have "schedule_from alone (Suc i) n key start ?s = Inr s'"
    using Suc.prems s sj by (cases sent) simp_all
  from Suc.IH [OF this] s show ?case
    by (cases sent) (simp_all add: inc_length_def inc_queued_def inc_dropped_def)
qed simp

lemma world_record_frame:
  assumes "world_record rnd others now key i w = Inr w'"
  shows "w_hot w' = w_hot w \<and> w_disk w' = w_disk w \<and> w_backend w' = w_backend w \<and> w_spill w' = w_spill w"
  using assms by (auto simp: world_record_def split: sum.splits prod.splits)

lemma world_record_counters:
  assumes "world_record rnd alone now key i w = Inr w'"
  shows "CacheHitTotal (w_reg w') = CacheHitTotal (w_reg w) \<and> CacheMissTotal (w_reg w') = CacheMissTotal (w_reg w) \<and>
    ColdCacheHitTotal (w_reg w') = ColdCacheHitTotal (w_reg w)"
proof -
  obtain t p reg where r: "Record rnd alone now key i (w_tracker w, w_pf w, w_reg w) = Inr (t, p, reg)"
    "w' = w\<lparr>w_tracker := t, w_pf := p, w_reg := reg\<rparr>"
    using assms by (auto simp: world_record_def split: sum.splits prod.splits)
  have "reg = w_reg w \<or> Schedule alone key (i + 1) (w_pf w, w_reg w) = Inr (p, reg)"
    using r(1) by (auto simp: Record_def Let_def map_sum_def split: prod.splits if_splits sum.splits)
  then show ?thesis
    using r(2) schedule_from_counters [of 0 _ key "i + 1" "(w_pf w, w_reg w)" "(p, reg)"] by (auto simp: Schedule_def)
qed

lemma world_record_open:
  assumes "\<not> jobsClosed (w_pf w)" and "keeps_open others"
  shows "\<exists>w'. world_record rnd others now key i w = Inr w' \<and> \<not> jobsClosed (w_pf w')"
proof -
  obtain s where "Schedule others key (i + 1) (w_pf w, w_reg w) = Inr s" "\<not> jobsClosed (fst s)"
    using schedule_from_open [OF assms(2), of "(w_pf w, w_reg w)" 0 "nat (LookAhead (pcfg (w_pf w)))" key "i + 1"] assms(1)
    by (auto simp: Schedule_def)
  then show ?thesis
    using assms(1) by (cases s; cases "track rnd now key i (w_tracker w)") (simp add: world_record_def Record_def)
qed

lemma resolveChunk_counts:
  assumes "resolveChunk baseDir e k w = Inr (w', Inr (d, t))" and "quiet e"
  shows "CacheHitTotal (w_reg w') = CacheHitTotal (w_reg w) + (if t = HotTier then 1 else 0) \<and>
    CacheMissTotal (w_reg w') = CacheMissTotal (w_reg w) + (if t = HotTier then 0 else 1) \<and>
    ColdCacheHitTotal (w_reg w') = ColdCacheHitTotal (w_reg w) + (if t = ColdTier then 1 else 0)"
  using assms
  by (auto simp: resolveChunk_def quiet_def Let_def world_hot_put_def split: prod.splits option.splits sum.splits if_splits)

lemma resolve_all_counts:
  assumes "resolve_all rnd baseDir env key is cs tr w = Inr (w', Inr (ds, t))" and "\<And>i. quiet (env i)"
  shows "\<exists>h m c. CacheHitTotal (w_reg w') = CacheHitTotal (w_reg w) + h \<and>
    CacheMissTotal (w_reg w') = CacheMissTotal (w_reg w) + m \<and>
    ColdCacheHitTotal (w_reg w') = ColdCacheHitTotal (w_reg w) + c \<and>
    h + m = length is \<and> c \<le> m \<and> (t = HotTier \<longleftrightarrow> tr = HotTier \<and> m = 0) \<and> (t \<le> ColdTier \<longleftrightarrow> tr \<le> ColdTier \<and> c = m)"
  using assms(1)
proof (induction "is" arbitrary: cs tr w)
  case (Cons i "is")
  have q: "ce_others (env i) BeforeChunk w = w" "ce_sched (env i) = alone"
    using assms(2) [of i] by (simp_all add: quiet_def)
  obtain w1 d t1 w2 where s: "resolveChunk baseDir (env i) \<lparr>ObjectKey = key, ChunkIndex = i\<rparr> w = Inr (w1, Inr (d, t1))"
    "world_record rnd alone (ce_now (env i)) key i w1 = Inr w2"
    "resolve_all rnd baseDir env key is (cs @ [d]) (if tierRank t1 > tierRank tr then t1 else tr) w2 = Inr (w', Inr (ds, t))"
    using Cons.prems by (auto simp: q Let_def split: sum.splits prod.splits)
  obtain h m c where ih: "CacheHitTotal (w_reg w') = CacheHitTotal (w_reg w2) + h"
    "CacheMissTotal (w_reg w') = CacheMissTotal (w_reg w2) + m"
    "ColdCacheHitTotal (w_reg w') = ColdCacheHitTotal (w_reg w2) + c" "h + m = length is" "c \<le> m"
    "t = HotTier \<longleftrightarrow> (if tierRank t1 > tierRank tr then t1 else tr) = HotTier \<and> m = 0"
    "t \<le> ColdTier \<longleftrightarrow> (if tierRank t1 > tierRank tr then t1 else tr) \<le> ColdTier \<and> c = m"
    using Cons.IH [OF s(3)] by blast
  have one: "CacheHitTotal (w_reg w2) = CacheHitTotal (w_reg w) + (if t1 = HotTier then 1 else 0)"
    "CacheMissTotal (w_reg w2) = CacheMissTotal (w_reg w) + (if t1 = HotTier then 0 else 1)"
    "ColdCacheHitTotal (w_reg w2) = ColdCacheHitTotal (w_reg w) + (if t1 = ColdTier then 1 else 0)"
    using resolveChunk_counts [OF s(1) assms(2)] world_record_counters [OF s(2)] by auto
  show ?case
  proof (intro exI conjI)
    show "CacheHitTotal (w_reg w') = CacheHitTotal (w_reg w) + (h + (if t1 = HotTier then 1 else 0))"
      "CacheMissTotal (w_reg w') = CacheMissTotal (w_reg w) + (m + (if t1 = HotTier then 0 else 1))"
      "ColdCacheHitTotal (w_reg w') = ColdCacheHitTotal (w_reg w) + (c + (if t1 = ColdTier then 1 else 0))"
      using ih(1-3) one by simp_all
    show "h + (if t1 = HotTier then 1 else 0) + (m + (if t1 = HotTier then 0 else 1)) = length (i # is)"
      using ih(4) by simp
    show "c + (if t1 = ColdTier then 1 else 0) \<le> m + (if t1 = HotTier then 0 else 1)"
      using ih(5) by simp
    show "t = HotTier \<longleftrightarrow> tr = HotTier \<and> m + (if t1 = HotTier then 0 else 1) = 0"
      using ih(6) by (cases t1; cases tr) simp_all
    show "t \<le> ColdTier \<longleftrightarrow> tr \<le> ColdTier \<and> c + (if t1 = ColdTier then 1 else 0) = m + (if t1 = HotTier then 0 else 1)"
      using ih(5,7) by (cases t1; cases tr) (simp_all add: less_eq_tier_def)
  qed
qed simp

lemma resolve_all_hot:
  assumes "hot_inv (w_hot w)" and "\<not> jobsClosed (w_pf w)" and "\<And>i. quiet (env i)"
    and "\<And>i. i \<in> set is \<Longrightarrow> hot_lookup (w_hot w) \<lparr>ObjectKey = key, ChunkIndex = i\<rparr> = Some (f i)"
  shows "\<exists>w'. resolve_all rnd baseDir env key is cs tr w = Inr (w', Inr (cs @ map f is, tr)) \<and>
    w_disk w' = w_disk w \<and> w_backend w' = w_backend w \<and> w_spill w' = w_spill w \<and> hot_lookup (w_hot w') = hot_lookup (w_hot w)"
  using assms(1,2,4)
proof (induction "is" arbitrary: cs w)
  case (Cons i "is")
  let ?k = "\<lparr>ObjectKey = key, ChunkIndex = i\<rparr>"
  have q: "ce_others (env i) BeforeChunk w = w" "ce_sched (env i) = alone"
    using assms(3) [of i] by (simp_all add: quiet_def)
  obtain hot1 where g: "hot_get (w_hot w) ?k = (hot1, Some (f i))"
    using hot_get_result [OF Cons.prems(1), of ?k] Cons.prems(3) [of i] by (metis list.set_intros(1) prod.collapse)
  have h1: "hot_inv hot1" "hot_lookup hot1 = hot_lookup (w_hot w)"
    using hot_get_inv [OF Cons.prems(1), of ?k] hot_get_lookup [OF Cons.prems(1), of ?k] g by (auto intro: ext)
  let ?w1 = "w\<lparr>w_hot := hot1, w_reg := (w_reg w)\<lparr>CacheHitTotal := CacheHitTotal (w_reg w) + 1\<rparr>\<rparr>"
  have r: "resolveChunk baseDir (env i) ?k w = Inr (?w1, Inr (f i, HotTier))"
    using g by (simp add: resolveChunk_def Let_def)
  obtain w2 where w2: "world_record rnd alone (ce_now (env i)) key i ?w1 = Inr w2" "\<not> jobsClosed (w_pf w2)"
    using world_record_open [of ?w1 alone rnd "ce_now (env i)" key i] Cons.prems(2) by auto
  note fr = world_record_frame [OF w2(1)]
  have "\<exists>w'. resolve_all rnd baseDir env key is (cs @ [f i]) tr w2 = Inr (w', Inr ((cs @ [f i]) @ map f is, tr)) \<and>
    w_disk w' = w_disk w2 \<and> w_backend w' = w_backend w2 \<and> w_spill w' = w_spill w2 \<and> hot_lookup (w_hot w') = hot_lookup (w_hot w2)"
    by (rule Cons.IH) (use fr h1 w2 Cons.prems(3) in simp_all)
  then show ?case
    using r w2(1) fr h1 q by (auto simp: Let_def)
qed auto

lemma io_copy_all:
  "accepts r = None \<Longrightarrow> status r \<noteq> None \<Longrightarrow> io_copy rd r = r\<lparr>body := body r @ fst (body_bytes rd)\<rparr>"
proof (induction rd r rule: io_copy.induct)
  case (2 d e rd r)
  then show ?case
    by (cases e) (auto simp: write_body_def write_header_def Let_def)
qed simp

subsection \<open>The responses of \<open>ServeHTTP\<close>\<close>

definition request_key :: "request \<Rightarrow> string" where
  "request_key rq = trim_prefix (UrlPath rq) ''/''"

text \<open>What the theorems assume of the surroundings of a request for the object \<open>obj\<close>.\<close>

definition serving ::
  "(string \<Rightarrow> bytes option) \<Rightarrow> string \<Rightarrow> string \<Rightarrow> request_env \<Rightarrow> request \<Rightarrow> world \<Rightarrow> bytes \<Rightarrow> bool" where
  "serving store bucket baseDir re rq w obj \<longleftrightarrow>
     no_collisions store \<and> world_ok store bucket baseDir w \<and> range_env_ok store bucket baseDir re (request_key rq) \<and>
     request_key rq \<noteq> '''' \<and> store (request_key rq) = Some obj \<and> int (length obj) < 2 ^ 63 \<and> RangeHeader rq \<noteq> ''''"

text \<open>The same with a store that may fail and break off.\<close>

definition serving_safe ::
  "(string \<Rightarrow> bytes option) \<Rightarrow> string \<Rightarrow> string \<Rightarrow> request_env \<Rightarrow> request \<Rightarrow> world \<Rightarrow> bytes \<Rightarrow> bool" where
  "serving_safe store bucket baseDir re rq w obj \<longleftrightarrow>
     no_collisions store \<and> world_ok store bucket baseDir w \<and> range_env_safe store bucket baseDir re (request_key rq) \<and>
     request_key rq \<noteq> '''' \<and> store (request_key rq) = Some obj \<and> int (length obj) < 2 ^ 63 \<and> RangeHeader rq \<noteq> ''''"

lemma serving_serving_safe:
  "serving store bucket baseDir re rq w obj \<longleftrightarrow>
     serving_safe store bucket baseDir re rq w obj \<and> (\<forall>i. s3_ranged (ce_store (re_chunk re i)) bucket store)"
  by (auto simp: serving_def serving_safe_def range_env_ok_safe)

lemma ServeHTTP_range:
  assumes s: "serving_safe store bucket baseDir re rq w obj" and m: "Method rq = ''GET'' \<or> Method rq = ''HEAD''"
    and rng: "resolveByteRange (RangeHeader rq) (int (length obj)) = (x, y, ok)"
  obtains (sized) w1 where "world_ok store bucket baseDir w1"
      "ServeHTTP rnd baseDir re rq w =
        (if \<not> ok then Inr (w1, write_header 416 (set_header ''Content-Range''
             (''bytes */'' @ show_int (int (length obj))) (new_response (re_accepts re))))
         else serve_range rnd baseDir re (Method rq) (request_key rq) (int (length obj)) x y w1 (new_response (re_accepts re)))"
    | (unsized) w1 e where "world_ok store bucket baseDir w1" "re_head re bucket (request_key rq) = Inl e"
      "ServeHTTP rnd baseDir re rq w = Inr (w1, http_error ''upstream error'' 502 (new_response (re_accepts re)))"
proof -
  have s': "world_ok store bucket baseDir w" "range_env_safe store bucket baseDir re (request_key rq)"
    "request_key rq \<noteq> ''''" "store (request_key rq) = Some obj" "RangeHeader rq \<noteq> ''''"
    using s by (auto simp: serving_safe_def)
  obtain b' r where os: "ObjectSize (re_head re) (w_backend w) (request_key rq) = (b', r)"
    "world_ok store bucket baseDir (w\<lparr>w_backend := b'\<rparr>)"
    "case r of Inl err \<Rightarrow> \<exists>x. err = HeadFailed (request_key rq) x \<and> re_head re bucket (request_key rq) = Inl x
     | Inr n \<Rightarrow> \<exists>obj. store (request_key rq) = Some obj \<and> n = int (length obj)"
    by (rule ObjectSize_right [OF s'(1,2)])
  show thesis
  proof (cases r)
    case (Inl err)
    with os obtain e where "re_head re bucket (request_key rq) = Inl e" by auto
    moreover have "ServeHTTP rnd baseDir re rq w = Inr (w\<lparr>w_backend := b'\<rparr>, http_error ''upstream error'' 502 (new_response (re_accepts re)))"
      using m s' os Inl by (auto simp: ServeHTTP_def Let_def request_key_def)
    ultimately show thesis
      using os(2) unsized by blast
  next
    case (Inr n)
    then have "n = int (length obj)" using os(3) s'(4) by auto
    with m s' os Inr rng show thesis
      by (intro sized [OF os(2)]) (auto simp: ServeHTTP_def Let_def request_key_def)
  qed
qed

lemma resolve_nat:
  assumes "resolveByteRange h (int n) = (x, y, True)" and "int n < 2 ^ 63"
  shows "x = int (nat x)" and "y = int (nat y)" and "nat x \<le> nat y" and "nat y < n"
  using resolve_bounds [of "int n" h x y] assms by auto

lemma serve_get_exact:
  assumes "serving_safe store bucket baseDir re rq w obj" and "Method rq = ''GET''"
    and "resolveByteRange (RangeHeader rq) (int (length obj)) = (x, y, True)"
    and "\<forall>i. chunk_reliable store bucket (re_chunk re i)" and "\<exists>n. re_head re bucket (request_key rq) = Inr n" and "re_accepts re = None"
  shows "\<exists>w' resp. ServeHTTP rnd baseDir re rq w = Inr (w', resp) \<and> world_ok store bucket baseDir w' \<and>
    status resp = Some 206 \<and> body resp = subslice obj (nat x) (Suc (nat y)) \<and>
    headers resp ''Content-Length'' = Some (show_int (int (length (body resp)))) \<and>
    headers resp ''Content-Range'' =
      Some (''bytes '' @ show_int x @ ''-'' @ show_int y @ ''/'' @ show_int (int (length obj)))"
proof -
  have s: "no_collisions store" "range_env_safe store bucket baseDir re (request_key rq)"
    "store (request_key rq) = Some obj" "int (length obj) < 2 ^ 63"
    using assms(1) by (auto simp: serving_safe_def)
  note xy = resolve_nat [OF assms(3) s(4)]
  show ?thesis
  proof (cases rule: ServeHTTP_range [OF assms(1) disjI1 [OF assms(2)] assms(3), of rnd, case_names sized unsized])
    case (sized w1)
    obtain w' resp where r:
      "serve_range rnd baseDir re ''GET'' (request_key rq) (int (length obj)) (int (nat x)) (int (nat y)) w1 (new_response None) = Inr (w', resp)"
      "world_ok store bucket baseDir w'"
      "(\<exists>t. resp = range_response None ''GET'' obj (nat x) (nat y) t) \<or>
       (resp = http_error ''upstream error'' 502 (new_response None) \<and> (\<exists>i. \<not> chunk_reliable store bucket (re_chunk re i)))"
      using serve_range_correct [OF sized(1) s(1,3,4,2) xy(3,4), of rnd "''GET''" None] by blast
    then obtain t where t: "resp = range_response None ''GET'' obj (nat x) (nat y) t"
      using assms(4) by blast
    have "int (nat y) < 2 ^ 63 - 1" using xy(4) s(4) by linarith
    note f = range_response_fields [OF xy(3) this, of None "''GET''" obj t]
    have "length (subslice obj (nat x) (Suc (nat y))) = Suc (nat y) - nat x"
      using xy(4) by (intro length_subslice) simp
    with sized(2) r f t xy(1,2) assms(2,6) show ?thesis
      by simp
  next
    case (unsized w1 e)
    with assms(5) show ?thesis by simp
  qed
qed

subsection \<open>Properties\<close>

text \<open>
  C3: The proxy is correct on satisfiable ranges: a \<open>GET\<close> whose range resolves to \<open>[x, y]\<close> is
  answered 206 with exactly the bytes \<open>x\<close> to \<open>y\<close> of the object and matching \<open>Content-Length\<close> and
  \<open>Content-Range\<close>, from any coherent state (any mix of hot, cold, in-flight and uncached chunks),
  whatever coherent steps other goroutines take in between; and the shared state stays coherent.
\<close>

theorem range_get_exact:
  assumes "serving store bucket baseDir re rq w obj" and "Method rq = ''GET''"
    and "resolveByteRange (RangeHeader rq) (int (length obj)) = (x, y, True)"
    and "\<forall>i. calm (re_chunk re i)" and "\<exists>n. re_head re bucket (request_key rq) = Inr n" and "re_accepts re = None"
  shows "\<exists>w' resp. ServeHTTP rnd baseDir re rq w = Inr (w', resp) \<and> world_ok store bucket baseDir w' \<and>
    status resp = Some 206 \<and> body resp = subslice obj (nat x) (Suc (nat y)) \<and>
    headers resp ''Content-Length'' = Some (show_int (int (length (body resp)))) \<and>
    headers resp ''Content-Range'' =
      Some (''bytes '' @ show_int x @ ''-'' @ show_int y @ ''/'' @ show_int (int (length obj)))"
proof (rule serve_get_exact)
  show "serving_safe store bucket baseDir re rq w obj" "\<forall>i. chunk_reliable store bucket (re_chunk re i)"
    using assms(1,4) by (auto simp: serving_serving_safe chunk_reliable_def)
qed (use assms in auto)

definition demo_world :: world where
  "demo_world =
     \<lparr>w_hot = NewHotCache 4096 True, w_disk = (\<lambda>_. None), w_backend = demo_backend,
      w_tracker = NewVelocityTracker demo_tracker_cfg, w_pf = demo_prefetcher, w_reg = new_registry, w_spill = []\<rparr>"

definition demo_chunk_env :: chunk_env where
  "demo_chunk_env =
     \<lparr>ce_flights = [], ce_store = s3_sim demo_store, ce_buf = replicate ChunkSize 0, ce_cold = None, ce_now = 0,
      ce_others = (\<lambda>p w. w), ce_sched = alone\<rparr>"

definition demo_env :: request_env where
  "demo_env =
     \<lparr>re_head = (\<lambda>bucket key. case demo_store key of None \<Rightarrow> Inl ''NotFound'' | Some obj \<Rightarrow> Inr (Some (int (length obj)))),
      re_stream = s3_sim demo_store, re_chunk = (\<lambda>i. demo_chunk_env), re_elapsed = 0, re_accepts = None\<rparr>"

definition demo_request :: "string \<Rightarrow> request" where
  "demo_request h = \<lparr>Method = ''GET'', UrlPath = ''/v.mp4'', RangeHeader = h\<rparr>"

lemma demo_serving: "h \<noteq> '''' \<Longrightarrow> serving demo_store ''data'' ''c'' demo_env (demo_request h) demo_world [1, 2, 3, 4, 5]"
  using demo_store_ranged [of "''data''"]
  by (auto simp: serving_def no_collisions_def demo_store_def world_ok_def demo_world_def demo_backend_def
      demo_prefetcher_def holds_all_def cold_at_def range_env_ok_def demo_env_def demo_chunk_env_def intro!: env_okI
      simp: request_key_def demo_request_def trim_prefix_def has_prefix_def split: option.splits)

lemma demo_resolve: "resolveByteRange ''bytes=1-3'' 5 = (1, 3, True)"
  by (simp add: resolveByteRange_def parseByteRange_def parse_int_def parse_uint_def is_digit_def digit_val_def)

theorem range_get_exact_witness:
  "\<exists>w' resp. ServeHTTP (\<lambda>x. x) ''c'' demo_env (demo_request ''bytes=1-3'') demo_world = Inr (w', resp) \<and>
     status resp = Some 206 \<and> body resp = [2, 3, 4]"
proof -
  have "\<exists>w' resp. ServeHTTP (\<lambda>x. x) ''c'' demo_env (demo_request ''bytes=1-3'') demo_world = Inr (w', resp) \<and>
      world_ok demo_store ''data'' ''c'' w' \<and> status resp = Some 206 \<and> body resp = subslice [1, 2, 3, 4, 5] (nat 1) (Suc (nat 3)) \<and>
      headers resp ''Content-Length'' = Some (show_int (int (length (body resp)))) \<and>
      headers resp ''Content-Range'' = Some (''bytes '' @ show_int 1 @ ''-'' @ show_int 3 @ ''/'' @ show_int (int (length [1, 2, 3, 4, 5 :: byte])))"
    by (rule range_get_exact [OF demo_serving])
      (use demo_resolve in \<open>simp_all add: demo_request_def calm_def demo_env_def demo_chunk_env_def demo_store_def
        request_key_def trim_prefix_def has_prefix_def\<close>)
  moreover have "subslice [1, 2, 3, 4, 5 :: byte] (nat 1) (Suc (nat 3)) = [2, 3, 4]"
    by (simp add: subslice_def eval_nat_numeral)
  ultimately show ?thesis
    by auto
qed

text \<open>
  C4: Whatever goes wrong that the code notices, a ranged request never gets wrong data: for every \<open>GET\<close> or \<open>HEAD\<close>
  with a \<open>Range\<close> header, from any coherent state, with GETs of chunks that fail or break off with an error in the
  middle, cancelled fetches, a failing size lookup and a client that stops reading at any point, the handler does not
  panic, keeps the state coherent, and answers 206 with exactly the requested bytes up to where the client stopped
  reading, or 416 for an unsatisfiable or malformed range, or 502 with the error text only, and that only if the size
  lookup failed or some fetch was not reliable. (A transfer that ends with \<^verbatim>\<open>io.ErrUnexpectedEOF\<close> is not noticed by
  \<open>fetchChunk\<close>; what happens then is C27.)
\<close>

theorem range_request_never_wrong:
  assumes "serving_safe store bucket baseDir re rq w obj" and "Method rq = ''GET'' \<or> Method rq = ''HEAD''"
    and "resolveByteRange (RangeHeader rq) (int (length obj)) = (x, y, ok)"
  shows "\<exists>w' resp. ServeHTTP rnd baseDir re rq w = Inr (w', resp) \<and> world_ok store bucket baseDir w' \<and>
    ((status resp = Some 206 \<and> ok \<and>
       body resp = (if Method rq = ''GET''
         then case re_accepts re of None \<Rightarrow> subslice obj (nat x) (Suc (nat y))
              | Some m \<Rightarrow> take m (subslice obj (nat x) (Suc (nat y)))
         else [])) \<or>
     (status resp = Some 416 \<and> \<not> ok \<and> body resp = []) \<or>
     (status resp = Some 502 \<and> (\<exists>m. body resp = take m (bytes_of (''upstream error'' @ [char_of (10 :: nat)]))) \<and>
       ((\<exists>err. re_head re bucket (request_key rq) = Inl err) \<or> (\<exists>i. \<not> chunk_reliable store bucket (re_chunk re i)))))"
proof -
  have s: "no_collisions store" "range_env_safe store bucket baseDir re (request_key rq)"
    "store (request_key rq) = Some obj" "int (length obj) < 2 ^ 63"
    using assms(1) by (auto simp: serving_safe_def)
  let ?err = "http_error ''upstream error'' 502 (new_response (re_accepts re))"
  have err: "status ?err = Some 502 \<and> (\<exists>m. body ?err = take m (bytes_of (''upstream error'' @ [char_of (10 :: nat)])))"
  proof (cases "re_accepts re")
    case None
    then show ?thesis
      by (auto simp: http_error_def Let_def write_header_def set_header_def new_response_def write_body_def
          intro: exI [of _ "length (bytes_of (''upstream error'' @ [char_of (10 :: nat)]))"])
  qed (auto simp: http_error_def Let_def write_header_def set_header_def new_response_def write_body_def)
  show ?thesis
  proof (cases rule: ServeHTTP_range [OF assms(1-3), of rnd, case_names sized unsized])
    case (sized w1)
    show ?thesis
    proof (cases ok)
      case True
      have rng: "resolveByteRange (RangeHeader rq) (int (length obj)) = (x, y, True)"
        using assms(3) True by simp
      note xy = resolve_nat [OF rng s(4)]
      obtain w' resp where r:
        "serve_range rnd baseDir re (Method rq) (request_key rq) (int (length obj)) (int (nat x)) (int (nat y)) w1
           (new_response (re_accepts re)) = Inr (w', resp)"
        "world_ok store bucket baseDir w'"
        "(\<exists>t. resp = range_response (re_accepts re) (Method rq) obj (nat x) (nat y) t) \<or>
         (resp = ?err \<and> (\<exists>i. \<not> chunk_reliable store bucket (re_chunk re i)))"
        using serve_range_correct [OF sized(1) s(1,3,4,2) xy(3,4), of rnd "Method rq" "re_accepts re"] by blast
      have "int (nat y) < 2 ^ 63 - 1" using xy(4) s(4) by linarith
      note f = range_response_fields [OF xy(3) this, of "re_accepts re" "Method rq" obj]
      show ?thesis
        using sized(2) r f(1,5) err True xy(1,2) by auto
    next
      case False
      with sized show ?thesis
        by (auto simp: write_header_def set_header_def new_response_def)
    qed
  next
    case (unsized w1 e)
    with err show ?thesis by auto
  qed
qed

text \<open>A store whose every transfer breaks off half way.\<close>

definition breaking_env :: request_env where
  "breaking_env = demo_env\<lparr>re_chunk := (\<lambda>i. demo_chunk_env\<lparr>ce_store :=
     (\<lambda>b key r. map_sum id (\<lambda>out. out\<lparr>Body := [(take 2 (fst (body_bytes (Body out))), Some (ReadError ''reset''))]\<rparr>)
        (s3_sim demo_store b key r))\<rparr>)\<rparr>"

lemma breaking_honest:
  assumes "s3_ranged f bucket store"
  shows "s3_honest (\<lambda>b key r. map_sum id (\<lambda>out. out\<lparr>Body := [(take n (fst (body_bytes (Body out))), Some (ReadError msg))]\<rparr>)
    (f b key r)) bucket store"
  using assms unfolding s3_ranged_def s3_honest_def by (fastforce split: sum.splits)

lemma breaking_serving: "h \<noteq> '''' \<Longrightarrow> serving_safe demo_store ''data'' ''c'' breaking_env (demo_request h) demo_world [1, 2, 3, 4, 5]"
  using demo_serving [of h] breaking_honest [OF demo_store_ranged [of "''data''"], of 2 "''reset''"]
  by (auto simp: serving_serving_safe serving_safe_def range_env_safe_def env_safe_def breaking_env_def demo_env_def)

theorem range_request_never_wrong_witness:
  "\<exists>w' resp. ServeHTTP (\<lambda>x. x) ''c'' breaking_env (demo_request ''bytes=1-3'') demo_world = Inr (w', resp) \<and>
     (body resp = [2, 3, 4] \<or> status resp = Some 502)"
proof -
  have "resolveByteRange (RangeHeader (demo_request ''bytes=1-3'')) (int (length [1, 2, 3, 4, 5 :: byte])) = (1, 3, True)"
    using demo_resolve by (simp add: demo_request_def)
  moreover have "subslice [1, 2, 3, 4, 5 :: byte] (nat 1) (Suc (nat 3)) = [2, 3, 4]"
    by (simp add: subslice_def eval_nat_numeral)
  moreover have "re_accepts breaking_env = None" by (simp add: breaking_env_def demo_env_def)
  ultimately show ?thesis
    using range_request_never_wrong [OF breaking_serving, of "''bytes=1-3''" 1 3 True "\<lambda>x. x"]
    by (fastforce simp: demo_request_def)
qed

text \<open>
  A fully cached range needs no backend: when the size is known and every chunk of the range is in
  the hot cache, a \<open>GET\<close> is answered 206 with those bytes and tier \<open>hot\<close>, whatever the store, the
  cold cache and the pool would do, without touching disk, sizes or pending evictions.
\<close>

lemma hot_range_needs_no_backend:
  assumes "hot_inv (w_hot w)" and "\<not> jobsClosed (w_pf w)" and "\<forall>i. quiet (re_chunk re i)"
    and "Method rq = ''GET''" and "request_key rq \<noteq> ''''" and "RangeHeader rq \<noteq> ''''" and "int (length obj) < 2 ^ 63"
    and "sizes (w_backend w) (request_key rq) = Some (int (length obj))"
    and "resolveByteRange (RangeHeader rq) (int (length obj)) = (int s, int e, True)"
    and "\<forall>c. s div ChunkSize \<le> c \<longrightarrow> c \<le> e div ChunkSize \<longrightarrow>
      hot_lookup (w_hot w) \<lparr>ObjectKey = request_key rq, ChunkIndex = of_nat c\<rparr> = Some (chunk_of obj c)"
  shows "\<exists>w'. ServeHTTP rnd baseDir re rq w = Inr (w', range_response (re_accepts re) ''GET'' obj s e HotTier) \<and>
    w_disk w' = w_disk w \<and> w_backend w' = w_backend w \<and> w_spill w' = w_spill w \<and>
    hot_lookup (w_hot w') = hot_lookup (w_hot w)"
proof -
  let ?acc = "re_accepts re" and ?key = "request_key rq"
  have se: "s \<le> e" "e < length obj"
    using resolve_bounds [OF _ assms(9)] assms(7) by auto
  let ?a = "s div ChunkSize" and ?b = "e div ChunkSize"
  have ab: "?a \<le> ?b" using se(1) by (rule div_le_mono)
  have b41: "?b < 2 ^ 41" and ub: "uint64_of (int e sdiv int ChunkSize) = of_nat ?b"
    using uint64_chunk [OF se(2) assms(7)] by simp_all
  have ua: "uint64_of (int s sdiv int ChunkSize) = of_nat ?a"
    using uint64_chunk(1) [of s "length obj"] se assms(7) by simp
  let ?is = "chunk_indices (of_nat ?a) (of_nat ?b)"
  have idx: "?is = map of_nat [?a ..< Suc ?b]"
    by (rule chunk_indices_nat [OF ab b41])
  have un: "unat (of_nat c :: u64) = c" if "c < Suc ?b" for c
    using that b41 by (simp add: unat_of_nat)
  have hit: "hot_lookup (w_hot w) \<lparr>ObjectKey = ?key, ChunkIndex = i\<rparr> = Some (chunk_of obj (unat i))" if "i \<in> set ?is" for i
    using that assms(10) un by (auto simp: idx)
  obtain w1 where ra: "resolve_all rnd baseDir (re_chunk re) ?key ?is [] HotTier w =
      Inr (w1, Inr ([] @ map (\<lambda>i. chunk_of obj (unat i)) ?is, HotTier))"
    "w_disk w1 = w_disk w" "w_backend w1 = w_backend w" "w_spill w1 = w_spill w" "hot_lookup (w_hot w1) = hot_lookup (w_hot w)"
    using resolve_all_hot [OF assms(1,2), of "re_chunk re" ?is ?key "\<lambda>i. chunk_of obj (unat i)" rnd baseDir "[]" HotTier]
      assms(3) hit by blast
  have ds: "[] @ map (\<lambda>i. chunk_of obj (unat i)) ?is = map (chunk_of obj) [?a ..< Suc ?b]"
    unfolding idx map_map append_Nil using un by (intro map_cong) auto
  let ?r1 = "write_header 206 (range_headers (int s) (int e) (int (length obj)) HotTier (new_response ?acc))"
  have st: "status ?r1 \<noteq> None"
    by (simp add: write_header_def)
  have sa: "s < ?a * ChunkSize + ChunkSize"
    using dividend_less_div_times [OF ChunkSize_pos, of s] by simp
  have mx: "max s (?a * ChunkSize) = s"
    using div_times_less_eq_dividend [of s ChunkSize] by simp
  have wr: "write_chunks (int s) (int e) (of_nat ?a) (map (chunk_of obj) [?a ..< Suc ?b]) ?r1 0 =
      (case write_body (subslice obj s (Suc e)) ?r1 of (r', n, failed) \<Rightarrow> Inr (r', i64 (0 + int n), failed))"
    using write_chunks_range [OF se assms(7), of ?a ?r1 0] ab sa st unfolding mx by simp
  obtain r2 n f where wb: "write_body (subslice obj s (Suc e)) ?r1 = (r2, n, f)"
    by (metis prod_cases3)
  have "w\<lparr>w_backend := w_backend w\<rparr> = w" by simp
  then have "ServeHTTP rnd baseDir re rq w =
      serve_range rnd baseDir re ''GET'' ?key (int (length obj)) (int s) (int e) w (new_response ?acc)"
    using assms(4-6,8,9) by (simp add: ServeHTTP_def Let_def request_key_def ObjectSize_def)
  moreover have "\<exists>w'. serve_range rnd baseDir re ''GET'' ?key (int (length obj)) (int s) (int e) w (new_response ?acc) =
      Inr (w', r2) \<and> w_disk w' = w_disk w \<and> w_backend w' = w_backend w \<and> w_spill w' = w_spill w \<and>
      hot_lookup (w_hot w') = hot_lookup (w_hot w)"
    using ra wr wb unfolding ds by (simp add: serve_range_def Let_def ua ub)
  ultimately show ?thesis
    using wb by (simp add: range_response_def Let_def)
qed

lemma demo_resolve_run:
  "\<exists>w' ds t. resolve_all (\<lambda>x. x) ''c'' (\<lambda>i. demo_chunk_env) ''v.mp4'' [0] [] HotTier demo_world = Inr (w', Inr (ds, t))"
proof -
  let ?e = "\<lambda>i :: u64. demo_chunk_env"
  have "\<exists>w' r. resolve_all (\<lambda>x. x) ''c'' ?e ''v.mp4'' [0] [] HotTier demo_world = Inr (w', r) \<and>
      world_ok demo_store ''data'' ''c'' w' \<and>
      (case r of Inl err \<Rightarrow> \<exists>i \<in> set [0]. \<not> chunk_reliable demo_store ''data'' (?e i)
       | Inr (ds, t) \<Rightarrow> ds = [] @ map (\<lambda>i. chunk_of [1, 2, 3, 4, 5] (unat i)) [0 :: u64])"
    by (rule resolve_all_right)
      (use demo_serving [of "''x''"] in \<open>auto simp: serving_serving_safe serving_safe_def demo_store_def range_env_safe_def demo_env_def demo_request_def
        request_key_def trim_prefix_def has_prefix_def\<close>)
  then obtain w' q where q: "resolve_all (\<lambda>x. x) ''c'' ?e ''v.mp4'' [0] [] HotTier demo_world = Inr (w', q)"
    "case q of Inl err \<Rightarrow> \<exists>i \<in> set [0 :: u64]. \<not> chunk_reliable demo_store ''data'' demo_chunk_env
     | Inr (ds, t) \<Rightarrow> ds = [] @ map (\<lambda>i. chunk_of [1, 2, 3, 4, 5] (unat i)) [0 :: u64]"
    by blast
  have "chunk_reliable demo_store ''data'' demo_chunk_env"
    using demo_store_ranged by (simp add: chunk_reliable_def calm_def demo_chunk_env_def)
  with q(2) obtain x where "q = Inr x"
    by (cases q) auto
  with q(1) obtain ds t where "resolve_all (\<lambda>x. x) ''c'' ?e ''v.mp4'' [0] [] HotTier demo_world = Inr (w', Inr (ds, t))"
    by (cases x) blast
  then show ?thesis by blast
qed

text \<open>
  The tier reported to the client is that of the slowest chunk: with no concurrent requests, the
  hot hits and misses counted while a range is resolved add up to its chunks, the tier is \<open>hot\<close>
  exactly when there was no miss, and at most \<open>cold\<close> exactly when every miss was a cold hit.
\<close>

lemma reported_tier_is_slowest:
  assumes "resolve_all rnd baseDir env key is [] HotTier w = Inr (w', Inr (ds, t))" and "\<forall>i. quiet (env i)"
  shows "\<exists>h m c. CacheHitTotal (w_reg w') = CacheHitTotal (w_reg w) + h \<and>
    CacheMissTotal (w_reg w') = CacheMissTotal (w_reg w) + m \<and>
    ColdCacheHitTotal (w_reg w') = ColdCacheHitTotal (w_reg w) + c \<and>
    h + m = length is \<and> c \<le> m \<and> (t = HotTier \<longleftrightarrow> m = 0) \<and> (t \<le> ColdTier \<longleftrightarrow> c = m)"
  using resolve_all_counts [OF assms(1)] assms(2) by (simp add: less_eq_tier_def)

text \<open>
  C27: A broken transfer poisons the cache: if the store's answer for an uncached chunk breaks off after
  the bytes \<open>d\<close>, the handler takes \<open>d\<close> for the chunk, returns it without error, and keeps it in the
  hot cache, where later requests find it.
\<close>

theorem broken_transfer_is_cached:
  assumes "hot_inv (w_hot w)" and "hot_lookup (w_hot w) k = None" and "quiet e"
    and "cold_get (ce_cold e) baseDir (w_disk w) k = None" and "ce_flights e = []"
    and "ce_store e = (\<lambda>b key r. Inr \<lparr>Body = [(d, Some ErrUnexpectedEOF)], ContentType = None\<rparr>)"
    and "length (ce_buf e) = ChunkSize" and "length d \<le> ChunkSize"
  shows "\<exists>w'. resolveChunk baseDir e k w = Inr (w', Inr (d, BackendTier)) \<and> hot_lookup (w_hot w') k = Some d"
proof -
  obtain hot1 where g: "hot_get (w_hot w) k = (hot1, None)"
    using hot_get_result [OF assms(1), of k] assms(2) by (metis prod.collapse)
  have h1: "hot_inv hot1"
    using hot_get_inv [OF assms(1), of k] g by simp
  let ?w3 = "w\<lparr>w_hot := hot1, w_reg := (w_reg w)\<lparr>CacheMissTotal := CacheMissTotal (w_reg w) + 1\<rparr>\<rparr>"
  have "resolveChunk baseDir e k w = Inr (world_hot_put k d ?w3, Inr (d, BackendTier))"
    using g assms(3-8) by (simp add: resolveChunk_def Let_def quiet_def fetchChunk_unfold slice_checked_def subslice_def)
  moreover have "hot_lookup (w_hot (world_hot_put k d ?w3)) k = Some d"
    using hot.put_same [OF h1, of k d] by (simp add: world_hot_put_def split_beta)
  ultimately show ?thesis by blast
qed

theorem broken_transfer_is_cached_witness:
  "\<exists>w'. resolveChunk ''c'' (demo_chunk_env\<lparr>ce_store := (\<lambda>b key r. Inr \<lparr>Body = [([], Some ErrUnexpectedEOF)], ContentType = None\<rparr>)\<rparr>)
       \<lparr>ObjectKey = ''v.mp4'', ChunkIndex = 0\<rparr> demo_world = Inr (w', Inr ([], BackendTier)) \<and>
     hot_lookup (w_hot w') \<lparr>ObjectKey = ''v.mp4'', ChunkIndex = 0\<rparr> = Some []"
  by (rule broken_transfer_is_cached)
    (simp_all add: demo_world_def demo_chunk_env_def quiet_def cold_get_def)

text \<open>
  A plain \<open>GET\<close> streams the object past the caches: it changes none of the shared state, and a
  client that reads everything gets 200 with exactly the bytes the store delivered, also when the
  store's transfer broke off in the middle.
\<close>

lemma full_get_streams:
  assumes "Method rq = ''GET''" and "RangeHeader rq = ''''" and "request_key rq \<noteq> ''''" and "re_accepts re = None"
  shows "\<exists>resp. ServeHTTP rnd baseDir re rq w = Inr (w, resp) \<and>
    (case re_stream re (Bucket (cfg (w_backend w))) (request_key rq) None of
       Inl err \<Rightarrow> status resp = Some 502
     | Inr out \<Rightarrow> status resp = Some 200 \<and> body resp = fst (body_bytes (Body out)))"
proof -
  have "io_copy rd (write_header 200 (new_response None)) =
      (write_header 200 (new_response None))\<lparr>body := fst (body_bytes rd)\<rparr>"
    and "io_copy rd (write_header 200 (set_header h v (new_response None))) =
      (write_header 200 (set_header h v (new_response None)))\<lparr>body := fst (body_bytes rd)\<rparr>" for rd h v
    by (subst io_copy_all; simp add: write_header_def set_header_def new_response_def)+
  then show ?thesis
    using assms
    by (auto simp: ServeHTTP_def Let_def request_key_def proxyFull_def GetObjectStream_def http_error_def write_header_def
        set_header_def new_response_def write_body_def split: sum.split)
qed

end
