(* ===== verification/Buffer_Pool.thy ===== *)
theory Buffer_Pool
  imports Prelude
begin

section \<open>The buffer pool\<close>

text \<open>
  \<^verbatim>\<open>BufferPool\<close> of \<^verbatim>\<open>internal/cache/pool.go\<close>. A \<^verbatim>\<open>*[]byte\<close> is an address; the slice header it points
  to is a \<open>buffer\<close> (the backing array, whose length is the capacity, and the length of the slice).
  \<^verbatim>\<open>sync.Pool.Get\<close> returns any one of the items put back, or a new one: which of them is the argument
  \<open>choice\<close> (an index into the idle items; anything else means \<^verbatim>\<open>New\<close>, also after the garbage
  collector dropped the items). \<open>pool_reach\<close> is the use the callers make of it: each holder writes
  to, or reslices, only buffers it holds, and puts back only those.
\<close>

record buffer =
  backing :: bytes
  blen :: nat

record BufferPool =
  cells :: "nat \<Rightarrow> buffer"
  idle :: "nat list"
  fresh :: nat

definition NewBufferPool :: BufferPool where
  "NewBufferPool = \<lparr>cells = (\<lambda>_. \<lparr>backing = [], blen = 0\<rparr>), idle = [], fresh = 0\<rparr>"

text \<open>The \<^verbatim>\<open>New\<close> function: a zeroed slice of \<^verbatim>\<open>ChunkSize\<close> bytes.\<close>

definition new_buffer :: buffer where
  "new_buffer = \<lparr>backing = replicate ChunkSize 0, blen = ChunkSize\<rparr>"

definition sync_pool_get :: "nat option \<Rightarrow> BufferPool \<Rightarrow> nat \<times> BufferPool" where
  "sync_pool_get choice p =
     (case choice of
        Some i \<Rightarrow>
          if i < length (idle p)
          then (idle p ! i, p\<lparr>idle := take i (idle p) @ drop (Suc i) (idle p)\<rparr>)
          else (fresh p, p\<lparr>cells := (cells p)(fresh p := new_buffer), fresh := Suc (fresh p)\<rparr>)
      | None \<Rightarrow> (fresh p, p\<lparr>cells := (cells p)(fresh p := new_buffer), fresh := Suc (fresh p)\<rparr>))"

definition pool_get :: "nat option \<Rightarrow> BufferPool \<Rightarrow> go_panic + nat \<times> BufferPool" where
  "pool_get choice p =
     (let (a, p1) = sync_pool_get choice p; b = cells p1 a
      in if ChunkSize \<le> length (backing b)
         then Inr (a, p1\<lparr>cells := (cells p1)(a := b\<lparr>blen := ChunkSize\<rparr>)\<rparr>)
         else Inl SliceBounds)"

definition pool_put :: "nat \<Rightarrow> BufferPool \<Rightarrow> BufferPool" where
  "pool_put a p = p\<lparr>idle := a # idle p\<rparr>"

subsection \<open>Histories of holders\<close>

inductive pool_reach :: "BufferPool \<Rightarrow> nat set \<Rightarrow> bool" where
  start: "pool_reach NewBufferPool {}"
| get: "pool_reach p held \<Longrightarrow> pool_get choice p = Inr (a, p') \<Longrightarrow> pool_reach p' (insert a held)"
| put: "pool_reach p held \<Longrightarrow> a \<in> held \<Longrightarrow> pool_reach (pool_put a p) (held - {a})"
| use: "pool_reach p held \<Longrightarrow> a \<in> held \<Longrightarrow> length ws = length (backing (cells p a)) \<Longrightarrow> n \<le> length ws \<Longrightarrow>
    pool_reach (p\<lparr>cells := (cells p)(a := \<lparr>backing = ws, blen = n\<rparr>)\<rparr>) held"

definition pool_inv :: "BufferPool \<Rightarrow> nat set \<Rightarrow> bool" where
  "pool_inv p held \<longleftrightarrow>
     distinct (idle p) \<and> set (idle p) \<inter> held = {} \<and> set (idle p) \<union> held \<subseteq> {..< fresh p} \<and>
     (\<forall>a < fresh p. length (backing (cells p a)) = ChunkSize)"

lemma take_drop_nth_set:
  assumes "distinct xs" and "i < length xs"
  shows "set (take i xs @ drop (Suc i) xs) = set xs - {xs ! i}" and "distinct (take i xs @ drop (Suc i) xs)"
proof -
  have e: "xs = take i xs @ xs ! i # drop (Suc i) xs"
    using assms(2) by (rule id_take_nth_drop)
  then have d: "distinct (take i xs @ xs ! i # drop (Suc i) xs)"
    using assms(1) by metis
  have "set xs = set (take i xs @ xs ! i # drop (Suc i) xs)"
    using e by metis
  then show "set (take i xs @ drop (Suc i) xs) = set xs - {xs ! i}"
    using d by auto
  show "distinct (take i xs @ drop (Suc i) xs)"
    using d by simp
qed

lemma pool_get_total:
  assumes "pool_inv p held"
  obtains a p' where "pool_get choice p = Inr (a, p')" "a \<notin> held"
    "cells p' a = \<lparr>backing = backing (cells p' a), blen = ChunkSize\<rparr>" "length (backing (cells p' a)) = ChunkSize"
    "\<forall>b \<in> held. cells p' b = cells p b" "pool_inv p' (insert a held)"
proof (cases "\<exists>i. choice = Some i \<and> i < length (idle p)")
  case True
  then obtain i where i: "choice = Some i" "i < length (idle p)" by blast
  let ?a = "idle p ! i"
  let ?p = "p\<lparr>idle := take i (idle p) @ drop (Suc i) (idle p), cells := (cells p)(?a := (cells p ?a)\<lparr>blen := ChunkSize\<rparr>)\<rparr>"
  have a: "?a \<in> set (idle p)" using i by simp
  then have len: "length (backing (cells p ?a)) = ChunkSize" and "?a \<notin> held" "?a < fresh p"
    using assms by (auto simp: pool_inv_def)
  have "pool_get choice p = Inr (?a, ?p)"
    using i len by (simp add: pool_get_def sync_pool_get_def)
  moreover have "pool_inv ?p (insert ?a held)"
    using assms len i \<open>?a < fresh p\<close> take_drop_nth_set [of "idle p" i] by (auto simp: pool_inv_def)
  ultimately show thesis
    using len \<open>?a \<notin> held\<close> by (intro that) auto
next
  case False
  let ?a = "fresh p"
  let ?p = "p\<lparr>cells := (cells p)(?a := new_buffer), fresh := Suc ?a\<rparr>"
  have "sync_pool_get choice p = (?a, ?p)"
    using False by (auto simp: sync_pool_get_def split: option.split)
  then have "pool_get choice p = Inr (?a, ?p)"
    by (simp add: pool_get_def new_buffer_def)
  moreover have "pool_inv ?p (insert ?a held)"
    using assms by (auto simp: pool_inv_def new_buffer_def less_Suc_eq)
  moreover have "?a \<notin> held"
    using assms by (auto simp: pool_inv_def)
  ultimately show thesis
    by (intro that) (auto simp: new_buffer_def)
qed

lemma pool_reach_inv: "pool_reach p held \<Longrightarrow> pool_inv p held"
proof (induction rule: pool_reach.induct)
  case start
  show ?case by (simp add: pool_inv_def NewBufferPool_def)
next
  case (get p held choice a p')
  then show ?case
    by (metis Inr_inject Pair_inject pool_get_total)
next
  case (put p held a)
  then show ?case by (auto simp: pool_inv_def pool_put_def)
next
  case (use p held a ws n)
  then show ?case by (auto simp: pool_inv_def)
qed

subsection \<open>Properties\<close>

text \<open>
  C23: Whatever the history of gets, puts, writes and reslicings by the current holders, and whichever
  idle buffer the runtime picks, \<open>Get\<close> never panics and hands out a buffer that no other holder has,
  sliced to exactly \<open>ChunkSize\<close> bytes, leaving every held buffer as it was.
\<close>

theorem pool_get_exclusive:
  assumes "pool_reach p held"
  shows "\<exists>a p'. pool_get choice p = Inr (a, p') \<and> a \<notin> held \<and> blen (cells p' a) = ChunkSize \<and>
    length (backing (cells p' a)) = ChunkSize \<and> (\<forall>b \<in> held. cells p' b = cells p b)"
proof -
  obtain a p' where "pool_get choice p = Inr (a, p')" "a \<notin> held"
    "cells p' a = \<lparr>backing = backing (cells p' a), blen = ChunkSize\<rparr>" "length (backing (cells p' a)) = ChunkSize"
    "\<forall>b \<in> held. cells p' b = cells p b"
    using pool_get_total [OF pool_reach_inv [OF assms], of choice] by blast
  then show ?thesis
    by (metis buffer.select_convs(2))
qed

text \<open>One holder took a buffer, shrank its slice and put it back; the next one gets it at full length.\<close>

lemma pool_reuse_run:
  "\<exists>p. pool_reach p {} \<and> idle p = [0] \<and> blen (cells p 0) = 1"
proof -
  let ?p1 = "NewBufferPool\<lparr>cells := (cells NewBufferPool)(0 := new_buffer), fresh := 1\<rparr>"
  let ?p2 = "?p1\<lparr>cells := (cells ?p1)(0 := \<lparr>backing = replicate ChunkSize 7, blen = 1\<rparr>)\<rparr>"
  have "pool_get None NewBufferPool = Inr (0, ?p1)"
    by (simp add: pool_get_def sync_pool_get_def NewBufferPool_def new_buffer_def)
  then have r1: "pool_reach ?p1 {0}"
    by (rule pool_reach.get [OF pool_reach.start])
  have r2: "pool_reach ?p2 {0}"
    by (rule pool_reach.use [OF r1]) (simp_all add: new_buffer_def Suc_le_eq)
  have "pool_reach (pool_put 0 ?p2) ({0} - {0})"
    by (rule pool_reach.put [OF r2]) simp
  then show ?thesis
    by (intro exI [of _ "pool_put 0 ?p2"]) (simp add: pool_put_def NewBufferPool_def)
qed

theorem pool_get_exclusive_witness:
  "\<exists>p. pool_reach p {} \<and> blen (cells p 0) = 1 \<and>
     (\<exists>a p'. pool_get (Some 0) p = Inr (a, p') \<and> blen (cells p' a) = ChunkSize)"
proof -
  obtain p where p: "pool_reach p {}" "blen (cells p 0) = 1"
    using pool_reuse_run by blast
  show ?thesis
    using p pool_get_exclusive [OF p(1), of "Some 0"] by blast
qed

end
