(* ===== verification/System.thy ===== *)
theory System
  imports Range_Requests Buffer_Pool
begin

section \<open>The whole proxy\<close>

text \<open>
  The wiring of \<^verbatim>\<open>cmd/proxy/main.go\<close> (configuration, construction of the components in order, the
  fatal exits, the three servers) and the steps of the running system: requests, prefetch workers,
  and the goroutines \<^verbatim>\<open>evictOnHot\<close> starts, which write evicted chunks to the cold cache. The file
  system, the YAML decoder, the AWS loader and \<^verbatim>\<open>os.ExpandEnv\<close> are parameters.
\<close>

subsection \<open>Configuration\<close>

record serverCfg =
  Port :: int
  MetricsPort :: int
  AdminPort :: int
  ReadTimeoutSec :: int
  WriteTimeoutSec :: int
  IdleTimeoutSec :: int

record cacheCfg =
  RAMCapacityBytes :: int
  DiskPath :: string

record backendCfg =
  bc_endpoint :: string
  bc_region :: string
  bc_access_key_id :: string
  bc_secret_access_key :: string
  bc_bucket :: string
  bc_max_conns :: int

record engineCfg =
  PrefetchWorkers :: int
  PrefetchQueueDepth :: int
  LookAheadChunks :: int
  ec_streak_threshold :: int
  ec_velocity_threshold :: rat

record appConfig =
  Server :: serverCfg
  Cache :: cacheCfg
  BackendSection :: backendCfg
  Engine :: engineCfg

datatype config_error = OpenFailed string string | DecodeFailed string string

definition loadConfig :: "(string \<Rightarrow> string + 'file) \<Rightarrow> ('file \<Rightarrow> string + appConfig) \<Rightarrow> string \<Rightarrow> config_error + appConfig" where
  "loadConfig openFile decode path =
     (case openFile path of
        Inl e \<Rightarrow> Inl (OpenFailed path e)
      | Inr f \<Rightarrow> (case decode f of Inl e \<Rightarrow> Inl (DecodeFailed path e) | Inr c \<Rightarrow> Inr c))"

subsection \<open>Start-up\<close>

record http_server =
  Addr :: string
  ReadTimeout :: int
  WriteTimeout :: int
  IdleTimeout :: int

record ui_config =
  ui_proxy_port :: int
  ui_endpoint :: string
  ui_region :: string
  ui_bucket :: string

datatype fatal =
    ConfigFatal config_error
  | ColdFatal cold_error
  | MetricsFatal string
  | BackendFatal backend_error
  | PanicFatal go_panic

record 'aws system =
  sys_world :: world
  sys_pool :: BufferPool
  sys_client :: "'aws \<times> (s3_options \<Rightarrow> s3_options)"
  proxySrv :: http_server
  metricsSrv :: http_server
  adminSrv :: http_server
  adminCfg :: ui_config

definition secs :: "int \<Rightarrow> int" where
  "secs n = i64 (n * Second)"

definition backend_config :: "(string \<Rightarrow> string) \<Rightarrow> backendCfg \<Rightarrow> BackendConfig" where
  "backend_config expandEnv c =
     \<lparr>Endpoint = bc_endpoint c, Region = bc_region c, AccessKeyID = expandEnv (bc_access_key_id c),
      SecretAccessKey = expandEnv (bc_secret_access_key c), Bucket = bc_bucket c, MaxConns = bc_max_conns c\<rparr>"

definition startup ::
  "(string \<Rightarrow> string + 'file) \<Rightarrow> ('file \<Rightarrow> string + appConfig) \<Rightarrow> (string \<Rightarrow> string) \<Rightarrow> (load_option list \<Rightarrow> string + 'aws) \<Rightarrow>
     os_error option \<Rightarrow> fs \<Rightarrow> string \<Rightarrow> fatal + 'aws system" where
  "startup openFile decode expandEnv load mkdir disk cfgPath =
     (case loadConfig openFile decode cfgPath of
        Inl e \<Rightarrow> Inl (ConfigFatal e)
      | Inr c \<Rightarrow>
     (case NewColdCache mkdir (DiskPath (Cache c)) of
        Inl e \<Rightarrow> Inl (ColdFatal e)
      | Inr baseDir \<Rightarrow>
     (case NewRegistry of
        Inl e \<Rightarrow> Inl (MetricsFatal e)
      | Inr reg \<Rightarrow>
     (case NewBackend load (backend_config expandEnv (BackendSection c)) of
        Inl e \<Rightarrow> Inl (BackendFatal e)
      | Inr (client, b) \<Rightarrow>
     (case NewPrefetcher \<lparr>Workers = PrefetchWorkers (Engine c), QueueDepthCfg = PrefetchQueueDepth (Engine c),
             LookAhead = LookAheadChunks (Engine c)\<rparr> of
        Inl e \<Rightarrow> Inl (PanicFatal e)
      | Inr p \<Rightarrow>
          Inr \<lparr>sys_world =
                 \<lparr>w_hot = NewHotCache (RAMCapacityBytes (Cache c)) True, w_disk = disk, w_backend = b,
                  w_tracker = NewVelocityTracker \<lparr>StreakThreshold = ec_streak_threshold (Engine c),
                    VelocityThresholdChunksPerSec = ec_velocity_threshold (Engine c)\<rparr>,
                  w_pf = Start p, w_reg = reg, w_spill = []\<rparr>,
               sys_pool = NewBufferPool,
               sys_client = client,
               proxySrv = \<lparr>Addr = '':'' @ show_int (Port (Server c)), ReadTimeout = secs (ReadTimeoutSec (Server c)),
                 WriteTimeout = secs (WriteTimeoutSec (Server c)), IdleTimeout = secs (IdleTimeoutSec (Server c))\<rparr>,
               metricsSrv = \<lparr>Addr = '':'' @ show_int (MetricsPort (Server c)), ReadTimeout = 5 * Second,
                 WriteTimeout = 0, IdleTimeout = 0\<rparr>,
               adminSrv = \<lparr>Addr = '':'' @ show_int (AdminPort (Server c)), ReadTimeout = 5 * Second,
                 WriteTimeout = 60 * Second, IdleTimeout = 0\<rparr>,
               adminCfg = \<lparr>ui_proxy_port = Port (Server c), ui_endpoint = bc_endpoint (BackendSection c),
                 ui_region = bc_region (BackendSection c), ui_bucket = bc_bucket (BackendSection c)\<rparr>\<rparr>)))))"

subsection \<open>Serving and shutdown\<close>

datatype serve_error = ErrServerClosed | ServeError string

text \<open>A server goroutine ends the process with a fatal message unless its server was shut down.\<close>

definition serve_end :: "string \<Rightarrow> serve_error option \<Rightarrow> (string \<times> string) option" where
  "serve_end msg err =
     (case err of None \<Rightarrow> None | Some ErrServerClosed \<Rightarrow> None | Some (ServeError e) \<Rightarrow> Some (msg, e))"

text \<open>
  After the signal: the three servers are shut down in order under one deadline, a failure being only logged; then the
  deferred \<^verbatim>\<open>Stop\<close> of the prefetcher runs, whether or not the requests have ended.
\<close>

definition shutdown_log :: "string \<Rightarrow> string option \<Rightarrow> (string \<times> string) list" where
  "shutdown_log msg err = (case err of None \<Rightarrow> [] | Some e \<Rightarrow> [(msg, e)])"

definition shutdown ::
  "string option \<Rightarrow> string option \<Rightarrow> string option \<Rightarrow> world \<Rightarrow> (string \<times> string) list \<times> (go_panic + world)" where
  "shutdown proxy_err metrics_err admin_err w =
     (shutdown_log ''proxy server shutdown error'' proxy_err @ shutdown_log ''metrics server shutdown error'' metrics_err @
      shutdown_log ''admin server shutdown error'' admin_err,
      map_sum id (\<lambda>p. w\<lparr>w_pf := p\<rparr>) (Stop (w_pf w)))"

text \<open>
  So a request that outlives the deadline of \<^verbatim>\<open>Shutdown\<close> and then triggers a prefetch panics.
\<close>

lemma shutdown_then_schedule_panics:
  assumes "shutdown (Some err) metrics_err admin_err w = (msgs, Inr w')" and "0 < LookAhead (pcfg (w_pf w))"
  shows "msgs \<noteq> [] \<and> Schedule alone key start (w_pf w', reg) = Inl SendOnClosedChannel"
proof -
  obtain p where "Stop (w_pf w) = Inr p" "w_pf w' = p"
    using assms(1) by (cases "Stop (w_pf w)") (auto simp: shutdown_def)
  with assms schedule_panics_iff_stopped [of "w_pf w" p key start reg alone] show ?thesis
    by (auto simp: shutdown_def shutdown_log_def)
qed

lemma shutdown_of_running_system:
  assumes "world_ok store bucket baseDir w"
  shows "\<exists>w'. snd (shutdown proxy_err metrics_err admin_err w) = Inr w' \<and> w_hot w' = w_hot w \<and> w_disk w' = w_disk w"
  using world_okD(7) [OF assms] by (auto simp: shutdown_def Stop_def)

subsection \<open>The running system\<close>

text \<open>
  \<^verbatim>\<open>evictOnHot\<close>: the goroutine of one evicted chunk writes it to the cold cache; a failure is only
  logged.
\<close>

definition spill_one :: "put_faults \<Rightarrow> string \<Rightarrow> ChunkKey \<Rightarrow> bytes \<Rightarrow> world \<Rightarrow> world" where
  "spill_one f baseDir k d w = w\<lparr>w_disk := fst (cold_put f baseDir (w_disk w) k d)\<rparr>"

definition job_key :: "prefetchJob \<Rightarrow> ChunkKey" where
  "job_key job = \<lparr>ObjectKey = fst job, ChunkIndex = snd job\<rparr>"

text \<open>
  The steps: a request of any method and range (answered or failed), a step of a prefetch worker, the fetch of a job a
  worker holds, and an eviction goroutine. The environment of a request or fetch is \<open>range_env_safe\<close>: its size lookup and
  its GETs may fail, its GETs may also break off with an error after some bytes, its waits may be cancelled. What is
  excluded is a transfer that ends with \<^verbatim>\<open>io.ErrUnexpectedEOF\<close> before its last byte (\<open>s3_honest\<close>), which the proxy
  does not notice, and jobs past \<open>2^41\<close>, which no look-ahead reaches from a chunk of an object.
\<close>

inductive sys_step :: "(string \<Rightarrow> bytes option) \<Rightarrow> string \<Rightarrow> string \<Rightarrow> world \<Rightarrow> world \<Rightarrow> bool"
  for store bucket baseDir where
  s_request: "range_env_safe store bucket baseDir re (request_key rq) \<Longrightarrow> ServeHTTP rnd baseDir re rq w = Inr (w', resp) \<Longrightarrow>
    sys_step store bucket baseDir w w'"
| s_worker: "ev \<noteq> EvStop \<Longrightarrow> pf_event_step ev (w_pf w, w_reg w) = Some (Inr (p, reg)) \<Longrightarrow>
    sys_step store bucket baseDir w (w\<lparr>w_pf := p, w_reg := reg\<rparr>)"
| s_prefetch: "job \<in> set (fetching (w_pf w)) \<Longrightarrow> env_safe store bucket baseDir (job_key job) e \<Longrightarrow>
    store (fst job) \<noteq> None \<Longrightarrow> uint (snd job) < 2 ^ 41 \<Longrightarrow>
    fetchAndCache (shared_key (ce_store e) (w_backend w) (ce_flights e)) (ce_buf e) job (w_hot w, w_reg w) =
      Inr ((hot', reg'), evicted) \<Longrightarrow>
    sys_step store bucket baseDir w (w\<lparr>w_hot := hot', w_reg := reg', w_spill := w_spill w @ evicted\<rparr>)"
| s_spill: "w_spill w = xs @ (k, d) # ys \<Longrightarrow>
    sys_step store bucket baseDir w (spill_one f baseDir k d (w\<lparr>w_spill := xs @ ys\<rparr>))"

inductive sys_run :: "(string \<Rightarrow> bytes option) \<Rightarrow> string \<Rightarrow> string \<Rightarrow> world \<Rightarrow> world \<Rightarrow> bool"
  for store bucket baseDir where
  run_refl: "sys_run store bucket baseDir w w"
| run_step: "sys_run store bucket baseDir w w' \<Longrightarrow> sys_step store bucket baseDir w' w'' \<Longrightarrow> sys_run store bucket baseDir w w''"

subsection \<open>Every step keeps the invariant\<close>

lemma ServeHTTP_cases:
  assumes "ObjectSize (re_head re) (w_backend w) (request_key rq) = (b', q)"
  obtains (early) resp where "ServeHTTP rnd baseDir re rq w = Inr (w, resp)"
    | (sized) resp where "ServeHTTP rnd baseDir re rq w = Inr (w\<lparr>w_backend := b'\<rparr>, resp)"
    | (ranged) n x y where "q = Inr n" "resolveByteRange (RangeHeader rq) n = (x, y, True)"
      "ServeHTTP rnd baseDir re rq w =
        serve_range rnd baseDir re (Method rq) (request_key rq) n x y (w\<lparr>w_backend := b'\<rparr>) (new_response (re_accepts re))"
proof -
  let ?r = "new_response (re_accepts re)"
  let ?s = "ServeHTTP rnd baseDir re rq w"
  let ?bad = "Method rq \<noteq> ''GET'' \<and> Method rq \<noteq> ''HEAD''"
  let ?full = "RangeHeader rq = '''' \<and> Method rq = ''GET''"
  consider "?bad" | "\<not> ?bad" "request_key rq = ''''" | "\<not> ?bad" "request_key rq \<noteq> ''''" "?full"
    | "\<not> ?bad" "request_key rq \<noteq> ''''" "\<not> ?full"
    by blast
  then show thesis
  proof cases
    case 1
    then have "?s = Inr (w, http_error ''method not allowed'' 405 ?r)"
      by (simp add: ServeHTTP_def Let_def)
    then show thesis by (rule early)
  next
    case 2
    then have "?s = Inr (w, http_error ''missing object key in path'' 400 ?r)"
      unfolding ServeHTTP_def Let_def request_key_def if_not_P [OF 2(1)] by simp
    then show thesis by (rule early)
  next
    case 3
    then have "?s = Inr (proxyFull re (request_key rq) w ?r)"
      by (simp add: ServeHTTP_def Let_def request_key_def)
    moreover have "fst (proxyFull re (request_key rq) w ?r) = w"
      by (simp add: proxyFull_def split: sum.split prod.split)
    ultimately have "?s = Inr (w, snd (proxyFull re (request_key rq) w ?r))"
      by (metis prod.collapse)
    then show thesis by (rule early)
  next
    case 4
    have eq: "?s = (case q of
        Inl err \<Rightarrow> Inr (w\<lparr>w_backend := b'\<rparr>, http_error ''upstream error'' 502 ?r)
      | Inr n \<Rightarrow> if RangeHeader rq = '''' then Inr (w\<lparr>w_backend := b'\<rparr>, write_header 200 (head_headers n ?r))
          else case resolveByteRange (RangeHeader rq) n of (x, y, ok) \<Rightarrow>
            if \<not> ok then Inr (w\<lparr>w_backend := b'\<rparr>, write_header 416 (set_header ''Content-Range'' (''bytes */'' @ show_int n) ?r))
            else serve_range rnd baseDir re (Method rq) (request_key rq) n x y (w\<lparr>w_backend := b'\<rparr>) ?r)"
      using 4(2) assms
      unfolding ServeHTTP_def Let_def request_key_def if_not_P [OF 4(1)] if_not_P [OF 4(3)]
      by (cases q) simp_all
    show thesis
    proof (cases q)
      case (Inl err)
      with eq show thesis by (intro sized) simp
    next
      case (Inr n)
      obtain x y ok where rng: "resolveByteRange (RangeHeader rq) n = (x, y, ok)" by (metis prod_cases3)
      consider "RangeHeader rq = ''''" | "RangeHeader rq \<noteq> ''''" "\<not> ok" | "RangeHeader rq \<noteq> ''''" "ok" by blast
      then show thesis
      proof cases
        case 1
        with eq Inr show thesis by (intro sized) simp
      next
        case 2
        with eq Inr rng show thesis by (intro sized) simp
      next
        case 3
        with eq Inr rng show thesis by (intro ranged) simp_all
      qed
    qed
  qed
qed

lemma ServeHTTP_world_ok:
  assumes ok: "world_ok store bucket baseDir w" and nc: "no_collisions store"
    and env: "range_env_safe store bucket baseDir re (request_key rq)"
    and len: "\<And>obj. store (request_key rq) = Some obj \<Longrightarrow> int (length obj) < 2 ^ 63"
  shows "\<exists>w' resp. ServeHTTP rnd baseDir re rq w = Inr (w', resp) \<and> world_ok store bucket baseDir w'"
proof -
  let ?key = "request_key rq"
  obtain b' q where os: "ObjectSize (re_head re) (w_backend w) ?key = (b', q)"
    "world_ok store bucket baseDir (w\<lparr>w_backend := b'\<rparr>)"
    "case q of Inl err \<Rightarrow> \<exists>x. err = HeadFailed ?key x \<and> re_head re bucket ?key = Inl x
     | Inr n \<Rightarrow> \<exists>obj. store ?key = Some obj \<and> n = int (length obj)"
    by (rule ObjectSize_right [OF ok env])
  show ?thesis
  proof (cases rule: ServeHTTP_cases [OF os(1), of rnd baseDir, case_names early sized ranged])
    case (early resp)
    with ok show ?thesis by blast
  next
    case (sized resp)
    with os(2) show ?thesis by blast
  next
    case (ranged n x y)
    then obtain obj where obj: "store ?key = Some obj" "n = int (length obj)"
      using os(3) by auto
    have rng: "resolveByteRange (RangeHeader rq) (int (length obj)) = (x, y, True)"
      using ranged(2) obj(2) by simp
    note xy = resolve_nat [OF rng len [OF obj(1)]]
    obtain w' resp where "serve_range rnd baseDir re (Method rq) ?key (int (length obj)) (int (nat x)) (int (nat y))
        (w\<lparr>w_backend := b'\<rparr>) (new_response (re_accepts re)) = Inr (w', resp)" "world_ok store bucket baseDir w'"
      using serve_range_correct [OF os(2) nc obj(1) len [OF obj(1)] env xy(3,4)] by blast
    then show ?thesis
      using ranged(3) obj(2) xy(1,2) by auto
  qed
qed

lemma spill_one_ok:
  assumes "world_ok store bucket baseDir w" and "chunk_right store k d"
  shows "world_ok store bucket baseDir (spill_one f baseDir k d w)"
proof -
  have "slot_right store (slot_of k) d"
    using assms(2) by (auto simp: slot_right_def)
  then have "holds_all (cold_at baseDir (fst (cold_put f baseDir (w_disk w) k d))) (slot_right store)"
    using world_okD(3) [OF assms(1)] by (intro cold_put_coherent)
  then show ?thesis
    using assms(1) by (simp add: world_ok_def spill_one_def)
qed

lemma pf_step_open:
  assumes "ev \<noteq> EvStop" and "pf_event_step ev (p, reg) = Some (Inr (p', reg'))" and "\<not> jobsClosed p"
  shows "\<not> jobsClosed p'"
  using assms by (cases ev) (auto split: if_splits list.splits)

lemma prefetch_ok:
  assumes ok: "world_ok store bucket baseDir w" and env: "env_safe store bucket baseDir (job_key job) e"
    and obj: "store (fst job) \<noteq> None" and small: "uint (snd job) < 2 ^ 41"
    and run: "fetchAndCache (shared_key (ce_store e) (w_backend w) (ce_flights e)) (ce_buf e) job (w_hot w, w_reg w) =
      Inr ((hot', reg'), evicted)"
  shows "world_ok store bucket baseDir (w\<lparr>w_hot := hot', w_reg := reg', w_spill := w_spill w @ evicted\<rparr>)"
proof -
  have buf: "length (ce_buf e) = ChunkSize" using env by (simp add: env_safe_def)
  have k: "job_key job = \<lparr>ObjectKey = fst job, ChunkIndex = snd job\<rparr>" by (simp add: job_key_def)
  have keep: "world_ok store bucket baseDir (w\<lparr>w_hot := h, w_reg := r\<rparr>)"
    if "hot_inv h" "hot_lookup h = hot_lookup (w_hot w)" for h r
    using world_ok_hot [OF ok that] by simp
  from world_okD(1) [OF ok] buf k show ?thesis
  proof (cases rule: fetchAndCache_cases [where getObject = "ce_store e" and b = "w_backend w" and ws = "ce_flights e" and reg = "w_reg w"])
    case (hit hot1)
    with run keep show ?thesis by simp
  next
    case (failed hot1 err)
    with run keep show ?thesis by simp
  next
    case (filled hot1 d)
    obtain o' where o': "store (ObjectKey (job_key job)) = Some o'"
      using obj by (auto simp: job_key_def)
    have "chunk_right store (job_key job) d"
      by (rule served_right [OF env world_okD(6) [OF ok] o' _ filled(1)]) (use small in \<open>simp add: job_key_def\<close>)
    then have "world_ok store bucket baseDir (world_hot_put (job_key job) d (w\<lparr>w_hot := hot1, w_reg := reg'\<rparr>))"
      using keep filled by (intro world_ok_put) auto
    with run filled show ?thesis
      by (simp add: world_hot_put_def split_beta world_ok_def)
  qed
qed

lemma sys_step_ok:
  assumes "sys_step store bucket baseDir w w'" and ok: "world_ok store bucket baseDir w" and nc: "no_collisions store"
    and len: "\<forall>key obj. store key = Some obj \<longrightarrow> int (length obj) < 2 ^ 63"
  shows "world_ok store bucket baseDir w'"
  using assms(1)
proof cases
  case (s_request re rq rnd resp)
  then show ?thesis
    using ServeHTTP_world_ok [OF ok nc s_request(1), of rnd] len by auto
next
  case (s_worker ev p reg)
  then have "\<not> jobsClosed p"
    using pf_step_open world_okD(7) [OF ok] by blast
  with ok s_worker show ?thesis by (simp add: world_ok_def)
next
  case (s_prefetch job e hot' reg' evicted)
  then show ?thesis using prefetch_ok [OF ok] by simp
next
  case (s_spill xs k d ys f)
  have "chunk_right store k d"
    using world_okD(4) [OF ok] s_spill(2) by simp
  moreover have "world_ok store bucket baseDir (w\<lparr>w_spill := xs @ ys\<rparr>)"
    using ok s_spill(2) by (auto simp: world_ok_def)
  ultimately show ?thesis
    unfolding s_spill(1) by (intro spill_one_ok)
qed

lemma sys_run_ok:
  assumes "sys_run store bucket baseDir w w'" and "world_ok store bucket baseDir w" and "no_collisions store"
    and "\<forall>key obj. store key = Some obj \<longrightarrow> int (length obj) < 2 ^ 63"
  shows "world_ok store bucket baseDir w'"
  using assms by (induction rule: sys_run.induct) (auto intro: sys_step_ok)

lemma startup_world_ok:
  assumes "startup openFile decode expandEnv load mkdir disk cfgPath = Inr sys"
    and "loadConfig openFile decode cfgPath = Inr c"
    and "holds_all (cold_at (DiskPath (Cache c)) disk) (slot_right store)"
  shows "world_ok store (bc_bucket (BackendSection c)) (DiskPath (Cache c)) (sys_world sys)"
proof -
  obtain client b p where b: "NewBackend load (backend_config expandEnv (BackendSection c)) = Inr (client, b)"
    "NewPrefetcher \<lparr>Workers = PrefetchWorkers (Engine c), QueueDepthCfg = PrefetchQueueDepth (Engine c),
       LookAhead = LookAheadChunks (Engine c)\<rparr> = Inr p"
    "w_backend (sys_world sys) = b" "w_pf (sys_world sys) = Start p" "w_disk (sys_world sys) = disk"
    "w_spill (sys_world sys) = []" "w_hot (sys_world sys) = NewHotCache (RAMCapacityBytes (Cache c)) True"
    using assms(1,2) by (auto simp: startup_def NewColdCache_def split: sum.splits option.splits)
  have "sizes b = (\<lambda>_. None)" "Bucket (cfg b) = bc_bucket (BackendSection c)"
    using b(1) by (auto simp: NewBackend_def Let_def backend_config_def split: sum.splits if_splits)
  moreover have "\<not> jobsClosed (Start p)"
    using b(2) by (auto simp: NewPrefetcher_def Start_def split: if_splits)
  ultimately show ?thesis
    using assms(3) b by (simp add: world_ok_def holds_all_def)
qed

subsection \<open>A concrete configuration\<close>

definition demo_config :: appConfig where
  "demo_config =
     \<lparr>Server = \<lparr>Port = 8080, MetricsPort = 9090, AdminPort = 8081, ReadTimeoutSec = 30, WriteTimeoutSec = 300,
        IdleTimeoutSec = 120\<rparr>,
      Cache = \<lparr>RAMCapacityBytes = 8589934592, DiskPath = ''c''\<rparr>,
      BackendSection = \<lparr>bc_endpoint = '''', bc_region = ''us-east-2'', bc_access_key_id = '''', bc_secret_access_key = '''',
        bc_bucket = ''data'', bc_max_conns = 256\<rparr>,
      Engine = \<lparr>PrefetchWorkers = 16, PrefetchQueueDepth = 512, LookAheadChunks = 8, ec_streak_threshold = 3,
        ec_velocity_threshold = 1 / 10\<rparr>\<rparr>"

lemma demo_startup:
  "\<exists>sys. startup (\<lambda>p. Inr p) (\<lambda>f. Inr demo_config) (\<lambda>s. s) (\<lambda>opts. Inr ()) None (\<lambda>_. None) ''proxy.yaml'' = Inr sys"
  by (simp add: startup_def loadConfig_def NewColdCache_def NewRegistry_ok NewBackend_def NewPrefetcher_def demo_config_def
      Let_def)

end
