(* ===== verification/Ui.thy ===== *)
theory Ui
  imports System
begin

section \<open>The admin dashboard\<close>

text \<open>
  \<^verbatim>\<open>internal/ui/handler.go\<close>: the routes of the admin server and the fetch endpoint that sends a request
  through the proxy and reports a cache tier guessed from the metrics before and after. JSON is kept
  as the values encoded; the JSON decoder, the HTTP client and the Prometheus registry are parameters.
\<close>

datatype json =
    JInt int
  | JNum rat
  | JStr string
  | JObj "(string \<times> json) list"
  | JMap "(string \<Rightarrow> rat option) option"

datatype ui_reply = UiError int string | UiHtml bytes | UiJson json

record fetchRequest =
  fr_object_key :: string
  fr_range_start :: int
  fr_range_end :: int
  fr_use_range :: bool

record fetchResponse =
  fs_status_code :: int
  fs_bytes :: int
  fs_latency_ms :: rat
  fs_cache_tier :: string
  fs_error :: string

definition empty_response :: fetchResponse where
  "empty_response = \<lparr>fs_status_code = 0, fs_bytes = 0, fs_latency_ms = 0, fs_cache_tier = '''', fs_error = ''''\<rparr>"

text \<open>\<^verbatim>\<open>writeJSON\<close> of a response; \<^verbatim>\<open>omitempty\<close> leaves out an empty error.\<close>

definition response_json :: "fetchResponse \<Rightarrow> json" where
  "response_json r =
     JObj ([(''status_code'', JInt (fs_status_code r)), (''bytes'', JInt (fs_bytes r)),
            (''latency_ms'', JNum (fs_latency_ms r)), (''cache_tier'', JStr (fs_cache_tier r))] @
           (if fs_error r = '''' then [] else [(''error'', JStr (fs_error r))]))"

definition writeJSON :: "json \<Rightarrow> ui_reply" where
  "writeJSON v = UiJson v"

datatype ui_route = IndexRoute | ConfigRoute | MetricsRoute | FetchRoute

record ui_handler =
  uh_mux :: "(string \<times> ui_route) list"
  uh_cfg :: ui_config
  uh_proxyAddr :: string

definition NewHandler :: "ui_config \<Rightarrow> ui_handler" where
  "NewHandler c =
     \<lparr>uh_mux = [(''/'', IndexRoute), (''/api/config'', ConfigRoute), (''/api/metrics'', MetricsRoute), (''/api/fetch'', FetchRoute)],
      uh_cfg = c, uh_proxyAddr = ''http://localhost:'' @ show_int (ui_proxy_port c)\<rparr>"

definition serveIndex :: "bytes \<Rightarrow> string \<Rightarrow> ui_reply" where
  "serveIndex indexHTML path = (if path \<noteq> ''/'' then UiError 404 ''404 page not found'' else UiHtml indexHTML)"

definition serveConfig :: "ui_handler \<Rightarrow> ui_reply" where
  "serveConfig h =
     UiJson (JObj [(''proxy_port'', JInt (ui_proxy_port (uh_cfg h))), (''endpoint'', JStr (ui_endpoint (uh_cfg h))),
                   (''region'', JStr (ui_region (uh_cfg h))), (''bucket'', JStr (ui_bucket (uh_cfg h)))])"

definition serveMetrics :: "(rat \<Rightarrow> rat) \<Rightarrow> string + dto_family list \<Rightarrow> ui_reply" where
  "serveMetrics rnd gathered = UiJson (JMap (Snapshot rnd gathered))"

definition ui_tier :: "(string \<Rightarrow> rat option) option \<Rightarrow> (string \<Rightarrow> rat option) option \<Rightarrow> string" where
  "ui_tier before after =
     (if snap_value after ''proxy_cache_hot_hits_total'' > snap_value before ''proxy_cache_hot_hits_total'' then ''hot (RAM)''
      else if snap_value after ''proxy_cache_cold_hits_total'' > snap_value before ''proxy_cache_cold_hits_total'' then ''cold (NVMe)''
      else ''backend'')"

text \<open>\<^verbatim>\<open>proxyClient\<close>: \<open>fe_do\<close> is its \<^verbatim>\<open>Do\<close>, given the time out.\<close>

definition proxyClient_timeout :: int where
  "proxyClient_timeout = 60 * Second"

record fetch_env =
  fe_decode :: "bytes \<Rightarrow> string + fetchRequest"
  fe_new_request :: "string \<Rightarrow> string option"
  fe_do :: "int \<Rightarrow> string \<Rightarrow> string option \<Rightarrow> string + int \<times> reader"
  fe_elapsed :: int
  fe_before :: "string + dto_family list"
  fe_after :: "string + dto_family list"

definition serveFetch :: "(rat \<Rightarrow> rat) \<Rightarrow> ui_handler \<Rightarrow> fetch_env \<Rightarrow> string \<Rightarrow> bytes \<Rightarrow> ui_reply" where
  "serveFetch rnd h fe meth reqBody =
     (if meth \<noteq> ''POST'' then UiError 405 ''method not allowed''
      else case fe_decode fe reqBody of
        Inl err \<Rightarrow> UiError 400 ''bad request body''
      | Inr req \<Rightarrow>
          if fr_object_key req = '''' then UiError 400 ''object_key required''
          else
            let before = Snapshot rnd (fe_before fe);
                url = uh_proxyAddr h @ ''/'' @ fr_object_key req
            in case fe_new_request fe url of
                 Some err \<Rightarrow> writeJSON (response_json (empty_response\<lparr>fs_error := err\<rparr>))
               | None \<Rightarrow>
                   let rangeHdr = (if fr_use_range req
                          then Some (''bytes='' @ show_int (fr_range_start req) @ ''-'' @ show_int (fr_range_end req)) else None);
                       latencyMs = rnd (seconds rnd (fe_elapsed fe) * 1000)
                   in case fe_do fe proxyClient_timeout url rangeHdr of
                        Inl err \<Rightarrow> writeJSON (response_json (empty_response\<lparr>fs_error := err\<rparr>))
                      | Inr (code, bdy) \<Rightarrow>
                          let n = int (length (fst (body_bytes bdy)));
                              after = Snapshot rnd (fe_after fe)
                          in writeJSON (response_json
                               \<lparr>fs_status_code = code, fs_bytes = n, fs_latency_ms = latencyMs,
                                fs_cache_tier = ui_tier before after, fs_error = ''''\<rparr>))"

text \<open>
  \<^verbatim>\<open>ServeMux\<close> for the paths it does not redirect, that is clean ones: a pattern that ends in a slash matches the
  paths below it, any other only itself, and the longest match is taken.
\<close>

definition mux_matches :: "string \<Rightarrow> string \<times> ui_route \<Rightarrow> bool" where
  "mux_matches path = (\<lambda>(pat, r). pat = path \<or> (pat \<noteq> '''' \<and> last pat = CHR ''/'' \<and> has_prefix path pat))"

fun longest_pattern :: "(string \<times> ui_route) list \<Rightarrow> (string \<times> ui_route) option" where
  "longest_pattern [] = None"
| "longest_pattern (x # xs) =
     (case longest_pattern xs of None \<Rightarrow> Some x | Some y \<Rightarrow> if length (fst x) < length (fst y) then Some y else Some x)"

definition mux_route :: "(string \<times> ui_route) list \<Rightarrow> string \<Rightarrow> ui_route option" where
  "mux_route mux path = map_option snd (longest_pattern (filter (mux_matches path) mux))"

definition ui_serve ::
  "(rat \<Rightarrow> rat) \<Rightarrow> ui_handler \<Rightarrow> bytes \<Rightarrow> fetch_env \<Rightarrow> string + dto_family list \<Rightarrow> string \<Rightarrow> string \<Rightarrow> bytes \<Rightarrow> ui_reply" where
  "ui_serve rnd h indexHTML fe gathered meth path reqBody =
     (case mux_route (uh_mux h) path of
        Some ConfigRoute \<Rightarrow> serveConfig h
      | Some MetricsRoute \<Rightarrow> serveMetrics rnd gathered
      | Some FetchRoute \<Rightarrow> serveFetch rnd h fe meth reqBody
      | Some IndexRoute \<Rightarrow> serveIndex indexHTML path
      | None \<Rightarrow> UiError 404 ''404 page not found'')"

text \<open>What a browser gets: the four routes, the page only at the root itself.\<close>

lemma ui_routes:
  assumes "has_prefix path ''/''"
  shows "ui_serve rnd (NewHandler c) indexHTML fe gathered meth path reqBody =
     (if path = ''/api/config'' then serveConfig (NewHandler c)
      else if path = ''/api/metrics'' then serveMetrics rnd gathered
      else if path = ''/api/fetch'' then serveFetch rnd (NewHandler c) fe meth reqBody
      else if path = ''/'' then UiHtml indexHTML
      else UiError 404 ''404 page not found'')"
proof -
  have m: "mux_matches q (''/'', IndexRoute)" if "has_prefix q ''/''" for q
    using that by (simp add: mux_matches_def)
  have n: "mux_matches q (''/api/config'', ConfigRoute) \<longleftrightarrow> q = ''/api/config''"
    "mux_matches q (''/api/metrics'', MetricsRoute) \<longleftrightarrow> q = ''/api/metrics''"
    "mux_matches q (''/api/fetch'', FetchRoute) \<longleftrightarrow> q = ''/api/fetch''" for q
    by (auto simp: mux_matches_def)
  show ?thesis
    using assms by (simp add: ui_serve_def mux_route_def NewHandler_def m n serveIndex_def has_prefix_def)
qed
subsection \<open>The tier the dashboard shows\<close>

text \<open>Snapshots that show the two hit counters of a registry.\<close>

definition shows_counters :: "(string \<Rightarrow> rat option) option \<Rightarrow> Registry \<Rightarrow> bool" where
  "shows_counters m reg \<longleftrightarrow>
     snap_value m ''proxy_cache_hot_hits_total'' = of_nat (CacheHitTotal reg) \<and>
     snap_value m ''proxy_cache_cold_hits_total'' = of_nat (ColdCacheHitTotal reg)"

definition gather_hits :: "Registry \<Rightarrow> dto_family list" where
  "gather_hits reg =
     [plain_counter ''proxy_cache_cold_hits_total'' (ColdCacheHitTotal reg),
      plain_counter ''proxy_cache_hot_hits_total'' (CacheHitTotal reg),
      plain_counter ''proxy_cache_hot_misses_total'' (CacheMissTotal reg)]"

lemma gather_hits_shows: "shows_counters (Snapshot rnd (Inr (gather_hits reg))) reg"
proof -
  have "snap_value (Snapshot rnd (Inr (gather_hits reg))) ''proxy_cache_hot_hits_total'' = of_nat (CacheHitTotal reg)"
    by (rule snapshot_counter_value [where xs = "[plain_counter ''proxy_cache_cold_hits_total'' (ColdCacheHitTotal reg)]"])
      (auto simp: gather_hits_def plain_counter_def)
  moreover have "snap_value (Snapshot rnd (Inr (gather_hits reg))) ''proxy_cache_cold_hits_total'' = of_nat (ColdCacheHitTotal reg)"
    by (rule snapshot_counter_value [where xs = "[]"]) (auto simp: gather_hits_def plain_counter_def)
  ultimately show ?thesis
    by (simp add: shows_counters_def)
qed

text \<open>The tier each chunk of a range is resolved from, in order.\<close>

fun chunk_tiers :: "(rat \<Rightarrow> rat) \<Rightarrow> string \<Rightarrow> (u64 \<Rightarrow> chunk_env) \<Rightarrow> string \<Rightarrow> u64 list \<Rightarrow> world \<Rightarrow> tier list" where
  "chunk_tiers rnd baseDir env objectKey [] w = []"
| "chunk_tiers rnd baseDir env objectKey (i # is) w =
     (case resolveChunk baseDir (env i) \<lparr>ObjectKey = objectKey, ChunkIndex = i\<rparr> (ce_others (env i) BeforeChunk w) of
        Inl x \<Rightarrow> []
      | Inr (w1, Inl err) \<Rightarrow> []
      | Inr (w1, Inr (chunkData, tier)) \<Rightarrow>
          tier # (case world_record rnd (ce_sched (env i)) (ce_now (env i)) objectKey i w1 of
                    Inl x \<Rightarrow> [] | Inr w2 \<Rightarrow> chunk_tiers rnd baseDir env objectKey is w2))"

lemma resolve_all_tiers:
  assumes "resolve_all rnd baseDir env key is cs tr w = Inr (w', Inr (ds, t))" and "\<And>i. quiet (env i)"
  shows "length (chunk_tiers rnd baseDir env key is w) = length is \<and> t = fold max (chunk_tiers rnd baseDir env key is w) tr \<and>
    CacheHitTotal (w_reg w') = CacheHitTotal (w_reg w) + count_list (chunk_tiers rnd baseDir env key is w) HotTier \<and>
    ColdCacheHitTotal (w_reg w') = ColdCacheHitTotal (w_reg w) + count_list (chunk_tiers rnd baseDir env key is w) ColdTier"
  using assms(1)
proof (induction "is" arbitrary: cs tr w)
  case (Cons i "is")
  have q: "ce_others (env i) BeforeChunk w = w" "ce_sched (env i) = alone"
    using assms(2) [of i] by (simp_all add: quiet_def)
  obtain w1 d t1 w2 where s: "resolveChunk baseDir (env i) \<lparr>ObjectKey = key, ChunkIndex = i\<rparr> w = Inr (w1, Inr (d, t1))"
    "world_record rnd alone (ce_now (env i)) key i w1 = Inr w2"
    "resolve_all rnd baseDir env key is (cs @ [d]) (if tierRank t1 > tierRank tr then t1 else tr) w2 = Inr (w', Inr (ds, t))"
    using Cons.prems by (auto simp: q Let_def split: sum.splits prod.splits)
  have m: "(if tierRank t1 > tierRank tr then t1 else tr) = max t1 tr"
    by (auto simp: max_def less_eq_tier_def dest: tierRank_inj)
  have "CacheHitTotal (w_reg w2) = CacheHitTotal (w_reg w) + (if t1 = HotTier then 1 else 0)"
    "ColdCacheHitTotal (w_reg w2) = ColdCacheHitTotal (w_reg w) + (if t1 = ColdTier then 1 else 0)"
    using resolveChunk_counts [OF s(1) assms(2)] world_record_counters [OF s(2)] by auto
  moreover have "chunk_tiers rnd baseDir env key (i # is) w = t1 # chunk_tiers rnd baseDir env key is w2"
    using s(1,2) by (simp add: q)
  ultimately show ?case
    using Cons.IH [OF s(3) [unfolded m]] by auto
qed simp

subsection \<open>Properties\<close>

text \<open>
  C28: The dashboard and the \<open>X-Cache-Tier\<close> header answer different questions. For a range resolved with
  no concurrent request between the two snapshots, let \<open>ts\<close> be the tiers its chunks were resolved from: the header is the
  slowest of them; the dashboard shows \<open>hot (RAM)\<close> if any of them is a hot hit, even when another chunk makes the header
  say \<open>inflight\<close> or \<open>backend\<close>, otherwise \<open>cold (NVMe)\<close> if any is a cold hit, and \<open>backend\<close> exactly when none is a hit.
  It never shows \<open>inflight\<close>.
\<close>

theorem dashboard_tier:
  assumes "resolve_all rnd baseDir env key is [] HotTier w = Inr (w', Inr (ds, t))" and "\<forall>i. quiet (env i)"
    and "shows_counters before (w_reg w)" and "shows_counters after (w_reg w')"
    and "ts = chunk_tiers rnd baseDir env key is w"
  shows "length ts = length is \<and> t = Max (insert HotTier (set ts)) \<and>
    ui_tier before after =
      (if HotTier \<in> set ts then ''hot (RAM)'' else if ColdTier \<in> set ts then ''cold (NVMe)'' else ''backend'')"
proof -
  have r: "length ts = length is" "t = fold max ts HotTier"
    "CacheHitTotal (w_reg w') = CacheHitTotal (w_reg w) + count_list ts HotTier"
    "ColdCacheHitTotal (w_reg w') = ColdCacheHitTotal (w_reg w) + count_list ts ColdTier"
    using resolve_all_tiers [OF assms(1)] assms(2,5) by auto
  have "fold max ts HotTier = Max (insert HotTier (set ts))"
    using Max.set_eq_fold [of HotTier ts] by simp
  moreover have "0 < count_list ts x \<longleftrightarrow> x \<in> set ts" for x
    using count_list_0_iff [of ts x] by (metis gr0I less_irrefl)
  ultimately show ?thesis
    using r assms(3,4) by (simp add: ui_tier_def shows_counters_def)
qed

theorem dashboard_tier_witness:
  "\<exists>w' ds t ts. resolve_all (\<lambda>x. x) ''c'' (\<lambda>i. demo_chunk_env) ''v.mp4'' [0] [] HotTier demo_world = Inr (w', Inr (ds, t)) \<and>
     ts = chunk_tiers (\<lambda>x. x) ''c'' (\<lambda>i. demo_chunk_env) ''v.mp4'' [0] demo_world \<and> t = Max (insert HotTier (set ts)) \<and>
     ui_tier (Snapshot (\<lambda>x. x) (Inr (gather_hits (w_reg demo_world)))) (Snapshot (\<lambda>x. x) (Inr (gather_hits (w_reg w')))) =
       (if HotTier \<in> set ts then ''hot (RAM)'' else if ColdTier \<in> set ts then ''cold (NVMe)'' else ''backend'')"
proof -
  obtain w' ds t where r: "resolve_all (\<lambda>x. x) ''c'' (\<lambda>i. demo_chunk_env) ''v.mp4'' [0] [] HotTier demo_world = Inr (w', Inr (ds, t))"
    using demo_resolve_run by blast
  have q: "\<forall>i :: u64. quiet demo_chunk_env"
    by (simp add: quiet_def demo_chunk_env_def)
  from dashboard_tier [OF r q gather_hits_shows [of "\<lambda>x. x"] gather_hits_shows [of "\<lambda>x. x"] refl] r show ?thesis
    by blast
qed

end
