(* ===== verification/Cold_Race.thy ===== *)
theory Cold_Race
  imports Cold_Cache
begin

section \<open>Concurrent writers of the cold cache\<close>

text \<open>
  \<^verbatim>\<open>evictOnHot\<close> in \<^verbatim>\<open>cmd/proxy/main.go\<close> starts one goroutine per eviction, and each calls
  \<^verbatim>\<open>ColdCache.Put\<close>, so the system calls of several \<open>Put\<close>s interleave, with each other and with reads.
  Here a \<open>Put\<close> is its sequence of system calls on a file system with inodes: an open file goes on
  referring to its inode after a rename, and two writers of one chunk share the temporary name and
  hence the inode. \<open>cold_step\<close> has one rule for each outcome of each system call: the \<^verbatim>\<open>MkdirAll\<close>, the open, each
  \<^verbatim>\<open>write\<close> and the close of \<^verbatim>\<open>WriteFile\<close>, the rename, and after a failed rename the \<^verbatim>\<open>os.Remove\<close> of the temporary name,
  whose own error \<open>Put\<close> ignores. The directories themselves are not in the model. The flag \<open>excl\<close> restricts \<open>spawn\<close> to
  chunks no running writer is writing. \<open>puts\<close> is a log of the \<open>Put\<close> calls made so far, \<open>placed\<close> of the slots renamed
  into place. (\<^verbatim>\<open>Delete\<close> is never called by the proxy.)

  Two theorems: with overlapping writers of one chunk a reader can be given a truncated chunk,
  although every \<open>Put\<close> wrote the same full data; and without such overlap every read, at any moment
  between any system calls, returns the complete data of some \<open>Put\<close> of that slot, and finds one once a \<open>Put\<close> of the
  slot has succeeded.
\<close>

datatype writer =
    Idle
  | Started ChunkKey bytes
  | Ready ChunkKey bytes
  | Opened ChunkKey bytes nat nat
  | Written ChunkKey bytes
  | Removing ChunkKey bytes os_error
  | Finished "cold_error option"

record race =
  dirent :: "string \<Rightarrow> nat option"
  inode :: "nat \<Rightarrow> bytes"
  nextIno :: nat
  writers :: "nat \<Rightarrow> writer"
  puts :: "(ChunkKey \<times> bytes) list"
  placed :: "slot list"

definition race_init :: race where
  "race_init = \<lparr>dirent = (\<lambda>_. None), inode = (\<lambda>_. []), nextIno = 0, writers = (\<lambda>_. Idle), puts = [], placed = []\<rparr>"

text \<open>\<^verbatim>\<open>write(2)\<close> at an offset; a gap would be filled with zero bytes.\<close>

definition write_at :: "bytes \<Rightarrow> nat \<Rightarrow> bytes \<Rightarrow> bytes" where
  "write_at c pos bs = take pos c @ replicate (pos - length c) 0 @ bs @ drop (pos + length bs) c"

definition tmpPath :: "string \<Rightarrow> slot \<Rightarrow> string" where
  "tmpPath baseDir sl = slotPath baseDir sl @ ''.tmp''"

fun writing :: "writer \<Rightarrow> slot option" where
  "writing (Started k d) = Some (slot_of k)"
| "writing (Ready k d) = Some (slot_of k)"
| "writing (Opened k d i n) = Some (slot_of k)"
| "writing (Written k d) = Some (slot_of k)"
| "writing (Removing k d e) = Some (slot_of k)"
| "writing w = None"

abbreviation set_writer :: "race \<Rightarrow> nat \<Rightarrow> writer \<Rightarrow> race" where
  "set_writer s g w \<equiv> s\<lparr>writers := (writers s)(g := w)\<rparr>"

abbreviation write_error :: "ChunkKey \<Rightarrow> os_error \<Rightarrow> writer" where
  "write_error k e \<equiv> Finished (Some (WriteError (ObjectKey k) (ChunkIndex k) e))"

abbreviation rename_error :: "ChunkKey \<Rightarrow> os_error \<Rightarrow> writer" where
  "rename_error k e \<equiv> Finished (Some (RenameError (ObjectKey k) (ChunkIndex k) e))"

inductive cold_step :: "bool \<Rightarrow> string \<Rightarrow> race \<Rightarrow> race \<Rightarrow> bool" for excl baseDir where
  w_spawn: "writers s g = Idle \<Longrightarrow> (excl \<longrightarrow> (\<forall>h. writing (writers s h) \<noteq> Some (slot_of k))) \<Longrightarrow>
     cold_step excl baseDir s ((set_writer s g (Started k d))\<lparr>puts := (k, d) # puts s\<rparr>)"
| w_mkdir: "writers s g = Started k d \<Longrightarrow> cold_step excl baseDir s (set_writer s g (Ready k d))"
| w_mkdir_fails: "writers s g = Started k d \<Longrightarrow>
     cold_step excl baseDir s (set_writer s g (Finished (Some (MkdirError (ObjectKey k) e))))"
| w_open_new: "writers s g = Ready k d \<Longrightarrow> dirent s (tmpPath baseDir (slot_of k)) = None \<Longrightarrow>
     cold_step excl baseDir s ((set_writer s g (Opened k d (nextIno s) 0))
       \<lparr>dirent := (dirent s)(tmpPath baseDir (slot_of k) \<mapsto> nextIno s), inode := (inode s)(nextIno s := []),
        nextIno := Suc (nextIno s)\<rparr>)"
| w_open_trunc: "writers s g = Ready k d \<Longrightarrow> dirent s (tmpPath baseDir (slot_of k)) = Some i \<Longrightarrow>
     cold_step excl baseDir s ((set_writer s g (Opened k d i 0))\<lparr>inode := (inode s)(i := [])\<rparr>)"
| w_open_fails: "writers s g = Ready k d \<Longrightarrow> cold_step excl baseDir s (set_writer s g (write_error k e))"
| w_write: "writers s g = Opened k d i pos \<Longrightarrow> 0 < n \<Longrightarrow> pos + n \<le> length d \<Longrightarrow>
     cold_step excl baseDir s ((set_writer s g (Opened k d i (pos + n)))
       \<lparr>inode := (inode s)(i := write_at (inode s i) pos (take n (drop pos d)))\<rparr>)"
| w_write_fails: "writers s g = Opened k d i pos \<Longrightarrow> cold_step excl baseDir s (set_writer s g (write_error k e))"
| w_close: "writers s g = Opened k d i (length d) \<Longrightarrow> cold_step excl baseDir s (set_writer s g (Written k d))"
| w_rename: "writers s g = Written k d \<Longrightarrow> dirent s (tmpPath baseDir (slot_of k)) = Some i \<Longrightarrow>
     cold_step excl baseDir s ((set_writer s g (Finished None))
       \<lparr>dirent := (dirent s)(tmpPath baseDir (slot_of k) := None, slotPath baseDir (slot_of k) \<mapsto> i),
        placed := slot_of k # placed s\<rparr>)"
| w_rename_missing: "writers s g = Written k d \<Longrightarrow> dirent s (tmpPath baseDir (slot_of k)) = None \<Longrightarrow>
     cold_step excl baseDir s (set_writer s g (Removing k d NotExist))"
| w_rename_fails: "writers s g = Written k d \<Longrightarrow> cold_step excl baseDir s (set_writer s g (Removing k d e))"
| w_remove: "writers s g = Removing k d e \<Longrightarrow>
     cold_step excl baseDir s ((set_writer s g (rename_error k e))
       \<lparr>dirent := (dirent s)(tmpPath baseDir (slot_of k) := None)\<rparr>)"
| w_remove_fails: "writers s g = Removing k d e \<Longrightarrow> cold_step excl baseDir s (set_writer s g (rename_error k e))"

inductive cold_reach :: "bool \<Rightarrow> string \<Rightarrow> race \<Rightarrow> bool" for excl baseDir where
  start: "cold_reach excl baseDir race_init"
| step: "cold_reach excl baseDir s \<Longrightarrow> cold_step excl baseDir s t \<Longrightarrow> cold_reach excl baseDir t"

text \<open>\<^verbatim>\<open>ColdCache.Get\<close> at some moment of the run.\<close>

definition cold_read :: "string \<Rightarrow> race \<Rightarrow> ChunkKey \<Rightarrow> bytes option" where
  "cold_read baseDir s k = map_option (inode s) (dirent s (chunkPath baseDir k))"

subsection \<open>The invariant of runs without overlapping writers of a chunk\<close>

fun writer_ok :: "string \<Rightarrow> race \<Rightarrow> writer \<Rightarrow> bool" where
  "writer_ok b s (Started k d) = ((k, d) \<in> set (puts s))"
| "writer_ok b s (Ready k d) = ((k, d) \<in> set (puts s))"
| "writer_ok b s (Opened k d i n) = ((k, d) \<in> set (puts s) \<and> n \<le> length d \<and>
     dirent s (tmpPath b (slot_of k)) = Some i \<and> inode s i = take n d)"
| "writer_ok b s (Written k d) = ((k, d) \<in> set (puts s) \<and>
     (\<exists>i. dirent s (tmpPath b (slot_of k)) = Some i \<and> inode s i = d))"
| "writer_ok b s w = True"

definition dirents_ok :: "race \<Rightarrow> bool" where
  "dirents_ok s \<longleftrightarrow> (\<forall>p q i. dirent s p = Some i \<and> dirent s q = Some i \<longrightarrow> p = q) \<and>
     (\<forall>p i. dirent s p = Some i \<longrightarrow> i < nextIno s)"

definition exclusive :: "race \<Rightarrow> bool" where
  "exclusive s \<longleftrightarrow> (\<forall>g h sl. writing (writers s g) = Some sl \<and> writing (writers s h) = Some sl \<longrightarrow> g = h)"

definition files_ok :: "string \<Rightarrow> race \<Rightarrow> bool" where
  "files_ok b s \<longleftrightarrow> (\<forall>sl i. dirent s (slotPath b sl) = Some i \<longrightarrow>
     (\<exists>k. (k, inode s i) \<in> set (puts s) \<and> slot_of k = sl))"

definition placed_ok :: "string \<Rightarrow> race \<Rightarrow> bool" where
  "placed_ok b s \<longleftrightarrow> (\<forall>sl \<in> set (placed s). dirent s (slotPath b sl) \<noteq> None)"

definition race_inv :: "string \<Rightarrow> race \<Rightarrow> bool" where
  "race_inv b s \<longleftrightarrow> dirents_ok s \<and> exclusive s \<and> (\<forall>g. writer_ok b s (writers s g)) \<and> files_ok b s \<and> placed_ok b s"

lemma tmpPath_facts [simp]:
  "tmpPath b sl = tmpPath b sl' \<longleftrightarrow> sl = sl'" "tmpPath b sl \<noteq> slotPath b sl'" "slotPath b sl' \<noteq> tmpPath b sl"
  using tmp_not_slot [of b sl sl'] by (auto simp: tmpPath_def slotPath_inj)

lemma write_at_prefix:
  "n + m \<le> length d \<Longrightarrow> write_at (take n d) n (take m (drop n d)) = take (n + m) d"
  by (simp add: write_at_def take_add min_def)

lemma race_inv_init: "race_inv b race_init"
  by (simp add: race_inv_def race_init_def dirents_ok_def exclusive_def files_ok_def placed_ok_def)

text \<open>Each rule keeps each part of the invariant.\<close>

lemma dirents_ok_inj: "dirents_ok s \<Longrightarrow> dirent s p = Some i \<Longrightarrow> dirent s q = Some i \<Longrightarrow> p = q"
  by (auto simp: dirents_ok_def)

lemma dirents_ok_fresh: "dirents_ok s \<Longrightarrow> dirent s p = Some i \<Longrightarrow> i < nextIno s"
  by (auto simp: dirents_ok_def)

lemma step_dirents_ok:
  assumes "cold_step excl b s t" and "dirents_ok s"
  shows "dirents_ok t"
  unfolding dirents_ok_def using assms(1)
  by cases (auto dest: dirents_ok_inj [OF assms(2)] dirents_ok_fresh [OF assms(2)] simp: less_Suc_eq split: if_splits)

lemma step_placed_ok:
  assumes "cold_step excl b s t" and "placed_ok b s"
  shows "placed_ok b t"
  using assms(1)
  by cases (use assms(2) in \<open>auto simp: placed_ok_def slotPath_inj\<close>)

lemma exclusiveD: "exclusive s \<Longrightarrow> writing (writers s g) = Some sl \<Longrightarrow> writing (writers s h) = Some sl \<Longrightarrow> g = h"
  by (auto simp: exclusive_def)

lemma exclusive_frame:
  assumes "exclusive s" and "\<And>h. h \<noteq> g \<Longrightarrow> writers t h = writers s h"
    and "writing (writers t g) = None \<or> writing (writers t g) = writing (writers s g)"
  shows "exclusive t"
  unfolding exclusive_def
proof (intro allI impI)
  fix h h' sl
  assume w: "writing (writers t h) = Some sl \<and> writing (writers t h') = Some sl"
  have "writing (writers s x) = Some sl" if "writing (writers t x) = Some sl" for x
    using assms(2,3) that by (cases "x = g") auto
  with w show "h = h'" using exclusiveD [OF assms(1)] by blast
qed

lemma exclusive_spawn:
  assumes "exclusive s" and "\<And>h. h \<noteq> g \<Longrightarrow> writers t h = writers s h" and "writing (writers t g) = Some sl"
    and "\<And>h. writing (writers s h) \<noteq> Some sl"
  shows "exclusive t"
  unfolding exclusive_def
proof (intro allI impI)
  fix h h' sl'
  assume w: "writing (writers t h) = Some sl' \<and> writing (writers t h') = Some sl'"
  have "sl' = sl \<and> x = g \<or> sl' \<noteq> sl \<and> x \<noteq> g \<and> writing (writers s x) = Some sl'" if "writing (writers t x) = Some sl'" for x
    using assms(2-4) that by (cases "x = g") auto
  with w show "h = h'" using exclusiveD [OF assms(1)] by blast
qed

lemma step_exclusive:
  assumes "cold_step True b s t" and "exclusive s"
  shows "exclusive t"
  using assms(1)
proof cases
  case (w_spawn g k d)
  then show ?thesis by (intro exclusive_spawn [OF assms(2), of g t "slot_of k"]) auto
next
  case (w_mkdir g k d)
  then show ?thesis by (intro exclusive_frame [OF assms(2), of g t]) simp_all
next
  case (w_mkdir_fails g k d err)
  then show ?thesis by (intro exclusive_frame [OF assms(2), of g t]) simp_all
next
  case (w_open_new g k d)
  then show ?thesis by (intro exclusive_frame [OF assms(2), of g t]) simp_all
next
  case (w_open_trunc g k d i)
  then show ?thesis by (intro exclusive_frame [OF assms(2), of g t]) simp_all
next
  case (w_open_fails g k d err)
  then show ?thesis by (intro exclusive_frame [OF assms(2), of g t]) simp_all
next
  case (w_write g k d i pos n)
  then show ?thesis by (intro exclusive_frame [OF assms(2), of g t]) simp_all
next
  case (w_write_fails g k d i pos err)
  then show ?thesis by (intro exclusive_frame [OF assms(2), of g t]) simp_all
next
  case (w_close g k d i)
  then show ?thesis by (intro exclusive_frame [OF assms(2), of g t]) simp_all
next
  case (w_rename g k d i)
  then show ?thesis by (intro exclusive_frame [OF assms(2), of g t]) simp_all
next
  case (w_rename_missing g k d)
  then show ?thesis by (intro exclusive_frame [OF assms(2), of g t]) simp_all
next
  case (w_rename_fails g k d err)
  then show ?thesis by (intro exclusive_frame [OF assms(2), of g t]) simp_all
next
  case (w_remove g k d err)
  then show ?thesis by (intro exclusive_frame [OF assms(2), of g t]) simp_all
next
  case (w_remove_fails g k d err)
  then show ?thesis by (intro exclusive_frame [OF assms(2), of g t]) simp_all
qed

text \<open>
  What a step may do to another writer's file: nothing, if it leaves that writer's temporary name
  and inode alone and forgets no \<open>Put\<close>.
\<close>

lemma writer_ok_frame:
  assumes "writer_ok b s w" and "set (puts s) \<subseteq> set (puts t)"
    and "\<And>sl i. writing w = Some sl \<Longrightarrow> dirent s (tmpPath b sl) = Some i \<Longrightarrow>
       dirent t (tmpPath b sl) = Some i \<and> inode t i = inode s i"
  shows "writer_ok b t w"
  using assms by (cases w) fastforce+

lemma other_writer:
  assumes "exclusive s" and "writing (writers s g) = Some sl" and "writing (writers s h) = Some sl'" and "h \<noteq> g"
  shows "sl' \<noteq> sl"
  using assms exclusiveD by metis

lemma step_writers_ok:
  assumes "cold_step True b s t" and inv: "race_inv b s"
  shows "writer_ok b t (writers t h)"
proof -
  have d: "dirents_ok s" and e: "exclusive s" and w: "\<And>g. writer_ok b s (writers s g)"
    using inv by (simp_all add: race_inv_def)
  note inj = dirents_ok_inj [OF d] and fresh = dirents_ok_fresh [OF d]
  show ?thesis
    using assms(1)
  proof cases
    case (w_spawn g k dt)
    then show ?thesis
      using w [of h] by (cases "h = g") (auto intro: writer_ok_frame)
  next
    case (w_open_new g k dt)
    show ?thesis
    proof (cases "h = g")
      case True
      then show ?thesis using w_open_new w [of g] by simp
    next
      case False
      then have "writing (writers s h) = Some sl' \<Longrightarrow> sl' \<noteq> slot_of k" for sl'
        using other_writer [OF e, of g "slot_of k" h sl'] w_open_new by simp
      then show ?thesis
        using False w_open_new(1) fresh by (auto intro!: writer_ok_frame [OF w [of h]]) blast
    qed
  next
    case (w_open_trunc g k dt i)
    show ?thesis
    proof (cases "h = g")
      case True
      then show ?thesis using w_open_trunc w [of g] by simp
    next
      case False
      then have "writing (writers s h) = Some sl' \<Longrightarrow> sl' \<noteq> slot_of k" for sl'
        using other_writer [OF e, of g "slot_of k" h sl'] w_open_trunc by simp
      then show ?thesis
        using False w_open_trunc(1,3) inj by (auto intro!: writer_ok_frame [OF w [of h]]) (metis tmpPath_facts(1))
    qed
  next
    case (w_write g k dt i pos n)
    have g: "dirent s (tmpPath b (slot_of k)) = Some i" "inode s i = take pos dt" "(k, dt) \<in> set (puts s)"
      using w [of g] w_write by simp_all
    show ?thesis
    proof (cases "h = g")
      case True
      then show ?thesis using w_write g by (simp add: write_at_prefix)
    next
      case False
      then have "writing (writers s h) = Some sl' \<Longrightarrow> sl' \<noteq> slot_of k" for sl'
        using other_writer [OF e, of g "slot_of k" h sl'] w_write by simp
      then show ?thesis
        using False w_write(1) g inj by (auto intro!: writer_ok_frame [OF w [of h]]) (metis tmpPath_facts(1))
    qed
  next
    case (w_close g k dt i)
    then show ?thesis
      using w [of g] w [of h] by (cases "h = g") (auto intro: writer_ok_frame)
  next
    case (w_rename g k dt i)
    show ?thesis
    proof (cases "h = g")
      case True
      then show ?thesis using w_rename by simp
    next
      case False
      then have "writing (writers s h) = Some sl' \<Longrightarrow> sl' \<noteq> slot_of k" for sl'
        using other_writer [OF e, of g "slot_of k" h sl'] w_rename by simp
      then show ?thesis
        using False w_rename(1) by (auto intro!: writer_ok_frame [OF w [of h]])
    qed
  next
    case (w_remove g k dt err)
    show ?thesis
    proof (cases "h = g")
      case True
      then show ?thesis using w_remove by simp
    next
      case False
      then have "writing (writers s h) = Some sl' \<Longrightarrow> sl' \<noteq> slot_of k" for sl'
        using other_writer [OF e, of g "slot_of k" h sl'] w_remove by simp
      then show ?thesis
        using False w_remove(1) by (auto intro!: writer_ok_frame [OF w [of h]])
    qed
  next
    case (w_mkdir g k dt)
    then show ?thesis
      using w [of g] w [of h] by (cases "h = g") (auto intro: writer_ok_frame)
  qed (use w [of h] in \<open>auto intro: writer_ok_frame\<close>)
qed

lemma files_ok_frame:
  assumes "files_ok b s" and "set (puts s) \<subseteq> set (puts t)"
    and "\<And>sl i. dirent t (slotPath b sl) = Some i \<Longrightarrow> dirent s (slotPath b sl) = Some i \<and> inode t i = inode s i"
  shows "files_ok b t"
  unfolding files_ok_def
proof (intro allI impI)
  fix sl i
  assume "dirent t (slotPath b sl) = Some i"
  from assms(3) [OF this] obtain k where "(k, inode t i) \<in> set (puts s)" "slot_of k = sl"
    using assms(1) unfolding files_ok_def by metis
  with assms(2) show "\<exists>k. (k, inode t i) \<in> set (puts t) \<and> slot_of k = sl"
    by blast
qed

lemma step_files_ok:
  assumes "cold_step True b s t" and inv: "race_inv b s"
  shows "files_ok b t"
proof -
  have d: "dirents_ok s" and w: "\<And>g. writer_ok b s (writers s g)" and f: "files_ok b s"
    using inv by (simp_all add: race_inv_def)
  note inj = dirents_ok_inj [OF d] and fresh = dirents_ok_fresh [OF d]
  show ?thesis
    using assms(1)
  proof cases
    case (w_open_new g k dt)
    then show ?thesis
      using fresh by (auto intro!: files_ok_frame [OF f]) blast
  next
    case (w_open_trunc g k dt i)
    then show ?thesis
      using inj by (auto intro!: files_ok_frame [OF f]) (metis tmpPath_facts(2))
  next
    case (w_write g k dt i pos n)
    then have "dirent s (tmpPath b (slot_of k)) = Some i"
      using w [of g] by simp
    then show ?thesis
      using w_write inj by (auto intro!: files_ok_frame [OF f]) (metis tmpPath_facts(2))
  next
    case (w_rename g k dt i)
    then have "(k, dt) \<in> set (puts s)" "inode s i = dt"
      using w [of g] by auto
    then show ?thesis
      using w_rename f by (auto simp: files_ok_def slotPath_inj)
  qed (auto intro!: files_ok_frame [OF f])
qed

lemma cold_reach_inv: "cold_reach True b s \<Longrightarrow> race_inv b s"
proof (induction rule: cold_reach.induct)
  case start
  show ?case by (rule race_inv_init)
next
  case (step s t)
  then show ?case
    using step_dirents_ok step_exclusive step_writers_ok step_files_ok step_placed_ok
    by (simp add: race_inv_def)
qed

lemma cold_read_slot: "cold_read b s k = map_option (inode s) (dirent s (slotPath b (slot_of k)))"
  by (simp add: cold_read_def chunkPath_slot)

subsection \<open>Properties\<close>

text \<open>
  C20: The write-to-temporary-then-rename scheme makes reads atomic as long as no two \<open>Put\<close>s of the
  same chunk (or of chunks with colliding hashes) overlap: whatever the interleaving of the system
  calls of any number of writers, and whichever of them fail (making the directory, opening, writing, closing, renaming,
  and removing the temporary file after a failed rename), a \<open>Get\<close> at any moment returns the complete data of some \<open>Put\<close>
  made for that file, or nothing, and nothing only if no \<open>Put\<close> for that file has succeeded so far.
\<close>

theorem cold_reads_complete_if_exclusive:
  assumes "cold_reach True baseDir s"
  shows "case cold_read baseDir s k of
      Some d \<Rightarrow> \<exists>k'. (k', d) \<in> set (puts s) \<and> slot_of k' = slot_of k
    | None \<Rightarrow> slot_of k \<notin> set (placed s)"
proof (cases "dirent s (slotPath baseDir (slot_of k))")
  case None
  then show ?thesis
    using cold_reach_inv [OF assms] by (auto simp: race_inv_def placed_ok_def cold_read_slot)
next
  case (Some i)
  have "files_ok baseDir s"
    using cold_reach_inv [OF assms] by (simp add: race_inv_def)
  then have "\<exists>k'. (k', inode s i) \<in> set (puts s) \<and> slot_of k' = slot_of k"
    using Some unfolding files_ok_def by metis
  with Some show ?thesis
    by (simp add: cold_read_slot)
qed

abbreviation race_state ::
  "(string \<Rightarrow> nat option) \<Rightarrow> (nat \<Rightarrow> bytes) \<Rightarrow> nat \<Rightarrow> (nat \<Rightarrow> writer) \<Rightarrow> (ChunkKey \<times> bytes) list \<Rightarrow> slot list \<Rightarrow> race" where
  "race_state D I N W P Q \<equiv> \<lparr>dirent = D, inode = I, nextIno = N, writers = W, puts = P, placed = Q\<rparr>"

lemma single_put_run:
  "\<exists>s. cold_reach True b s \<and> cold_read b s k = Some [9] \<and> puts s = [(k, [9])] \<and> placed s = [slot_of k]"
proof -
  let ?p = "slotPath b (slot_of k)" and ?t = "tmpPath b (slot_of k)"
  let ?d = "[9] :: bytes" and ?I = "\<lambda>_ :: nat. [] :: bytes"
  let ?W = "\<lambda>x. (\<lambda>_. Idle)(0 := x)" and ?P = "[(k, [9])] :: (ChunkKey \<times> bytes) list"
  let ?s0 = "race_state (\<lambda>_. None) ?I 0 (?W (Started k ?d)) ?P []"
  let ?s1 = "race_state (\<lambda>_. None) ?I 0 (?W (Ready k ?d)) ?P []"
  let ?s2 = "race_state [?t \<mapsto> 0] (?I(0 := [])) 1 (?W (Opened k ?d 0 0)) ?P []"
  let ?s3 = "race_state [?t \<mapsto> 0] (?I(0 := ?d)) 1 (?W (Opened k ?d 0 1)) ?P []"
  let ?s4 = "race_state [?t \<mapsto> 0] (?I(0 := ?d)) 1 (?W (Written k ?d)) ?P []"
  let ?s5 = "race_state ([?t \<mapsto> 0](?t := None, ?p \<mapsto> 0)) (?I(0 := ?d)) 1 (?W (Finished None)) ?P [slot_of k]"
  have f0: "cold_step True b race_init ?s0"
    using w_spawn [of race_init 0 True k b ?d] by (simp add: race_init_def)
  have f1: "cold_step True b ?s0 ?s1"
    using w_mkdir [of ?s0 0 k ?d True b] by simp
  have f2: "cold_step True b ?s1 ?s2"
    using w_open_new [of ?s1 0 k ?d b True] by simp
  have f3: "cold_step True b ?s2 ?s3"
    using w_write [of ?s2 0 k ?d 0 0 1 True b] by (simp add: write_at_def)
  have f4: "cold_step True b ?s3 ?s4"
    using w_close [of ?s3 0 k ?d 0 True b] by simp
  have f5: "cold_step True b ?s4 ?s5"
    using w_rename [of ?s4 0 k ?d b 0 True] by simp
  have "cold_reach True b ?s5"
    by (intro cold_reach.step [OF _ f5] cold_reach.step [OF _ f4] cold_reach.step [OF _ f3] cold_reach.step [OF _ f2]
        cold_reach.step [OF _ f1] cold_reach.step [OF _ f0] cold_reach.start)
  then show ?thesis
    by (intro exI [of _ ?s5]) (simp add: cold_read_slot)
qed

theorem cold_reads_complete_if_exclusive_witness:
  "\<exists>s. cold_reach True ''c'' s \<and> cold_read ''c'' s \<lparr>ObjectKey = ''a'', ChunkIndex = 0\<rparr> = Some [9] \<and>
     (\<exists>k'. (k', [9]) \<in> set (puts s) \<and> slot_of k' = slot_of \<lparr>ObjectKey = ''a'', ChunkIndex = 0\<rparr>)"
proof -
  obtain s where s: "cold_reach True ''c'' s" "cold_read ''c'' s \<lparr>ObjectKey = ''a'', ChunkIndex = 0\<rparr> = Some [9]"
    using single_put_run by blast
  from cold_reads_complete_if_exclusive [OF s(1), of "\<lparr>ObjectKey = ''a'', ChunkIndex = 0\<rparr>"] s show ?thesis by auto
qed

text \<open>
  C21: With overlapping writers of one chunk the scheme is not atomic: both \<open>Put\<close>s write the same
  two bytes, yet in a reachable state a \<open>Get\<close> succeeds with an empty chunk (the second writer has
  reopened and truncated the temporary file the first one then renames into place).
\<close>

theorem cold_read_torn_by_race:
  "\<exists>s. cold_reach False baseDir s \<and> puts s = [(k, [1, 2]), (k, [1, 2])] \<and> cold_read baseDir s k = Some []"
proof -
  let ?p = "slotPath baseDir (slot_of k)" and ?t = "tmpPath baseDir (slot_of k)"
  let ?d = "[1, 2] :: bytes" and ?I = "\<lambda>_ :: nat. [] :: bytes"
  let ?W = "\<lambda>x y. (\<lambda>_. Idle)(0 := x, 1 := y)" and ?P = "[(k, [1, 2]), (k, [1, 2])] :: (ChunkKey \<times> bytes) list"
  let ?s0 = "race_state (\<lambda>_. None) ?I 0 ((\<lambda>_. Idle)(0 := Started k ?d)) [(k, ?d)] []"
  let ?s1 = "race_state (\<lambda>_. None) ?I 0 (?W (Started k ?d) (Started k ?d)) ?P []"
  let ?s2 = "race_state (\<lambda>_. None) ?I 0 (?W (Ready k ?d) (Started k ?d)) ?P []"
  let ?s3 = "race_state (\<lambda>_. None) ?I 0 (?W (Ready k ?d) (Ready k ?d)) ?P []"
  let ?s4 = "race_state [?t \<mapsto> 0] (?I(0 := [])) 1 (?W (Opened k ?d 0 0) (Ready k ?d)) ?P []"
  let ?s5 = "race_state [?t \<mapsto> 0] (?I(0 := ?d)) 1 (?W (Opened k ?d 0 2) (Ready k ?d)) ?P []"
  let ?s6 = "race_state [?t \<mapsto> 0] (?I(0 := ?d)) 1 (?W (Written k ?d) (Ready k ?d)) ?P []"
  let ?s7 = "race_state [?t \<mapsto> 0] (?I(0 := [])) 1 (?W (Written k ?d) (Opened k ?d 0 0)) ?P []"
  let ?s8 = "race_state ([?t \<mapsto> 0](?t := None, ?p \<mapsto> 0)) (?I(0 := [])) 1 (?W (Finished None) (Opened k ?d 0 0)) ?P [slot_of k]"
  have f0: "cold_step False baseDir race_init ?s0"
    using w_spawn [of race_init 0 False k baseDir ?d] by (simp add: race_init_def)
  have f1: "cold_step False baseDir ?s0 ?s1"
    using w_spawn [of ?s0 1 False k baseDir ?d] by simp
  have f2: "cold_step False baseDir ?s1 ?s2"
    using w_mkdir [of ?s1 0 k ?d False baseDir] by (simp add: fun_upd_twist)
  have f3: "cold_step False baseDir ?s2 ?s3"
    using w_mkdir [of ?s2 1 k ?d False baseDir] by simp
  have f4: "cold_step False baseDir ?s3 ?s4"
    using w_open_new [of ?s3 0 k ?d baseDir False] by (simp add: fun_upd_twist)
  have f5: "cold_step False baseDir ?s4 ?s5"
    using w_write [of ?s4 0 k ?d 0 0 2 False baseDir] by (simp add: write_at_def numeral_2_eq_2 fun_upd_twist)
  have f6: "cold_step False baseDir ?s5 ?s6"
    using w_close [of ?s5 0 k ?d 0 False baseDir] by (simp add: numeral_2_eq_2 fun_upd_twist)
  have f7: "cold_step False baseDir ?s6 ?s7"
    using w_open_trunc [of ?s6 1 k ?d baseDir 0 False] by simp
  have f8: "cold_step False baseDir ?s7 ?s8"
    using w_rename [of ?s7 0 k ?d baseDir 0 False] by (simp add: fun_upd_twist)
  have "cold_reach False baseDir ?s8"
    by (intro cold_reach.step [OF _ f8] cold_reach.step [OF _ f7] cold_reach.step [OF _ f6] cold_reach.step [OF _ f5]
        cold_reach.step [OF _ f4] cold_reach.step [OF _ f3] cold_reach.step [OF _ f2] cold_reach.step [OF _ f1]
        cold_reach.step [OF _ f0] cold_reach.start)
  then show ?thesis
    by (intro exI [of _ ?s8]) (simp add: cold_read_slot)
qed

end
