(* ===== verification/Kernel_Tracker.thy ===== *)
theory Kernel_Tracker
  imports Prelude
begin

section \<open>The kernel side of the eBPF tracker\<close>

text \<open>
  \<^verbatim>\<open>ebpf/tc_tracker.c\<close>: the program the kernel runs on every packet that leaves the interface, and its three maps. The
  maps are LRU hashes of 1024 entries: the kernel may drop any entry at any time, which is a step of its own
  here. Packets are processed one after the other. Map keys are the four bytes of the destination address as they stand in
  the packet.
\<close>

subsection \<open>Parsing\<close>

text \<open>The bytes between \<^verbatim>\<open>data\<close> and \<^verbatim>\<open>data_end\<close>: an Ethernet header of 14 bytes, then an IPv4 header of at least 20.\<close>

definition parse_ip_dst :: "bytes \<Rightarrow> bytes option" where
  "parse_ip_dst pkt =
     (if length pkt < 14 then None
      else if take 2 (drop 12 pkt) \<noteq> [0x08, 0x00] then None
      else if length pkt < 34 then None
      else if pkt ! 23 \<noteq> 6 then None
      else Some (take 4 (drop 30 pkt)))"

record bpf_tcp_sock =
  srtt_us :: u32
  total_retrans :: u32

record sk_buff =
  skb_data :: bytes
  skb_len :: u32
  skb_tcp :: "bpf_tcp_sock option"

subsection \<open>The program\<close>

record kernel_maps =
  km_rtt_samples :: "bytes \<Rightarrow> u32 option"
  km_bytes_tx :: "bytes \<Rightarrow> u64 option"
  km_retransmits :: "bytes \<Rightarrow> u32 option"

definition empty_maps :: kernel_maps where
  "empty_maps = \<lparr>km_rtt_samples = (\<lambda>_. None), km_bytes_tx = (\<lambda>_. None), km_retransmits = (\<lambda>_. None)\<rparr>"

definition TC_ACT_OK :: int where
  "TC_ACT_OK = 0"

definition count_bytes :: "bytes \<Rightarrow> u32 \<Rightarrow> kernel_maps \<Rightarrow> kernel_maps" where
  "count_bytes dst len m =
     (let pkt_len = ucast len
      in case km_bytes_tx m dst of
           Some n \<Rightarrow> m\<lparr>km_bytes_tx := (km_bytes_tx m)(dst \<mapsto> n + pkt_len)\<rparr>
         | None \<Rightarrow> m\<lparr>km_bytes_tx := (km_bytes_tx m)(dst \<mapsto> pkt_len)\<rparr>)"

definition sample_tcp :: "bytes \<Rightarrow> bpf_tcp_sock \<Rightarrow> kernel_maps \<Rightarrow> kernel_maps" where
  "sample_tcp dst tcp m =
     (let rtt_us = drop_bit 3 (srtt_us tcp); m1 = m\<lparr>km_rtt_samples := (km_rtt_samples m)(dst \<mapsto> rtt_us)\<rparr>;
          retrans = total_retrans tcp
      in case km_retransmits m1 dst of
           Some prev \<Rightarrow>
             if prev < retrans then m1\<lparr>km_retransmits := (km_retransmits m1)(dst \<mapsto> prev + (retrans - prev))\<rparr> else m1
         | None \<Rightarrow> m1\<lparr>km_retransmits := (km_retransmits m1)(dst \<mapsto> retrans)\<rparr>)"

definition tc_tracker :: "sk_buff \<Rightarrow> kernel_maps \<Rightarrow> int \<times> kernel_maps" where
  "tc_tracker skb m =
     (case parse_ip_dst (skb_data skb) of
        None \<Rightarrow> (TC_ACT_OK, m)
      | Some dst_ip \<Rightarrow>
          let m1 = count_bytes dst_ip (skb_len skb) m
          in (TC_ACT_OK, case skb_tcp skb of None \<Rightarrow> m1 | Some tcp \<Rightarrow> sample_tcp dst_ip tcp m1))"

subsection \<open>Runs\<close>

datatype kernel_event = Packet sk_buff | DropRtt bytes | DropBytes bytes | DropRetrans bytes

fun kernel_step :: "kernel_maps \<Rightarrow> kernel_event \<Rightarrow> kernel_maps" where
  "kernel_step m (Packet skb) = snd (tc_tracker skb m)"
| "kernel_step m (DropRtt a) = m\<lparr>km_rtt_samples := (km_rtt_samples m)(a := None)\<rparr>"
| "kernel_step m (DropBytes a) = m\<lparr>km_bytes_tx := (km_bytes_tx m)(a := None)\<rparr>"
| "kernel_step m (DropRetrans a) = m\<lparr>km_retransmits := (km_retransmits m)(a := None)\<rparr>"

definition kernel_run :: "kernel_event list \<Rightarrow> kernel_maps" where
  "kernel_run evs = foldl kernel_step empty_maps evs"

text \<open>What the packets to an address say, the newest first, back to the last time its entry was dropped.\<close>

definition packets_to :: "bytes \<Rightarrow> kernel_event list \<Rightarrow> sk_buff list" where
  "packets_to a evs = List.map_filter (\<lambda>e. case e of Packet skb \<Rightarrow> if parse_ip_dst (skb_data skb) = Some a then Some skb else None | _ \<Rightarrow> None) evs"

definition recent :: "kernel_event \<Rightarrow> kernel_event list \<Rightarrow> kernel_event list" where
  "recent dropped evs = takeWhile (\<lambda>e. e \<noteq> dropped) (rev evs)"

definition socks_to :: "bytes \<Rightarrow> kernel_event list \<Rightarrow> bpf_tcp_sock list" where
  "socks_to a evs = List.map_filter skb_tcp (packets_to a evs)"

definition sent_bytes :: "bytes \<Rightarrow> kernel_event list \<Rightarrow> u64 option" where
  "sent_bytes a evs =
     (case packets_to a (recent (DropBytes a) evs) of
        [] \<Rightarrow> None
      | ps \<Rightarrow> Some (sum_list (map (\<lambda>skb. ucast (skb_len skb)) ps)))"

definition newest_rtt :: "bytes \<Rightarrow> kernel_event list \<Rightarrow> u32 option" where
  "newest_rtt a evs = (case socks_to a (recent (DropRtt a) evs) of [] \<Rightarrow> None | tcp # _ \<Rightarrow> Some (drop_bit 3 (srtt_us tcp)))"

definition most_retrans :: "bytes \<Rightarrow> kernel_event list \<Rightarrow> u32 option" where
  "most_retrans a evs =
     (case socks_to a (recent (DropRetrans a) evs) of
        [] \<Rightarrow> None
      | ts \<Rightarrow> Some (Max (set (map total_retrans ts))))"

lemma kernel_run_snoc: "kernel_run (evs @ [e]) = kernel_step (kernel_run evs) e"
  by (simp add: kernel_run_def)

lemma recent_snoc: "recent d (evs @ [e]) = (if e = d then [] else e # recent d evs)"
  by (simp add: recent_def)

lemma packets_to_Nil [simp]: "packets_to a [] = []" "socks_to a [] = []"
  by (simp_all add: packets_to_def socks_to_def List.map_filter_def)

lemma packets_to_Cons:
  "packets_to a (e # evs) =
     (case e of Packet skb \<Rightarrow> (if parse_ip_dst (skb_data skb) = Some a then skb # packets_to a evs else packets_to a evs)
      | _ \<Rightarrow> packets_to a evs)"
  by (simp add: packets_to_def List.map_filter_def split: kernel_event.split)

lemma socks_to_Cons:
  "socks_to a (e # evs) =
     (case e of
        Packet skb \<Rightarrow> (if parse_ip_dst (skb_data skb) = Some a then (case skb_tcp skb of None \<Rightarrow> [] | Some t \<Rightarrow> [t]) else []) @ socks_to a evs
      | _ \<Rightarrow> socks_to a evs)"
  by (simp add: socks_to_def packets_to_Cons List.map_filter_def split: kernel_event.split option.split)

lemma tc_tracker_bytes:
  "km_bytes_tx (snd (tc_tracker skb m)) a =
     (if parse_ip_dst (skb_data skb) = Some a
      then Some (ucast (skb_len skb) + (case km_bytes_tx m a of None \<Rightarrow> 0 | Some n \<Rightarrow> n)) else km_bytes_tx m a)"
  by (auto simp: tc_tracker_def count_bytes_def sample_tcp_def Let_def ac_simps split: option.split)

lemma tc_tracker_rtt:
  "km_rtt_samples (snd (tc_tracker skb m)) a =
     (if parse_ip_dst (skb_data skb) = Some a
      then (case skb_tcp skb of None \<Rightarrow> km_rtt_samples m a | Some t \<Rightarrow> Some (drop_bit 3 (srtt_us t))) else km_rtt_samples m a)"
  by (auto simp: tc_tracker_def count_bytes_def sample_tcp_def Let_def split: option.split)

lemma tc_tracker_retrans:
  "km_retransmits (snd (tc_tracker skb m)) a =
     (if parse_ip_dst (skb_data skb) = Some a
      then (case skb_tcp skb of None \<Rightarrow> km_retransmits m a
        | Some t \<Rightarrow> Some (case km_retransmits m a of None \<Rightarrow> total_retrans t | Some p \<Rightarrow> max p (total_retrans t)))
      else km_retransmits m a)"
  by (auto simp: tc_tracker_def count_bytes_def sample_tcp_def Let_def max_def split: option.split)

lemma kernel_bytes: "km_bytes_tx (kernel_run evs) a = sent_bytes a evs"
proof (induction evs rule: rev_induct)
  case Nil
  show ?case by (simp add: kernel_run_def empty_maps_def sent_bytes_def recent_def packets_to_def)
next
  case (snoc e evs)
  then show ?case
    by (cases e) (auto simp: kernel_run_snoc sent_bytes_def recent_snoc packets_to_Cons tc_tracker_bytes split: list.split)
qed

lemma kernel_rtt: "km_rtt_samples (kernel_run evs) a = newest_rtt a evs"
proof (induction evs rule: rev_induct)
  case Nil
  show ?case by (simp add: kernel_run_def empty_maps_def newest_rtt_def recent_def)
next
  case (snoc e evs)
  then show ?case
    by (cases e) (auto simp: kernel_run_snoc newest_rtt_def recent_snoc socks_to_Cons tc_tracker_rtt split: option.split)
qed

lemma kernel_retrans: "km_retransmits (kernel_run evs) a = most_retrans a evs"
proof (induction evs rule: rev_induct)
  case Nil
  show ?case by (simp add: kernel_run_def empty_maps_def most_retrans_def recent_def)
next
  case (snoc e evs)
  then show ?case
    by (cases e) (auto simp: kernel_run_snoc most_retrans_def recent_snoc socks_to_Cons tc_tracker_retrans max.commute
        split: option.split list.split)
qed

text \<open>The fields the parser reads are those of an Ethernet frame with an IPv4 packet that carries TCP.\<close>

lemma parse_ip_dst_frame:
  assumes "length macs = 12" and "length ip_start = 9" and "length sum_src = 6" and "length dst = 4"
  shows "parse_ip_dst (macs @ [0x08, 0x00] @ ip_start @ [6] @ sum_src @ dst @ payload) = Some dst"
  using assms by (simp add: parse_ip_dst_def nth_append)

lemma parse_ip_dst_length: "parse_ip_dst pkt = Some dst \<Longrightarrow> length dst = 4"
  by (auto simp: parse_ip_dst_def split: if_splits)

end
