(* ===== verification/Ebpf.thy ===== *)
theory Ebpf
  imports Kernel_Tracker
begin

section \<open>The eBPF tracker\<close>

text \<open>
  \<^verbatim>\<open>EBPFTracker\<close> of \<^verbatim>\<open>ebpf/tracker.go\<close> and the \<^verbatim>\<open>Close\<close> methods of \<^verbatim>\<open>ebpf/bpf_bpfel.go\<close>: which kernel objects are open
  after construction, failed construction and \<open>Close\<close>, and the round-trip threshold. The \<^verbatim>\<open>cilium/ebpf\<close> library and the
  network interface are parameters. \<^verbatim>\<open>main\<close> does not use the tracker.
\<close>

subsection \<open>Kernel objects\<close>

datatype bpf_handle = TcTracker | RttSamples | BytesTx | Retransmits | TcLink

record bpfObjects =
  bpfPrograms :: "bpf_handle list"
  bpfMaps :: "bpf_handle list"

definition loaded_objects :: bpfObjects where
  "loaded_objects = \<lparr>bpfPrograms = [TcTracker], bpfMaps = [RttSamples, BytesTx, Retransmits]\<rparr>"

text \<open>
  \<^verbatim>\<open>_BpfClose\<close> stops at the first closer that fails; \<open>close_err\<close> is what closing a handle answers. The second component are the
  handles whose \<^verbatim>\<open>Close\<close> was called.
\<close>

fun BpfClose :: "(bpf_handle \<Rightarrow> string option) \<Rightarrow> bpf_handle list \<Rightarrow> string option \<times> bpf_handle list" where
  "BpfClose close_err [] = (None, [])"
| "BpfClose close_err (h # hs) =
     (case close_err h of
        Some err \<Rightarrow> (Some err, [h])
      | None \<Rightarrow> (case BpfClose close_err hs of (res, called) \<Rightarrow> (res, h # called)))"

definition objects_close :: "(bpf_handle \<Rightarrow> string option) \<Rightarrow> bpfObjects \<Rightarrow> string option \<times> bpf_handle list" where
  "objects_close close_err objs =
     (case BpfClose close_err (bpfPrograms objs) of
        (Some err, called) \<Rightarrow> (Some err, called)
      | (None, called) \<Rightarrow> (case BpfClose close_err (bpfMaps objs) of (res, called') \<Rightarrow> (res, called @ called')))"

subsection \<open>Loading\<close>

text \<open>
  \<open>parse_spec\<close> is \<^verbatim>\<open>ebpf.LoadCollectionSpecFromReader\<close>, \<open>assign\<close> is \<^verbatim>\<open>LoadAndAssign\<close>; the embedded object file
  comes as an argument.
\<close>

definition loadBpfFromReader :: "('rd \<Rightarrow> string + 'spec) \<Rightarrow> 'rd \<Rightarrow> string + 'spec" where
  "loadBpfFromReader parse_spec rd =
     (case parse_spec rd of Inl err \<Rightarrow> Inl (''can't load bpf: '' @ err) | Inr spec \<Rightarrow> Inr spec)"

definition loadBpf :: "(bytes \<Rightarrow> string + 'spec) \<Rightarrow> bytes \<Rightarrow> string + 'spec" where
  "loadBpf parse_spec BpfBytes = loadBpfFromReader parse_spec BpfBytes"

definition loadBpfObjects :: "(bytes \<Rightarrow> string + 'spec) \<Rightarrow> ('spec \<Rightarrow> string option) \<Rightarrow> bytes \<Rightarrow> string option" where
  "loadBpfObjects parse_spec assign BpfBytes =
     (case loadBpf parse_spec BpfBytes of Inl err \<Rightarrow> Some err | Inr spec \<Rightarrow> assign spec)"

subsection \<open>The tracker\<close>

record EBPFTracker =
  et_objs :: bpfObjects
  et_tcLink :: bpf_handle
  et_ifIndex :: int

text \<open>The handles opened and not closed again come with the result.\<close>

definition NewEBPFTracker ::
  "(string \<Rightarrow> string + int) \<Rightarrow> (bytes \<Rightarrow> string + 'spec) \<Rightarrow> ('spec \<Rightarrow> string option) \<Rightarrow> bytes \<Rightarrow> (int \<Rightarrow> string option) \<Rightarrow>
     (bpf_handle \<Rightarrow> string option) \<Rightarrow> (string \<Rightarrow> string) \<Rightarrow> string \<Rightarrow> (string + EBPFTracker) \<times> bpf_handle list" where
  "NewEBPFTracker interfaceByName parse_spec assign BpfBytes attach_err close_err quote ifaceName =
     (case interfaceByName ifaceName of
        Inl err \<Rightarrow> (Inl (''ebpf: resolve interface '' @ quote ifaceName @ '': '' @ err), [])
      | Inr ifIndex \<Rightarrow>
     (case loadBpfObjects parse_spec assign BpfBytes of
        Some err \<Rightarrow> (Inl (''ebpf: load objects: '' @ err), [])
      | None \<Rightarrow>
          let opened = bpfPrograms loaded_objects @ bpfMaps loaded_objects
          in case attach_err ifIndex of
               Some err \<Rightarrow>
                 (Inl (''ebpf: attach TC egress on '' @ quote ifaceName @ '': '' @ err),
                  filter (\<lambda>h. h \<notin> set (snd (objects_close close_err loaded_objects))) opened)
             | None \<Rightarrow>
                 (Inr \<lparr>et_objs = loaded_objects, et_tcLink = TcLink, et_ifIndex = ifIndex\<rparr>, opened @ [TcLink])))"

definition rttSlowThreshold :: "32 word" where
  "rttSlowThreshold = 50000"

text \<open>The map lookup answers an error or the value; \<open>not_exist\<close> is \<^verbatim>\<open>os.IsNotExist\<close> of its error.\<close>

definition RTTMicros :: "('addr \<Rightarrow> string + u32) \<Rightarrow> (string \<Rightarrow> bool) \<Rightarrow> 'addr \<Rightarrow> string + u32" where
  "RTTMicros lookup_rtt not_exist addr =
     (case lookup_rtt addr of
        Inl err \<Rightarrow> (if not_exist err then Inr 0 else Inl (''ebpf: RTT lookup: '' @ err))
      | Inr val \<Rightarrow> Inr val)"

definition IsSlow :: "('addr \<Rightarrow> string + u32) \<Rightarrow> (string \<Rightarrow> bool) \<Rightarrow> 'addr \<Rightarrow> bool" where
  "IsSlow lookup_rtt not_exist addr =
     (case RTTMicros lookup_rtt not_exist addr of Inl err \<Rightarrow> False | Inr rtt \<Rightarrow> rttSlowThreshold < rtt)"

definition ebpf_close :: "(bpf_handle \<Rightarrow> string option) \<Rightarrow> EBPFTracker \<Rightarrow> string option \<times> bpf_handle list" where
  "ebpf_close close_err t =
     (case close_err (et_tcLink t) of
        Some err \<Rightarrow> (Some (''ebpf: close TC link: '' @ err), [et_tcLink t])
      | None \<Rightarrow> (case objects_close close_err (et_objs t) of (res, called) \<Rightarrow> (res, et_tcLink t # called)))"

text \<open>The stubs for systems other than Linux, and the constructors of the metrics package.\<close>

definition stub_NewEBPFTracker :: "string \<Rightarrow> string + unit" where
  "stub_NewEBPFTracker name = Inr ()"

definition stub_IsSlow :: "bytes \<Rightarrow> bool" where
  "stub_IsSlow addr = False"

definition stub_Close :: "string option" where
  "stub_Close = None"

definition metrics_NewEBPFTracker ::
  "(string \<Rightarrow> string + int) \<Rightarrow> (bytes \<Rightarrow> string + 'spec) \<Rightarrow> ('spec \<Rightarrow> string option) \<Rightarrow> bytes \<Rightarrow> (int \<Rightarrow> string option) \<Rightarrow>
     (bpf_handle \<Rightarrow> string option) \<Rightarrow> (string \<Rightarrow> string) \<Rightarrow> string \<Rightarrow> (string + EBPFTracker) \<times> bpf_handle list" where
  "metrics_NewEBPFTracker interfaceByName parse_spec assign BpfBytes attach_err close_err quote ifaceName =
     NewEBPFTracker interfaceByName parse_spec assign BpfBytes attach_err close_err quote ifaceName"

definition metrics_stub_NewEBPFTracker :: "string \<Rightarrow> string + unit" where
  "metrics_stub_NewEBPFTracker name = stub_NewEBPFTracker ''''"

subsection \<open>What stays open\<close>

lemma BpfClose_all: "\<forall>h \<in> set hs. close_err h = None \<Longrightarrow> BpfClose close_err hs = (None, hs)"
  by (induction hs) auto

lemma BpfClose_first_error:
  assumes "\<forall>h \<in> set hs. close_err h = None" and "close_err h = Some err"
  shows "BpfClose close_err (hs @ h # hs') = (Some err, hs @ [h])"
  using assms by (induction hs) auto

lemma failed_tracker_leaves_nothing_open:
  assumes "\<forall>h. close_err h = None"
    and "NewEBPFTracker iface parse_spec assign obj_file attach_err close_err quote name = (Inl err, opened)"
  shows "opened = []"
  using assms BpfClose_all [of _ close_err]
  by (auto simp: NewEBPFTracker_def objects_close_def loaded_objects_def Let_def split: sum.split_asm option.split_asm)

lemma ebpf_close_complete:
  assumes "NewEBPFTracker iface parse_spec assign obj_file attach_err close_err quote name = (Inr t, opened)"
  shows "set (snd (ebpf_close close_err t)) = set opened \<longleftrightarrow> (\<forall>h \<in> {TcLink, TcTracker, RttSamples, BytesTx}. close_err h = None)"
  using assms
  by (auto simp: NewEBPFTracker_def ebpf_close_def objects_close_def loaded_objects_def Let_def
      split: sum.split_asm option.split_asm option.split)

lemma slow_iff_measured_above:
  "IsSlow lookup_rtt not_exist addr \<longleftrightarrow> (\<exists>rtt. lookup_rtt addr = Inr rtt \<and> 50000 < rtt)"
  by (auto simp: IsSlow_def RTTMicros_def rttSlowThreshold_def split: sum.split)

subsection \<open>Properties\<close>

text \<open>The lookup of the Go side: the key is the four bytes of the address, and the library reports a missing entry.\<close>

definition rtt_lookup :: "kernel_maps \<Rightarrow> string \<Rightarrow> bytes \<Rightarrow> string + u32" where
  "rtt_lookup m missing addr = (case km_rtt_samples m addr of None \<Rightarrow> Inl missing | Some v \<Rightarrow> Inr v)"

text \<open>
  C29: What the two halves of the tracker report is the history of the traffic: after any sequence of packets and of
  entries dropped by the kernel, the byte count of an address is the sum of the lengths of the packets sent to it since its
  entry was last dropped, the retransmission count is the greatest total of any one connection (not a sum over
  connections), the round-trip time the Go side reads is that of the newest packet of a connection, in microseconds,
  and the address counts as slow exactly when this is above 50 milliseconds; every packet is let through.
\<close>

theorem tracker_reports_traffic:
  "km_bytes_tx (kernel_run evs) addr = sent_bytes addr evs \<and>
   km_retransmits (kernel_run evs) addr = most_retrans addr evs \<and>
   RTTMicros (rtt_lookup (kernel_run evs) missing) not_exist addr =
     (case newest_rtt addr evs of
        Some rtt \<Rightarrow> Inr rtt
      | None \<Rightarrow> if not_exist missing then Inr 0 else Inl (''ebpf: RTT lookup: '' @ missing)) \<and>
   (IsSlow (rtt_lookup (kernel_run evs) missing) not_exist addr \<longleftrightarrow>
     (case socks_to addr (recent (DropRtt addr) evs) of [] \<Rightarrow> False | tcp # _ \<Rightarrow> 8 * 50000 + 8 \<le> srtt_us tcp)) \<and>
   fst (tc_tracker skb (kernel_run evs)) = TC_ACT_OK"
proof -
  have slow: "50000 < drop_bit 3 x \<longleftrightarrow> 8 * 50000 + 8 \<le> x" for x :: u32
  proof -
    have "uint (drop_bit 3 x) = uint x div 8"
      by (simp add: drop_bit_eq_div uint_div)
    then show ?thesis
      by (simp add: word_less_def word_le_def) linarith
  qed
  show ?thesis
    by (auto simp: kernel_bytes kernel_retrans kernel_rtt rtt_lookup_def RTTMicros_def IsSlow_def newest_rtt_def
        rttSlowThreshold_def slow tc_tracker_def Let_def split: option.split list.split)
qed

end
