(* ===== verification/Step_Interface.thy ===== *)
theory Step_Interface
  imports Prelude
begin

section \<open>Pools of goroutines that end\<close>

text \<open>
  What the two pools of the benchmark have in common: a partial step function whose steps keep an invariant and bring
  the end nearer, and which is stuck only at the end. The locale \<open>bounded_steps\<close> states it and derives that every run is
  bounded and that every state can be run to the end; the phase and the seeder interpret it.
\<close>

fun run_steps :: "('e \<Rightarrow> 's \<Rightarrow> 's option) \<Rightarrow> 'e list \<Rightarrow> 's \<Rightarrow> 's option" where
  "run_steps step [] s = Some s"
| "run_steps step (e # es) s = Option.bind (step e s) (run_steps step es)"

lemma run_steps_append: "run_steps step (es @ es') s = Option.bind (run_steps step es s) (run_steps step es')"
  by (induction es arbitrary: s) (auto split: Option.bind_splits)

lemma run_steps_reach:
  assumes "\<And>e s s'. P s \<Longrightarrow> step e s = Some s' \<Longrightarrow> P s'" and "run_steps step es s = Some s'" and "P s"
  shows "P s'"
  using assms(2,3) by (induction es arbitrary: s) (auto simp: bind_eq_Some_conv intro: assms(1))

locale bounded_steps =
  fixes step :: "'e \<Rightarrow> 's \<Rightarrow> 's option"
    and inv :: "'s \<Rightarrow> bool"
    and left :: "'s \<Rightarrow> nat"
    and finished :: "'s \<Rightarrow> bool"
  assumes step_inv: "step e s = Some s' \<Longrightarrow> inv s \<Longrightarrow> inv s'"
    and step_left: "step e s = Some s' \<Longrightarrow> left s' < left s"
    and progress: "inv s \<Longrightarrow> \<not> finished s \<Longrightarrow> \<exists>e s'. step e s = Some s'"
begin

lemma run_inv: "run_steps step es s = Some s' \<Longrightarrow> inv s \<Longrightarrow> inv s'"
  using run_steps_reach [of inv step] step_inv by blast

lemma run_bounded: "run_steps step es s = Some s' \<Longrightarrow> length es + left s' \<le> left s"
proof (induction es arbitrary: s)
  case (Cons e es)
  then obtain t where "step e s = Some t" "run_steps step es t = Some s'"
    by (auto simp: bind_eq_Some_conv)
  with Cons.IH step_left show ?case by fastforce
qed simp

lemma can_finish: "inv s \<Longrightarrow> \<exists>es s'. run_steps step es s = Some s' \<and> finished s' \<and> inv s'"
proof (induction "left s" arbitrary: s rule: less_induct)
  case less
  show ?case
  proof (cases "finished s")
    case True
    with less.prems show ?thesis
      by (intro exI [of _ "[]"]) simp
  next
    case False
    then obtain e t where t: "step e s = Some t"
      using progress less.prems by blast
    then obtain es s' where "run_steps step es t = Some s' \<and> finished s' \<and> inv s'"
      using less step_inv step_left by meson
    with t show ?thesis
      by (intro exI [of _ "e # es"]) simp
  qed
qed

end

end
