(* ===== verification/Kernel_Race.thy ===== *)
theory Kernel_Race
  imports Kernel_Tracker Step_Interface
begin

section \<open>The kernel program on several CPUs\<close>

text \<open>
  \<^verbatim>\<open>tc_tracker.c\<close> runs on every CPU at once, over the same maps. Each call of a map helper, each atomic addition and each
  read through a pointer is one step here. As long as the kernel drops no entry, pointers from a lookup stay
  valid; this is the case treated.
\<close>

subsection \<open>Steps of one CPU\<close>

datatype cpu_pc =
    CpuIdle
  | CpuParsed sk_buff bytes
  | CpuCount sk_buff bytes bool
  | CpuTcp bpf_tcp_sock bytes
  | CpuLook bpf_tcp_sock bytes
  | CpuFound bpf_tcp_sock bytes bool
  | CpuAdd bytes u32

definition after_count :: "sk_buff \<Rightarrow> bytes \<Rightarrow> cpu_pc" where
  "after_count skb dst = (case skb_tcp skb of None \<Rightarrow> CpuIdle | Some tcp \<Rightarrow> CpuTcp tcp dst)"

fun cpu_step :: "cpu_pc \<Rightarrow> kernel_maps \<Rightarrow> cpu_pc \<times> kernel_maps" where
  "cpu_step CpuIdle m = (CpuIdle, m)"
| "cpu_step (CpuParsed skb dst) m = (CpuCount skb dst (km_bytes_tx m dst \<noteq> None), m)"
| "cpu_step (CpuCount skb dst True) m =
     (after_count skb dst, m\<lparr>km_bytes_tx := (km_bytes_tx m)(dst := map_option (\<lambda>n. n + ucast (skb_len skb)) (km_bytes_tx m dst))\<rparr>)"
| "cpu_step (CpuCount skb dst False) m =
     (after_count skb dst, m\<lparr>km_bytes_tx := (km_bytes_tx m)(dst \<mapsto> ucast (skb_len skb))\<rparr>)"
| "cpu_step (CpuTcp tcp dst) m =
     (CpuLook tcp dst, m\<lparr>km_rtt_samples := (km_rtt_samples m)(dst \<mapsto> drop_bit 3 (srtt_us tcp))\<rparr>)"
| "cpu_step (CpuLook tcp dst) m = (CpuFound tcp dst (km_retransmits m dst \<noteq> None), m)"
| "cpu_step (CpuFound tcp dst True) m =
     (case km_retransmits m dst of
        None \<Rightarrow> (CpuIdle, m)
      | Some prev \<Rightarrow> (if prev < total_retrans tcp then CpuAdd dst (total_retrans tcp - prev) else CpuIdle, m))"
| "cpu_step (CpuFound tcp dst False) m = (CpuIdle, m\<lparr>km_retransmits := (km_retransmits m)(dst \<mapsto> total_retrans tcp)\<rparr>)"
| "cpu_step (CpuAdd dst delta) m =
     (CpuIdle, m\<lparr>km_retransmits := (km_retransmits m)(dst := map_option (\<lambda>n. n + delta) (km_retransmits m dst))\<rparr>)"

subsection \<open>Interleaving\<close>

datatype cpu_event = Arrive nat sk_buff | RunCpu nat

fun race_step :: "cpu_event \<Rightarrow> cpu_pc list \<times> kernel_maps \<Rightarrow> (cpu_pc list \<times> kernel_maps) option" where
  "race_step (Arrive i skb) (pcs, m) =
     (if i < length pcs \<and> pcs ! i = CpuIdle
      then Some (case parse_ip_dst (skb_data skb) of None \<Rightarrow> (pcs, m) | Some dst \<Rightarrow> (pcs[i := CpuParsed skb dst], m))
      else None)"
| "race_step (RunCpu i) (pcs, m) =
     (if i < length pcs then (case cpu_step (pcs ! i) m of (pc, m') \<Rightarrow> Some (pcs[i := pc], m')) else None)"

text \<open>Left alone, a CPU does what \<open>tc_tracker\<close> does.\<close>

lemma cpu_alone:
  assumes "i < length pcs" and "pcs ! i = CpuIdle"
  shows "run_steps race_step (Arrive i skb # replicate 6 (RunCpu i)) (pcs, m) = Some (pcs, snd (tc_tracker skb m))"
proof -
  have pcs: "pcs[i := CpuIdle] = pcs"
    using assms list_update_id by metis
  have six: "replicate 6 (RunCpu i) = [RunCpu i, RunCpu i, RunCpu i, RunCpu i, RunCpu i, RunCpu i]"
    by (simp add: numeral_eq_Suc)
  show ?thesis
  proof (cases "parse_ip_dst (skb_data skb)")
    case None
    with assms show ?thesis
      by (simp add: six pcs tc_tracker_def)
  next
    case (Some dst)
    then show ?thesis
      using assms pcs
      by (cases "km_bytes_tx m dst"; cases "skb_tcp skb"; cases "km_retransmits m dst")
        (auto simp: six tc_tracker_def count_bytes_def sample_tcp_def after_count_def Let_def add.commute
          intro!: kernel_maps.equality)
  qed
qed

subsection \<open>What is counted whatever the interleaving\<close>

text \<open>What a CPU is still going to add to the count of an address, and the step that would overwrite it.\<close>

fun pending_bytes :: "bytes \<Rightarrow> cpu_pc \<Rightarrow> u64" where
  "pending_bytes a (CpuParsed skb dst) = (if dst = a then ucast (skb_len skb) else 0)"
| "pending_bytes a (CpuCount skb dst found) = (if dst = a then ucast (skb_len skb) else 0)"
| "pending_bytes a pc = 0"

fun overwrites :: "bytes \<Rightarrow> cpu_pc \<Rightarrow> bool" where
  "overwrites a (CpuCount skb dst found) = (dst = a \<and> \<not> found)"
| "overwrites a pc = False"

definition arrived_bytes :: "bytes \<Rightarrow> cpu_event list \<Rightarrow> u64" where
  "arrived_bytes a evs = sum_list (map (\<lambda>e. case e of
     Arrive i skb \<Rightarrow> if parse_ip_dst (skb_data skb) = Some a then ucast (skb_len skb) else 0 | RunCpu i \<Rightarrow> 0) evs)"

lemma after_count_pending [simp]: "pending_bytes a (after_count skb dst) = 0" "overwrites a (after_count skb dst) = False"
  by (simp_all add: after_count_def split: option.split)

lemma cpu_step_bytes:
  assumes "km_bytes_tx m a = Some v" and "\<not> overwrites a pc" and "cpu_step pc m = (pc', m')"
  shows "\<exists>v'. km_bytes_tx m' a = Some v' \<and> v' + pending_bytes a pc' = v + pending_bytes a pc \<and> \<not> overwrites a pc'"
  using assms by (cases "(pc, m)" rule: cpu_step.cases) (auto split: option.splits if_splits)

definition counted :: "bytes \<Rightarrow> u64 \<Rightarrow> cpu_pc list \<times> kernel_maps \<Rightarrow> bool" where
  "counted a b = (\<lambda>(pcs, m). (\<exists>v. km_bytes_tx m a = Some v \<and> v + sum_list (map (pending_bytes a) pcs) = b) \<and>
     list_all (\<lambda>pc. \<not> overwrites a pc) pcs)"

lemma counted_update:
  assumes "counted a b (pcs, m)" and "i < length pcs" and "km_bytes_tx m a = Some v" and "km_bytes_tx m' a = Some v'"
    and "v' + pending_bytes a pc = v + pending_bytes a (pcs ! i) + n" and "\<not> overwrites a pc"
  shows "counted a (b + n) (pcs[i := pc], m')"
proof -
  let ?rest = "sum_list (map (pending_bytes a) (take i pcs @ drop (Suc i) pcs))"
  have "v + (pending_bytes a (pcs ! i) + ?rest) = b"
    using assms(1,3) by (simp add: counted_def sum_list_take_nth_drop [OF assms(2)])
  then have "v' + (pending_bytes a pc + ?rest) = b + n"
    using assms(5) by (metis (no_types, lifting) add.assoc add.commute)
  moreover have "list_all (\<lambda>pc. \<not> overwrites a pc) (pcs[i := pc])"
    using assms(1,6) by (auto simp: counted_def list_all_iff dest: set_update_subset_insert [THEN subsetD])
  ultimately show ?thesis
    using assms(4) by (simp add: counted_def sum_list_update_eq [OF assms(2)])
qed

lemma race_step_counted:
  assumes "race_step e x = Some y" and "counted a b x"
  shows "counted a (b + arrived_bytes a [e]) y"
proof -
  obtain pcs m pcs' m' where xy: "x = (pcs, m)" "y = (pcs', m')" by fastforce
  obtain v where v: "km_bytes_tx m a = Some v"
    using assms(2) by (auto simp: xy counted_def)
  have none: "\<not> overwrites a (pcs ! i)" if "i < length pcs" for i
    using assms(2) that by (auto simp: xy counted_def list_all_length)
  show ?thesis
  proof (cases e)
    case (Arrive i skb)
    with assms(1) have i: "i < length pcs" "pcs ! i = CpuIdle"
      by (auto simp: xy split: if_splits)
    show ?thesis
    proof (cases "parse_ip_dst (skb_data skb)")
      case None
      with assms Arrive i show ?thesis by (simp add: xy arrived_bytes_def)
    next
      case (Some dst)
      with assms Arrive i have y: "pcs' = pcs[i := CpuParsed skb dst]" "m' = m"
        by (simp_all add: xy)
      show ?thesis
        unfolding xy y
        by (rule counted_update [OF assms(2) [unfolded xy] i(1) v v]) (simp_all add: Arrive Some i arrived_bytes_def)
    qed
  next
    case (RunCpu i)
    with assms(1) obtain pc where i: "i < length pcs" "cpu_step (pcs ! i) m = (pc, m')" "pcs' = pcs[i := pc]"
      by (auto simp: xy split: if_splits prod.splits)
    obtain v' where "km_bytes_tx m' a = Some v'" "v' + pending_bytes a pc = v + pending_bytes a (pcs ! i)" "\<not> overwrites a pc"
      using cpu_step_bytes [OF v none [OF i(1)] i(2)] by blast
    then show ?thesis
      unfolding xy i(3) by (intro counted_update [OF assms(2) [unfolded xy] i(1) v]) (simp_all add: RunCpu arrived_bytes_def)
  qed
qed

lemma race_run_counted:
  "run_steps race_step evs x = Some y \<Longrightarrow> counted a b x \<Longrightarrow> counted a (b + arrived_bytes a evs) y"
proof (induction evs arbitrary: x b)
  case Nil
  then show ?case by (simp add: arrived_bytes_def)
next
  case (Cons e evs)
  then obtain z where z: "race_step e x = Some z" "run_steps race_step evs z = Some y"
    by (auto simp: bind_eq_Some_conv)
  have "arrived_bytes a (e # evs) = arrived_bytes a [e] + arrived_bytes a evs"
    by (simp add: arrived_bytes_def)
  with Cons.IH [OF z(2) race_step_counted [OF z(1) Cons.prems(2)]] show ?case
    by (simp add: add.assoc)
qed

subsection \<open>What is not\<close>

definition demo_skb :: "u32 \<Rightarrow> u32 \<Rightarrow> sk_buff" where
  "demo_skb len retrans =
     \<lparr>skb_data = replicate 12 0 @ [8, 0] @ replicate 9 0 @ [6] @ replicate 6 0 @ [10, 0, 0, 1], skb_len = len,
      skb_tcp = Some \<lparr>srtt_us = 800, total_retrans = retrans\<rparr>\<rparr>"

lemma demo_skb_dst: "parse_ip_dst (skb_data (demo_skb len retrans)) = Some [10, 0, 0, 1]"
  by (simp add: demo_skb_def parse_ip_dst_def eval_nat_numeral)

text \<open>
  The first two packets to an address, on two CPUs that both find no entry: the second update replaces the first, and
  only one packet is counted.
\<close>

lemma first_packets_race:
  "\<exists>pcs m. run_steps race_step [Arrive 0 (demo_skb 100 0), Arrive 1 (demo_skb 60 0), RunCpu 0, RunCpu 1, RunCpu 0, RunCpu 1]
      ([CpuIdle, CpuIdle], empty_maps) = Some (pcs, m) \<and> km_bytes_tx m [10, 0, 0, 1] = Some 60"
  by (simp add: demo_skb_dst empty_maps_def)
    (simp add: demo_skb_def)

text \<open>
  Two CPUs that report the same total of 5 retransmissions over a stored 0: both read 0, both add 5, and the map says 10.
\<close>

lemma retransmits_counted_twice:
  assumes "km_retransmits m0 [10, 0, 0, 1] = Some 0"
  shows "\<exists>pcs m. run_steps race_step
      ([Arrive 0 (demo_skb 100 5), Arrive 1 (demo_skb 60 5)] @ concat (replicate 6 [RunCpu 0, RunCpu 1])) ([CpuIdle, CpuIdle], m0) =
        Some (pcs, m) \<and> km_retransmits m [10, 0, 0, 1] = Some 10"
  using assms
  by (cases "km_bytes_tx m0 [10, 0, 0, 1]") (simp_all add: demo_skb_dst eval_nat_numeral, simp_all add: demo_skb_def after_count_def)

subsection \<open>Properties\<close>

text \<open>
  C30: Once an address has an entry, no packet goes uncounted: whatever the interleaving of the CPUs, when all of them have
  finished, the byte count has grown by exactly the lengths of the packets that were sent to the address (as
  64-bit numbers). Without an entry the first packets may be lost (\<open>first_packets_race\<close>).
\<close>

theorem kernel_count_exact_once_present:
  assumes "run_steps race_step evs (replicate n CpuIdle, m0) = Some (pcs, m)" and "list_all (\<lambda>pc. pc = CpuIdle) pcs"
    and "km_bytes_tx m0 a = Some b"
  shows "km_bytes_tx m a = Some (b + arrived_bytes a evs)"
proof -
  have idle: "sum_list (map (pending_bytes a) ps) = 0" if "list_all (\<lambda>pc. pc = CpuIdle) ps" for ps
    using that by (induction ps) auto
  have "counted a b (replicate n CpuIdle, m0)"
    using assms(3) idle [of "replicate n CpuIdle"] by (simp add: counted_def list_all_iff)
  from race_run_counted [OF assms(1) this] show ?thesis
    using idle [OF assms(2)] by (auto simp: counted_def)
qed

theorem kernel_count_exact_once_present_witness:
  "\<exists>m. run_steps race_step ([Arrive 0 (demo_skb 100 0), Arrive 1 (demo_skb 60 0)] @ concat (replicate 6 [RunCpu 0, RunCpu 1]))
      ([CpuIdle, CpuIdle], empty_maps\<lparr>km_bytes_tx := [[10, 0, 0, 1] \<mapsto> 7]\<rparr>) = Some ([CpuIdle, CpuIdle], m) \<and>
    km_bytes_tx m [10, 0, 0, 1] = Some 167"
proof -
  let ?evs = "[Arrive 0 (demo_skb 100 0), Arrive 1 (demo_skb 60 0)] @ concat (replicate 6 [RunCpu 0, RunCpu 1])"
  let ?m0 = "empty_maps\<lparr>km_bytes_tx := [[10, 0, 0, 1] \<mapsto> 7]\<rparr>"
  have two: "replicate 2 CpuIdle = [CpuIdle, CpuIdle]"
    by (simp add: numeral_2_eq_2)
  have "\<exists>m. run_steps race_step ?evs (replicate 2 CpuIdle, ?m0) = Some ([CpuIdle, CpuIdle], m)"
    by (simp add: two demo_skb_dst eval_nat_numeral empty_maps_def) (simp add: demo_skb_def after_count_def)
  then obtain m where m: "run_steps race_step ?evs (replicate 2 CpuIdle, ?m0) = Some ([CpuIdle, CpuIdle], m)" ..
  have "arrived_bytes [10, 0, 0, 1] ?evs = 160"
    by (simp add: arrived_bytes_def demo_skb_dst eval_nat_numeral) (simp add: demo_skb_def)
  then have "km_bytes_tx m [10, 0, 0, 1] = Some 167"
    using kernel_count_exact_once_present [OF m, of "[10, 0, 0, 1]" 7] by simp
  with m show ?thesis
    by (auto simp: two)
qed

end
