(* ===== verification/Warm_Requests.thy ===== *)
theory Warm_Requests
  imports System
begin

section \<open>Warm requests\<close>

text \<open>
  What the caches are for: a chunk that was requested or prefetched before is served from memory. \<open>resolveChunk\<close> leaves
  what it returns in the hot cache, and so does a prefetch job that does not fail; a request inside such a chunk is then
  answered with tier \<open>hot\<close> and without the store.
\<close>

subsection \<open>What a request leaves behind\<close>

lemma unshared_not_joined: "snd (snd (FetchChunkShared getObject b [] key i buf)) = False"
  by (simp add: split_beta)

lemma resolveChunk_leaves_hot:
  assumes inv: "hot_inv (w_hot w)" and "quiet e" and "ce_flights e = []"
    and run: "resolveChunk baseDir e k w = Inr (w', Inr (d, t))"
  shows "hot_lookup (w_hot w') k = Some d \<and> w_backend w' = w_backend w"
proof -
  obtain hot1 where g: "hot_get (w_hot w) k = (hot1, hot_lookup (w_hot w) k)"
    using hot_get_result [OF inv, of k] by (metis prod.collapse)
  have h1: "hot_inv hot1" "hot_lookup hot1 = hot_lookup (w_hot w)"
    using hot_get_inv [OF inv, of k] hot_get_lookup [OF inv, of k] g by (auto intro: ext)
  have put: "hot_lookup (w_hot (world_hot_put k x v)) k = Some x \<and> w_backend (world_hot_put k x v) = w_backend v"
    if "w_hot v = hot1" for x v
    using hot.put_same [OF h1(1), of k x] that by (simp add: world_hot_put_def split_beta)
  show ?thesis
  proof (cases "hot_lookup (w_hot w) k")
    case (Some x)
    with run g h1 show ?thesis by (auto simp: resolveChunk_def Let_def)
  next
    case None
    then show ?thesis
      using run g assms(2,3) put unshared_not_joined [of "ce_store e"]
      by (auto simp: resolveChunk_def Let_def quiet_def split: option.splits sum.splits prod.splits if_splits)
  qed
qed

text \<open>A range inside one chunk.\<close>

lemma serve_single_chunk:
  fixes s e c :: nat
  assumes ok: "world_ok store bucket baseDir w" and nc: "no_collisions store" and obj: "store key = Some obj"
    and len: "int (length obj) < 2 ^ 63" and env: "range_env_safe store bucket baseDir re key"
    and se: "s \<le> e" "e < length obj" and c: "s div ChunkSize = c" "e div ChunkSize = c"
    and calm: "\<forall>i. chunk_reliable store bucket (re_chunk re i)" and q: "\<forall>i. quiet (re_chunk re i) \<and> ce_flights (re_chunk re i) = []"
  shows "\<exists>w' t. serve_range rnd baseDir re meth key (int (length obj)) (int s) (int e) w (new_response acc) =
      Inr (w', range_response acc meth obj s e t) \<and> world_ok store bucket baseDir w' \<and>
      hot_lookup (w_hot w') \<lparr>ObjectKey = key, ChunkIndex = of_nat c\<rparr> = Some (chunk_of obj c) \<and> w_backend w' = w_backend w"
proof -
  let ?k = "\<lparr>ObjectKey = key, ChunkIndex = of_nat c\<rparr>" and ?e = "re_chunk re (of_nat c)"
  obtain w' resp where run: "serve_range rnd baseDir re meth key (int (length obj)) (int s) (int e) w (new_response acc) = Inr (w', resp)"
    "world_ok store bucket baseDir w'" "\<exists>t. resp = range_response acc meth obj s e t"
    using serve_range_correct [OF ok nc obj len env se, of rnd meth acc] calm by blast
  have c41: "c < 2 ^ 41" and uc: "uint64_of (int e sdiv int ChunkSize) = of_nat c" "uint64_of (int s sdiv int ChunkSize) = of_nat c"
    using uint64_chunk [OF se(2) len] uint64_chunk(1) [of s "length obj"] se len c by simp_all
  have un: "unat (of_nat c :: u64) = c"
    using c41 by (simp add: unat_of_nat)
  have one: "chunk_indices (of_nat c) (of_nat c) = [of_nat c]"
    using chunk_indices_nat [of c c] c41 by simp
  have "c * ChunkSize \<le> e"
    using div_times_less_eq_dividend [of e ChunkSize] c(2) by simp
  then obtain w1 r where r: "resolveChunk baseDir ?e ?k w = Inr (w1, r)"
    "case r of Inl err \<Rightarrow> \<not> chunk_reliable store bucket ?e | Inr (d, t) \<Rightarrow> d = chunk_of obj (unat (ChunkIndex ?k))"
    using resolveChunk_right [OF ok _ nc, of ?k ?e obj] env obj c41 un se(2)
    by (auto simp: range_env_safe_def uint_nat)
  then obtain t where t: "resolveChunk baseDir ?e ?k w = Inr (w1, Inr (chunk_of obj c, t))"
    using calm un by (cases r) auto
  have hot: "hot_lookup (w_hot w1) ?k = Some (chunk_of obj c) \<and> w_backend w1 = w_backend w"
    using resolveChunk_leaves_hot [OF world_okD(1) [OF ok] _ _ t] q by simp
  have before: "ce_others ?e BeforeChunk w = w" "ce_sched ?e = alone"
    using q by (simp_all add: quiet_def)
  obtain w2 where w2: "world_record rnd alone (ce_now ?e) key (of_nat c) w1 = Inr w2"
    using run(1) t before by (auto simp: serve_range_def Let_def uc one split: sum.splits)
  have "w_hot w' = w_hot w2 \<and> w_backend w' = w_backend w2"
    using run(1) t before w2 by (auto simp: serve_range_def Let_def uc one split: sum.splits prod.splits if_splits)
  with hot world_record_frame [OF w2] run show ?thesis
    by auto
qed

subsection \<open>Requests and prefetches make later requests hot\<close>

lemma ServeHTTP_sized:
  assumes s: "serving_safe store bucket baseDir re rq w obj" and m: "Method rq = ''GET''"
    and rng: "resolveByteRange (RangeHeader rq) (int (length obj)) = (x, y, True)"
    and head: "\<exists>n. re_head re bucket (request_key rq) = Inr n"
  obtains w1 where "world_ok store bucket baseDir w1" "sizes (w_backend w1) (request_key rq) = Some (int (length obj))"
    "ServeHTTP rnd baseDir re rq w =
      serve_range rnd baseDir re ''GET'' (request_key rq) (int (length obj)) x y w1 (new_response (re_accepts re))"
proof -
  have s': "world_ok store bucket baseDir w" "range_env_safe store bucket baseDir re (request_key rq)"
    "request_key rq \<noteq> ''''" "store (request_key rq) = Some obj" "RangeHeader rq \<noteq> ''''"
    using s by (auto simp: serving_safe_def)
  obtain b' r where os: "ObjectSize (re_head re) (w_backend w) (request_key rq) = (b', r)"
    "world_ok store bucket baseDir (w\<lparr>w_backend := b'\<rparr>)"
    "case r of Inl err \<Rightarrow> \<exists>x. err = HeadFailed (request_key rq) x \<and> re_head re bucket (request_key rq) = Inl x
     | Inr n \<Rightarrow> \<exists>obj. store (request_key rq) = Some obj \<and> n = int (length obj)"
    by (rule ObjectSize_right [OF s'(1,2)])
  then have r: "r = Inr (int (length obj))"
    using head s'(4) by (cases r) auto
  then have "sizes b' (request_key rq) = Some (int (length obj))"
    using os(1) ObjectSize_stores by blast
  with m s' os r rng show thesis
    by (intro that [OF os(2)]) (auto simp: ServeHTTP_def Let_def request_key_def)
qed

text \<open>
  C6: The second request is hot: once a range inside one chunk has been served (from whatever tier, undisturbed), every
  later \<open>GET\<close> inside the same chunk is answered 206 with its bytes and tier \<open>hot\<close>, whatever the store does
  in between, and touches neither the disk nor the backend.
\<close>

theorem second_request_is_hot:
  assumes "serving store bucket baseDir re rq w obj" and "Method rq = ''GET''"
    and "resolveByteRange (RangeHeader rq) (int (length obj)) = (int s, int e, True)"
    and "s div ChunkSize = c" and "e div ChunkSize = c"
    and "\<forall>i. calm (re_chunk re i)" and "\<forall>i. quiet (re_chunk re i) \<and> ce_flights (re_chunk re i) = []"
    and "\<exists>n. re_head re bucket (request_key rq) = Inr n"
    and "request_key rq2 = request_key rq" and "Method rq2 = ''GET''" and "RangeHeader rq2 \<noteq> ''''"
    and "resolveByteRange (RangeHeader rq2) (int (length obj)) = (int s2, int e2, True)"
    and "s2 div ChunkSize = c" and "e2 div ChunkSize = c" and "\<forall>i. quiet (re_chunk re2 i)"
  shows "\<exists>w1 t w2. ServeHTTP rnd baseDir re rq w = Inr (w1, range_response (re_accepts re) ''GET'' obj s e t) \<and>
    ServeHTTP rnd baseDir re2 rq2 w1 = Inr (w2, range_response (re_accepts re2) ''GET'' obj s2 e2 HotTier) \<and>
    w_disk w2 = w_disk w1 \<and> w_backend w2 = w_backend w1"
proof -
  have safe: "serving_safe store bucket baseDir re rq w obj" and rel: "\<forall>i. chunk_reliable store bucket (re_chunk re i)"
    using assms(1,6) by (auto simp: serving_serving_safe chunk_reliable_def)
  have s: "no_collisions store" "range_env_safe store bucket baseDir re (request_key rq)"
    "store (request_key rq) = Some obj" "int (length obj) < 2 ^ 63" "request_key rq \<noteq> ''''"
    using safe by (auto simp: serving_safe_def)
  have se: "s \<le> e" "e < length obj"
    using resolve_bounds [OF _ assms(3)] s(4) by auto
  obtain w0 where w0: "world_ok store bucket baseDir w0" "sizes (w_backend w0) (request_key rq) = Some (int (length obj))"
    "ServeHTTP rnd baseDir re rq w =
      serve_range rnd baseDir re ''GET'' (request_key rq) (int (length obj)) (int s) (int e) w0 (new_response (re_accepts re))"
    by (rule ServeHTTP_sized [OF safe assms(2,3,8)])
  obtain w1 t where w1: "ServeHTTP rnd baseDir re rq w = Inr (w1, range_response (re_accepts re) ''GET'' obj s e t)"
    "world_ok store bucket baseDir w1" "w_backend w1 = w_backend w0"
    "hot_lookup (w_hot w1) \<lparr>ObjectKey = request_key rq, ChunkIndex = of_nat c\<rparr> = Some (chunk_of obj c)"
    using serve_single_chunk [OF w0(1) s(1,3,4,2) se assms(4,5) rel assms(7), of rnd "''GET''" "re_accepts re"] w0(3) by auto
  have "\<exists>w2. ServeHTTP rnd baseDir re2 rq2 w1 = Inr (w2, range_response (re_accepts re2) ''GET'' obj s2 e2 HotTier) \<and>
      w_disk w2 = w_disk w1 \<and> w_backend w2 = w_backend w1 \<and> w_spill w2 = w_spill w1 \<and>
      hot_lookup (w_hot w2) = hot_lookup (w_hot w1)"
  proof (rule hot_range_needs_no_backend)
    show "\<forall>c'. s2 div ChunkSize \<le> c' \<longrightarrow> c' \<le> e2 div ChunkSize \<longrightarrow>
        hot_lookup (w_hot w1) \<lparr>ObjectKey = request_key rq2, ChunkIndex = of_nat c'\<rparr> = Some (chunk_of obj c')"
      using assms(13,14) w1(4) assms(9) by (metis le_antisym)
  qed (use assms w0(2) w1(2,3) world_okD(1,7) s in auto)
  with w1(1) show ?thesis by blast
qed

lemma prefetch_leaves_hot:
  assumes ok: "world_ok store bucket baseDir w" and env: "env_safe store bucket baseDir (job_key job) e"
    and calm: "chunk_reliable store bucket e"
    and obj: "store (fst job) = Some obj" and small: "uint (snd job) < 2 ^ 41" and inside: "unat (snd job) * ChunkSize < length obj"
  obtains hot' reg' ev where
    "fetchAndCache (shared_key (ce_store e) (w_backend w) (ce_flights e)) (ce_buf e) job (w_hot w, w_reg w) = Inr ((hot', reg'), ev)"
    "hot_inv hot'" "hot_lookup hot' (job_key job) = Some (chunk_of obj (unat (snd job)))"
proof -
  have k: "ObjectKey (job_key job) = fst job" "ChunkIndex (job_key job) = snd job"
    by (simp_all add: job_key_def)
  have right: "chunk_right store (job_key job) d \<longleftrightarrow> d = chunk_of obj (unat (snd job))" for d
    using obj inside by (simp add: chunk_right_def k)
  have buf: "length (ce_buf e) = ChunkSize"
    using env by (simp add: env_safe_def)
  obtain n where n: "snd (FetchChunk (ce_store e) (w_backend w) (ce_flights e) (fst job) (snd job) (ce_buf e)) = Inr n"
    using fetch_calm [OF calm world_okD(6) [OF ok], of "job_key job" obj] obj small inside k by auto
  have inv: "hot_inv (w_hot w)" by (rule world_okD(1) [OF ok])
  from inv buf job_key_def [of job] show thesis
  proof (cases rule: fetchAndCache_cases [where getObject = "ce_store e" and b = "w_backend w" and ws = "ce_flights e" and reg = "w_reg w"])
    case (hit hot1)
    then obtain d where "hot_lookup (w_hot w) (job_key job) = Some d" by auto
    moreover from this have "d = chunk_of obj (unat (snd job))"
      using holds_allD [OF world_okD(2) [OF ok]] right by blast
    ultimately show thesis
      by (intro that [OF hit(1,2)]) (simp add: hit(3))
  next
    case (failed hot1 err)
    with n show thesis by (simp add: k shared_key_def)
  next
    case (filled hot1 d)
    have "chunk_right store (job_key job) d"
      by (rule served_right [OF env world_okD(6) [OF ok] _ _ filled(1)]) (use obj small k in simp_all)
    then have "d = chunk_of obj (unat (snd job))"
      by (simp add: right)
    then show thesis
      using hot.put_inv [OF filled(4)] hot.put_same [OF filled(4)] by (intro that [OF filled(3)]) simp_all
  qed
qed

text \<open>
  C7: Prefetching works: when a prefetch job for a chunk of an object runs in a coherent state and its fetch is not
  cancelled, then the next \<open>GET\<close> inside that chunk is answered 206 with its bytes and tier \<open>hot\<close>, even if the
  store has become unreachable.
\<close>

theorem prefetched_chunk_is_hot:
  assumes "world_ok store bucket baseDir w" and "env_ok store bucket baseDir (job_key job) e" and "calm e"
    and "store (fst job) = Some obj" and "int (length obj) < 2 ^ 63" and "uint (snd job) < 2 ^ 41"
    and "request_key rq = fst job" and "request_key rq \<noteq> ''''" and "Method rq = ''GET''" and "RangeHeader rq \<noteq> ''''"
    and "resolveByteRange (RangeHeader rq) (int (length obj)) = (int s, int x, True)"
    and "s div ChunkSize = unat (snd job)" and "x div ChunkSize = unat (snd job)"
    and "sizes (w_backend w) (fst job) = Some (int (length obj))" and "\<forall>i. quiet (re_chunk re i)"
  shows "\<exists>hot' reg' ev w2.
    fetchAndCache (shared_key (ce_store e) (w_backend w) (ce_flights e)) (ce_buf e) job (w_hot w, w_reg w) = Inr ((hot', reg'), ev) \<and>
    ServeHTTP rnd baseDir re rq (w\<lparr>w_hot := hot', w_reg := reg', w_spill := w_spill w @ ev\<rparr>) =
      Inr (w2, range_response (re_accepts re) ''GET'' obj s x HotTier)"
proof -
  have env: "env_safe store bucket baseDir (job_key job) e" "chunk_reliable store bucket e"
    using assms(2,3) by (auto simp: env_ok_def chunk_reliable_def)
  have sx: "x < length obj"
    using resolve_bounds [OF _ assms(11)] assms(5) by auto
  then have inside: "unat (snd job) * ChunkSize < length obj"
    using div_times_less_eq_dividend [of x ChunkSize] assms(13) by simp
  obtain hot' reg' ev where f:
    "fetchAndCache (shared_key (ce_store e) (w_backend w) (ce_flights e)) (ce_buf e) job (w_hot w, w_reg w) = Inr ((hot', reg'), ev)"
    "hot_inv hot'" "hot_lookup hot' (job_key job) = Some (chunk_of obj (unat (snd job)))"
    by (rule prefetch_leaves_hot [OF assms(1) env assms(4,6) inside])
  let ?w = "w\<lparr>w_hot := hot', w_reg := reg', w_spill := w_spill w @ ev\<rparr>"
  have "\<exists>w2. ServeHTTP rnd baseDir re rq ?w = Inr (w2, range_response (re_accepts re) ''GET'' obj s x HotTier) \<and>
      w_disk w2 = w_disk ?w \<and> w_backend w2 = w_backend ?w \<and> w_spill w2 = w_spill ?w \<and>
      hot_lookup (w_hot w2) = hot_lookup (w_hot ?w)"
  proof (rule hot_range_needs_no_backend)
    show "\<forall>c. s div ChunkSize \<le> c \<longrightarrow> c \<le> x div ChunkSize \<longrightarrow>
        hot_lookup (w_hot ?w) \<lparr>ObjectKey = request_key rq, ChunkIndex = of_nat c\<rparr> = Some (chunk_of obj c)"
      using f(3) assms(7,12,13) by (auto simp: job_key_def dest: le_antisym)
  qed (use assms f(2) world_okD(7) in auto)
  with f(1) show ?thesis by blast
qed

text \<open>The demonstration object is a single chunk; its store can be taken away.\<close>

definition dead_env :: request_env where
  "dead_env =
     demo_env\<lparr>re_head := (\<lambda>bucket key. Inl ''down''),
       re_chunk := (\<lambda>i. demo_chunk_env\<lparr>ce_store := (\<lambda>b k r. Inl ''down'')\<rparr>)\<rparr>"

lemma dead_env_quiet: "quiet (re_chunk dead_env i)" "re_accepts dead_env = None"
  by (simp_all add: dead_env_def demo_env_def demo_chunk_env_def quiet_def)

theorem second_request_is_hot_witness:
  "\<exists>w1 t w2. ServeHTTP (\<lambda>x. x) ''c'' demo_env (demo_request ''bytes=1-3'') demo_world =
      Inr (w1, range_response None ''GET'' [1, 2, 3, 4, 5] 1 3 t) \<and>
    ServeHTTP (\<lambda>x. x) ''c'' dead_env (demo_request ''bytes=1-3'') w1 =
      Inr (w2, range_response None ''GET'' [1, 2, 3, 4, 5] 1 3 HotTier)"
proof -
  let ?rq = "demo_request ''bytes=1-3''"
  have "\<exists>w1 t w2. ServeHTTP (\<lambda>x. x) ''c'' demo_env ?rq demo_world =
      Inr (w1, range_response (re_accepts demo_env) ''GET'' [1, 2, 3, 4, 5] 1 3 t) \<and>
    ServeHTTP (\<lambda>x. x) ''c'' dead_env ?rq w1 = Inr (w2, range_response (re_accepts dead_env) ''GET'' [1, 2, 3, 4, 5] 1 3 HotTier) \<and>
    w_disk w2 = w_disk w1 \<and> w_backend w2 = w_backend w1"
    by (rule second_request_is_hot [OF demo_serving, where c = 0])
      (use demo_resolve dead_env_quiet in \<open>simp_all add: demo_request_def calm_def quiet_def demo_env_def demo_chunk_env_def
        demo_store_def request_key_def trim_prefix_def has_prefix_def ChunkSize_val\<close>)
  then show ?thesis
    by (auto simp: dead_env_quiet demo_env_def)
qed

definition demo_sized_world :: world where
  "demo_sized_world = demo_world\<lparr>w_backend := demo_backend\<lparr>sizes := [''v.mp4'' \<mapsto> 5]\<rparr>\<rparr>"

theorem prefetched_chunk_is_hot_witness:
  "\<exists>hot' reg' ev w2.
    fetchAndCache (shared_key (ce_store demo_chunk_env) (w_backend demo_sized_world) []) (ce_buf demo_chunk_env) (''v.mp4'', 0)
      (w_hot demo_sized_world, w_reg demo_sized_world) = Inr ((hot', reg'), ev) \<and>
    ServeHTTP (\<lambda>x. x) ''c'' dead_env (demo_request ''bytes=1-3'')
      (demo_sized_world\<lparr>w_hot := hot', w_reg := reg', w_spill := w_spill demo_sized_world @ ev\<rparr>) =
      Inr (w2, range_response None ''GET'' [1, 2, 3, 4, 5] 1 3 HotTier)"
proof -
  have s: "world_ok demo_store ''data'' ''c'' demo_world" "range_env_ok demo_store ''data'' ''c'' demo_env ''v.mp4''"
    using demo_serving [of "''x''"]
    by (auto simp: serving_def demo_request_def request_key_def trim_prefix_def has_prefix_def)
  have ok: "world_ok demo_store ''data'' ''c'' demo_sized_world"
    using s(1) by (simp add: world_ok_def holds_all_def demo_sized_world_def demo_world_def demo_backend_def demo_store_def)
  have env: "env_ok demo_store ''data'' ''c'' (job_key (''v.mp4'', 0)) demo_chunk_env"
    using s(2) by (simp add: range_env_ok_def demo_env_def job_key_def)
  have fl: "ce_flights demo_chunk_env = []"
    by (simp add: demo_chunk_env_def)
  show ?thesis
    by (rule prefetched_chunk_is_hot [OF ok env, where re = dead_env, unfolded fl dead_env_quiet(2)])
      (use demo_resolve dead_env_quiet in \<open>simp_all add: demo_request_def calm_def demo_chunk_env_def demo_sized_world_def
        demo_store_def request_key_def trim_prefix_def has_prefix_def ChunkSize_val\<close>)
qed

end
