(* ===== verification/Responses.thy ===== *)
theory Responses
  imports Range_Requests
begin

section \<open>The shape of every response\<close>

text \<open>
  What a client gets whatever the state of the proxy: no hypothesis on caches, store or other goroutines is made.
  \<open>response_wf\<close> fixes status, every header and the body of the response to each request, from the answers of the size
  lookup, of the streaming GET and of the chunk fetches.
\<close>

text \<open>What reaches a client that stops reading after some bytes.\<close>

definition sent :: "nat option \<Rightarrow> bytes \<Rightarrow> bytes" where
  "sent acc d = (case acc of None \<Rightarrow> d | Some m \<Rightarrow> take m d)"

definition error_response :: "nat option \<Rightarrow> string \<Rightarrow> int \<Rightarrow> response \<Rightarrow> bool" where
  "error_response acc msg code resp \<longleftrightarrow>
     status resp = Some code \<and>
     headers resp = [''Content-Type'' \<mapsto> ''text/plain; charset=utf-8'', ''X-Content-Type-Options'' \<mapsto> ''nosniff''] \<and>
     body resp = sent acc (bytes_of (msg @ [char_of (10 :: nat)]))"

text \<open>
  The part of chunk number \<open>c\<close>, whose data is \<open>d\<close>, inside the bytes \<open>x\<close> to \<open>y\<close> of the object; and what is written of
  consecutive chunks: their parts up to the first that is empty.
\<close>

definition part_of :: "nat \<Rightarrow> nat \<Rightarrow> nat \<times> bytes \<Rightarrow> bytes" where
  "part_of x y = (\<lambda>(c, d). subslice d (x - c * ChunkSize) (Suc y - c * ChunkSize))"

definition range_body :: "nat \<Rightarrow> nat \<Rightarrow> nat \<Rightarrow> bytes list \<Rightarrow> bytes" where
  "range_body x y c ds = concat (takeWhile (\<lambda>p. p \<noteq> []) (map (part_of x y) (zip [c ..< c + length ds] ds)))"

definition response_wf :: "(rat \<Rightarrow> rat) \<Rightarrow> string \<Rightarrow> request_env \<Rightarrow> request \<Rightarrow> world \<Rightarrow> response \<Rightarrow> bool" where
  "response_wf rnd baseDir re rq w resp \<longleftrightarrow>
     (let acc = re_accepts re; key = request_key rq; size_lookup = ObjectSize (re_head re) (w_backend w) key in
      if Method rq \<notin> {''GET'', ''HEAD''} then error_response acc ''method not allowed'' 405 resp
      else if key = '''' then error_response acc ''missing object key in path'' 400 resp
      else if Method rq = ''GET'' \<and> RangeHeader rq = '''' then
        (case re_stream re (Bucket (cfg (w_backend w))) key None of
           Inl err \<Rightarrow> error_response acc ''upstream error'' 502 resp
         | Inr out \<Rightarrow>
             status resp = Some 200 \<and> body resp = sent acc (fst (body_bytes (Body out))) \<and>
             headers resp = (case ContentType out of
               None \<Rightarrow> (\<lambda>_. None) | Some ct \<Rightarrow> if ct = '''' then (\<lambda>_. None) else [''Content-Type'' \<mapsto> ct]))
      else (case snd size_lookup of
           Inl err \<Rightarrow> error_response acc ''upstream error'' 502 resp
         | Inr n \<Rightarrow>
             if RangeHeader rq = '''' then
               status resp = Some 200 \<and> body resp = [] \<and>
               headers resp = [''Content-Length'' \<mapsto> show_int n, ''Content-Type'' \<mapsto> ''application/octet-stream'',
                 ''Accept-Ranges'' \<mapsto> ''bytes'']
             else (case resolveByteRange (RangeHeader rq) n of (x, y, ok) \<Rightarrow>
               if \<not> ok then
                 status resp = Some 416 \<and> body resp = [] \<and> headers resp = [''Content-Range'' \<mapsto> ''bytes */'' @ show_int n]
               else (case resolve_all rnd baseDir (re_chunk re) key
                       (map of_nat [nat x div ChunkSize ..< Suc (nat y div ChunkSize)]) [] HotTier
                       (w\<lparr>w_backend := fst size_lookup\<rparr>) of
                   Inl panic \<Rightarrow> False
                 | Inr (w1, Inl err) \<Rightarrow> error_response acc ''upstream error'' 502 resp
                 | Inr (w1, Inr (ds, t)) \<Rightarrow>
                     status resp = Some 206 \<and>
                     headers resp =
                       [''Content-Range'' \<mapsto> ''bytes '' @ show_int x @ ''-'' @ show_int y @ ''/'' @ show_int n,
                        ''Content-Length'' \<mapsto> show_int (y - x + 1), ''Content-Type'' \<mapsto> ''application/octet-stream'',
                        ''Accept-Ranges'' \<mapsto> ''bytes'', ''X-Cache-Tier'' \<mapsto> tier_name t] \<and>
                     body resp = (if Method rq = ''GET'' then sent acc (range_body (nat x) (nat y) (nat x div ChunkSize) ds) else [])))))"

subsection \<open>What writing a body does\<close>

lemma write_body_sent:
  assumes "status r \<noteq> None"
  shows "fst (write_body d r) = r\<lparr>body := body r @ sent (accepts r) d,
    accepts := map_option (\<lambda>m. m - length d) (accepts r)\<rparr>"
  using assms by (auto simp: write_body_def write_header_def sent_def Let_def min_def split: option.split)

lemma error_response_http_error: "error_response acc msg code (http_error msg code (new_response acc))"
  by (simp add: error_response_def http_error_def Let_def set_header_def write_header_def new_response_def write_body_sent
      fun_upd_twist)

lemma io_copy_sent:
  "status r \<noteq> None \<Longrightarrow> status (io_copy rd r) = status r \<and> headers (io_copy rd r) = headers r \<and>
     body (io_copy rd r) = body r @ sent (accepts r) (fst (body_bytes rd))"
proof (induction rd r rule: io_copy.induct)
  case (1 r)
  then show ?case by (simp add: sent_def split: option.split)
next
  case (2 d e rd r)
  show ?case
  proof (cases "accepts r")
    case None
    with 2 show ?thesis
      by (cases e) (auto simp: write_body_def write_header_def sent_def Let_def)
  next
    case (Some m)
    with 2 show ?thesis
      by (cases e) (auto simp: write_body_def write_header_def sent_def Let_def min_def not_less)
  qed
qed

subsection \<open>What writing a range does\<close>

lemma subslice_min: "subslice xs i (min j (length xs)) = subslice xs i j"
  by (simp add: subslice_def min_def)

lemma subslice_nil: "subslice xs i j = [] \<longleftrightarrow> min j (length xs) \<le> i"
  by (auto simp: subslice_def)

lemma write_chunk_part:
  fixes x y c :: nat
  assumes "x \<le> y" and "int y < 2 ^ 63 - 1" and "c * ChunkSize \<le> y" and "c < 2 ^ 41"
  shows "write_chunks (int x) (int y) (of_nat c) (d # cs) r served =
    (if part_of x y (c, d) = [] then Inr (r, served, False)
     else case write_body (part_of x y (c, d)) r of (r', n, failed) \<Rightarrow>
       if failed then Inr (r', i64 (served + int n), True)
       else write_chunks (int x) (int y) (of_nat (Suc c)) cs r' (i64 (served + int n)))"
proof -
  define b where "b = c * ChunkSize"
  have b: "b \<le> y" using assms(3) by (simp add: b_def)
  have "uint (of_nat c :: u64) = int c"
    using assms(4) by (simp add: uint_nat unat_of_nat)
  then have "int64_of (of_nat c) = int c"
    using assms(4) by (simp add: int64_of_small)
  then have "int64_of (of_nat c) * int ChunkSize = int b"
    by (simp add: b_def)
  then have base: "i64 (int64_of (of_nat c) * int ChunkSize) = int b"
    using assms(2) b by (simp add: i64_id)
  have start: "(if int x > int b then i64 (int x - int b) else 0) = int (x - b)"
    using assms(1,2) by (auto simp: i64_id of_nat_diff)
  have e1: "i64 (i64 (int y - int b) + 1) = int (Suc y - b)"
    using assms(2) b by (simp add: i64_id of_nat_diff)
  have fin: "(if int (Suc y - b) < int (length d) then int (Suc y - b) else int (length d)) = int (min (Suc y - b) (length d))"
    by (simp add: min_def)
  have p: "part_of x y (c, d) = subslice d (x - b) (min (Suc y - b) (length d))"
    by (simp add: part_of_def b_def subslice_min)
  have nxt: "of_nat c + 1 = (of_nat (Suc c) :: u64)"
    by simp
  show ?thesis
  proof (cases "min (Suc y - b) (length d) \<le> x - b")
    case True
    then have "part_of x y (c, d) = []" by (simp add: p subslice_nil)
    with True show ?thesis
      unfolding write_chunks.simps Let_def base start e1 fin of_nat_le_iff by simp
  next
    case False
    then have ne: "part_of x y (c, d) \<noteq> []"
      by (simp add: p subslice_nil)
    have "slice_checked d (int (x - b)) (int (min (Suc y - b) (length d))) = Inr (part_of x y (c, d))"
      unfolding p using False by (intro slice_checked_nat) linarith+
    then show ?thesis
      unfolding write_chunks.simps Let_def base start e1 fin of_nat_le_iff if_not_P [OF False] if_not_P [OF ne] nxt
      by (simp only: sum.case)
  qed
qed

lemma range_body_Nil: "range_body x y c [] = []"
  by (simp add: range_body_def)

lemma range_body_Cons:
  "range_body x y c (d # ds) = (if part_of x y (c, d) = [] then [] else part_of x y (c, d) @ range_body x y (Suc c) ds)"
proof -
  have "[c ..< c + length (d # ds)] = c # [Suc c ..< Suc c + length ds]"
    by (simp add: upt_conv_Cons del: upt_Suc)
  then show ?thesis
    by (simp add: range_body_def del: upt_Suc)
qed

lemma write_chunks_body:
  fixes x y c :: nat
  assumes xy: "x \<le> y" "int y < 2 ^ 63 - 1" and "c + length ds \<le> Suc (y div ChunkSize)"
    and "status r \<noteq> None" and "i64 served = served"
  shows "write_chunks (int x) (int y) (of_nat c) ds r served =
    (case write_body (range_body x y c ds) r of (r', n, failed) \<Rightarrow> Inr (r', i64 (served + int n), failed))"
  using assms(3-5)
proof (induction ds arbitrary: c r served)
  case Nil
  then show ?case by (simp add: range_body_Nil write_body_nil)
next
  case (Cons d ds)
  have "c \<le> y div ChunkSize" using Cons.prems(1) by simp
  then have cy: "c * ChunkSize \<le> y"
    using div_times_less_eq_dividend [of y ChunkSize] by (meson le_trans mult_le_mono1)
  have c41: "c < 2 ^ 41"
    using cy xy(2) by (simp add: ChunkSize_val)
  show ?case
  proof (cases "part_of x y (c, d) = []")
    case True
    then show ?thesis
      unfolding write_chunk_part [OF xy cy c41] range_body_Cons using Cons.prems(2,3) by (simp add: write_body_nil)
  next
    case False
    obtain r1 n1 f1 where w1: "write_body (part_of x y (c, d)) r = (r1, n1, f1)" by (metis prod_cases3)
    have st1: "status r1 \<noteq> None"
      using write_body_status [OF Cons.prems(2), of "part_of x y (c, d)"] Cons.prems(2) w1 by simp
    have "Suc c + length ds \<le> Suc (y div ChunkSize)" using Cons.prems(1) by simp
    note ih = Cons.IH [OF this st1, of "i64 (served + int n1)"]
    show ?thesis
      unfolding write_chunk_part [OF xy cy c41] range_body_Cons if_not_P [OF False] w1
        write_body_append [OF Cons.prems(2)] prod.case
      using ih by (simp add: add.assoc split: prod.split)
  qed
qed

lemma resolve_all_length:
  "resolve_all rnd baseDir env key is cs tr w = Inr (w', Inr (ds, t)) \<Longrightarrow> length ds = length cs + length is"
proof (induction "is" arbitrary: cs tr w)
  case (Cons i "is")
  then obtain d tr' w2 where "resolve_all rnd baseDir env key is (cs @ [d]) tr' w2 = Inr (w', Inr (ds, t))"
    by (auto simp: Let_def split: sum.splits prod.splits)
  from Cons.IH [OF this] show ?case by simp
qed simp

subsection \<open>Every response\<close>

lemma serve_range_wf:
  fixes x y :: nat
  assumes run: "serve_range rnd baseDir re meth key n (int x) (int y) w (new_response acc) = Inr (w', resp)"
    and xy: "x \<le> y" "int y < n" "n < 2 ^ 63" and m: "meth = ''GET'' \<or> meth = ''HEAD''"
  shows "case resolve_all rnd baseDir (re_chunk re) key (map of_nat [x div ChunkSize ..< Suc (y div ChunkSize)]) [] HotTier w of
      Inl panic \<Rightarrow> False
    | Inr (w1, Inl err) \<Rightarrow> error_response acc ''upstream error'' 502 resp
    | Inr (w1, Inr (ds, t)) \<Rightarrow>
        status resp = Some 206 \<and>
        headers resp =
          [''Content-Range'' \<mapsto> ''bytes '' @ show_int (int x) @ ''-'' @ show_int (int y) @ ''/'' @ show_int n,
           ''Content-Length'' \<mapsto> show_int (int y - int x + 1), ''Content-Type'' \<mapsto> ''application/octet-stream'',
           ''Accept-Ranges'' \<mapsto> ''bytes'', ''X-Cache-Tier'' \<mapsto> tier_name t] \<and>
        body resp = (if meth = ''GET'' then sent acc (range_body x y (x div ChunkSize) ds) else [])"
proof -
  let ?a = "x div ChunkSize" and ?b = "y div ChunkSize"
  have y63: "int y < 2 ^ 63 - 1" and y64: "int (Suc y) < 2 ^ 63" using xy by linarith+
  have ab: "?a \<le> ?b" using xy(1) by (rule div_le_mono)
  have b41: "?b < 2 ^ 41" and ub: "uint64_of (int y sdiv int ChunkSize) = of_nat ?b"
    using uint64_chunk [of y "Suc y"] y64 by simp_all
  have ua: "uint64_of (int x sdiv int ChunkSize) = of_nat ?a"
    using uint64_chunk(1) [of x "Suc y"] xy(1) y64 by simp
  have idx: "chunk_indices (of_nat ?a) (of_nat ?b) = map of_nat [?a ..< Suc ?b]"
    by (rule chunk_indices_nat [OF ab b41])
  let ?ra = "resolve_all rnd baseDir (re_chunk re) key (map of_nat [?a ..< Suc ?b]) [] HotTier w"
  obtain w1 q where q: "?ra = Inr (w1, q)"
    using run by (cases ?ra) (auto simp: serve_range_def Let_def ua ub idx)
  show ?thesis
  proof (cases q)
    case (Inl err)
    then have "resp = http_error ''upstream error'' 502 (new_response acc)"
      using run q by (simp add: serve_range_def Let_def ua ub idx)
    with q Inl show ?thesis
      by (simp add: error_response_http_error)
  next
    case (Inr p)
    obtain ds t where p: "p = (ds, t)" by fastforce
    let ?r1 = "write_header 206 (range_headers (int x) (int y) n t (new_response acc))"
    have len: "i64 (int y - int x) = int y - int x" "i64 (int y - int x + 1) = int y - int x + 1"
      using xy y63 by (intro i64_id; simp)+
    have r1: "status ?r1 = Some 206" "accepts ?r1 = acc" "body ?r1 = []"
      "headers ?r1 = [''Content-Range'' \<mapsto> ''bytes '' @ show_int (int x) @ ''-'' @ show_int (int y) @ ''/'' @ show_int n,
           ''Content-Length'' \<mapsto> show_int (int y - int x + 1), ''Content-Type'' \<mapsto> ''application/octet-stream'',
           ''Accept-Ranges'' \<mapsto> ''bytes'', ''X-Cache-Tier'' \<mapsto> tier_name t]"
      by (simp_all add: write_header_def range_headers_def set_header_def new_response_def TierHeader_def len)
    have "length ds = Suc ?b - ?a"
      using resolve_all_length [OF q [unfolded Inr p]] by (simp del: upt_Suc)
    then have fit: "?a + length ds \<le> Suc ?b" using ab by simp
    have "resp = (if meth = ''GET'' then fst (write_body (range_body x y ?a ds) ?r1) else ?r1)"
    proof (cases "meth = ''GET''")
      case True
      obtain r2 k f where wb: "write_body (range_body x y ?a ds) ?r1 = (r2, k, f)" by (metis prod_cases3)
      have "status ?r1 \<noteq> None" using r1(1) by simp
      from write_chunks_body [OF xy(1) y63 fit this, of 0] wb
      have wr: "write_chunks (int x) (int y) (of_nat ?a) ds ?r1 0 = Inr (r2, i64 (0 + int k), f)"
        by simp
      show ?thesis
        using run q Inr p wr wb True by (cases f) (simp_all add: serve_range_def Let_def ua ub idx)
    next
      case False
      with run q Inr p show ?thesis
        by (simp add: serve_range_def Let_def ua ub idx)
    qed
    then show ?thesis
      using q Inr p r1 write_body_sent [of ?r1 "range_body x y ?a ds"] by simp
  qed
qed

lemma proxyFull_wf:
  assumes "resp = snd (proxyFull re key w (new_response acc))"
  shows "case re_stream re (Bucket (cfg (w_backend w))) key None of
      Inl err \<Rightarrow> error_response acc ''upstream error'' 502 resp
    | Inr out \<Rightarrow>
        status resp = Some 200 \<and> body resp = sent acc (fst (body_bytes (Body out))) \<and>
        headers resp = (case ContentType out of
          None \<Rightarrow> (\<lambda>_. None) | Some ct \<Rightarrow> if ct = '''' then (\<lambda>_. None) else [''Content-Type'' \<mapsto> ct])"
proof (cases "re_stream re (Bucket (cfg (w_backend w))) key None")
  case (Inl err)
  with assms show ?thesis
    by (simp add: proxyFull_def GetObjectStream_def error_response_http_error)
next
  case (Inr out)
  have h: "status (io_copy rd (write_header 200 r)) = Some 200 \<and> headers (io_copy rd (write_header 200 r)) = headers r \<and>
      body (io_copy rd (write_header 200 r)) = sent acc (fst (body_bytes rd))"
    if "status r = None" "body r = []" "accepts r = acc" for rd r
    using io_copy_sent [of "write_header 200 r" rd] that by (simp add: write_header_def)
  show ?thesis
    using assms Inr
    by (auto simp: proxyFull_def GetObjectStream_def h set_header_def new_response_def split: option.split)
qed

text \<open>
  C5: Every response is exactly as its request asks for, from any state whatever and with any behaviour of the store and of
  other goroutines, if the handler does not panic: 405 and 400 with their texts; a plain \<open>GET\<close> with 200, the store's
  content type and the bytes the store streamed, or 502; a plain \<open>HEAD\<close> with 200, the object's size as \<open>Content-Length\<close>
  and no body; a range outside the object with 416 and its size; a satisfiable range with 502 exactly when a chunk could not
  be had, and otherwise with 206, \<open>Content-Range\<close>, \<open>Content-Length\<close>, type, \<open>Accept-Ranges\<close> and tier headers and no others, and
  for \<open>GET\<close> the parts of the range in the chunks obtained, up to the first chunk that contributes nothing. In every case
  the body is cut where the client stops reading. (Object sizes are \<open>int64\<close> values.)
\<close>

theorem every_response_well_formed:
  assumes "ServeHTTP rnd baseDir re rq w = Inr (w', resp)"
    and "\<forall>n. snd (ObjectSize (re_head re) (w_backend w) (request_key rq)) = Inr n \<longrightarrow> in_i64 n"
  shows "response_wf rnd baseDir re rq w resp"
proof -
  let ?r = "new_response (re_accepts re)"
  consider "Method rq \<notin> {''GET'', ''HEAD''}" | "Method rq \<in> {''GET'', ''HEAD''}" "request_key rq = ''''"
    | "Method rq = ''GET''" "request_key rq \<noteq> ''''" "RangeHeader rq = ''''"
    | "Method rq \<in> {''GET'', ''HEAD''}" "request_key rq \<noteq> ''''" "\<not> (RangeHeader rq = '''' \<and> Method rq = ''GET'')"
    by blast
  then show ?thesis
  proof cases
    case 1
    then have "resp = http_error ''method not allowed'' 405 ?r"
      using assms(1) by (auto simp: ServeHTTP_def Let_def)
    with 1 show ?thesis by (simp add: response_wf_def Let_def error_response_http_error)
  next
    case 2
    then have "resp = http_error ''missing object key in path'' 400 ?r"
      using assms(1) by (auto simp: ServeHTTP_def Let_def request_key_def)
    with 2 show ?thesis by (auto simp: response_wf_def Let_def error_response_http_error)
  next
    case 3
    then have "resp = snd (proxyFull re (request_key rq) w ?r)"
      using assms(1) by (auto simp: ServeHTTP_def Let_def request_key_def prod_eq_iff)
    from proxyFull_wf [OF this] 3 show ?thesis
      by (simp add: response_wf_def Let_def)
  next
    case 4
    obtain b' q where os: "ObjectSize (re_head re) (w_backend w) (request_key rq) = (b', q)" by fastforce
    have eq: "ServeHTTP rnd baseDir re rq w = (case q of
        Inl err \<Rightarrow> Inr (w\<lparr>w_backend := b'\<rparr>, http_error ''upstream error'' 502 ?r)
      | Inr n \<Rightarrow> if RangeHeader rq = '''' then Inr (w\<lparr>w_backend := b'\<rparr>, write_header 200 (head_headers n ?r))
          else case resolveByteRange (RangeHeader rq) n of (x, y, ok) \<Rightarrow>
            if \<not> ok then Inr (w\<lparr>w_backend := b'\<rparr>, write_header 416 (set_header ''Content-Range'' (''bytes */'' @ show_int n) ?r))
            else serve_range rnd baseDir re (Method rq) (request_key rq) n x y (w\<lparr>w_backend := b'\<rparr>) ?r)"
    proof -
      have n: "\<not> (Method rq \<noteq> ''GET'' \<and> Method rq \<noteq> ''HEAD'')" "\<not> (RangeHeader rq = '''' \<and> Method rq = ''GET'')"
        using 4 by auto
      show ?thesis
        using 4(2) os unfolding ServeHTTP_def Let_def request_key_def if_not_P [OF n(1)] if_not_P [OF n(2)]
        by (cases q) simp_all
    qed
    have n4: "\<not> Method rq \<notin> {''GET'', ''HEAD''}" "\<not> (Method rq = ''GET'' \<and> RangeHeader rq = '''')"
      using 4 by auto
    note wf = response_wf_def [of rnd baseDir re rq w resp, unfolded Let_def if_not_P [OF n4(1)] if_not_P [OF 4(2)]
        if_not_P [OF n4(2)] os fst_conv snd_conv]
    show ?thesis
    proof (cases q)
      case (Inl err)
      with assms(1) eq show ?thesis
        unfolding wf by (auto simp: error_response_http_error)
    next
      case (Inr n)
      obtain x y ok where rng: "resolveByteRange (RangeHeader rq) n = (x, y, ok)" by (metis prod_cases3)
      consider (whole) "RangeHeader rq = ''''" | (bad) "RangeHeader rq \<noteq> ''''" "\<not> ok" | (good) "RangeHeader rq \<noteq> ''''" "ok" by blast
      then show ?thesis
      proof cases
        case whole
        with assms(1) eq Inr show ?thesis
          unfolding wf by (auto simp: write_header_def head_headers_def set_header_def new_response_def)
      next
        case bad
        with assms(1) eq Inr rng show ?thesis
          unfolding wf by (auto simp: write_header_def set_header_def new_response_def)
      next
        case good
        have n: "in_i64 n" using assms(2) os Inr by (simp only: snd_conv)
        then have n63: "n < 2 ^ 63" by simp
        have "resolveByteRange (RangeHeader rq) n = (x, y, True)" using rng good(2) by simp
        from resolve_bounds [OF n this] have xy: "x = int (nat x)" "y = int (nat y)" "nat x \<le> nat y" "int (nat y) < n" by auto
        have run: "serve_range rnd baseDir re (Method rq) (request_key rq) n (int (nat x)) (int (nat y)) (w\<lparr>w_backend := b'\<rparr>) ?r =
            Inr (w', resp)"
          using assms(1) eq Inr rng good xy(1,2) by simp
        have "Method rq = ''GET'' \<or> Method rq = ''HEAD''" using 4(1) by auto
        note sr = serve_range_wf [OF run xy(3,4) n63 this, folded xy(1,2)]
        show ?thesis
          unfolding wf Inr sum.case if_not_P [OF good(1)] rng prod.case using good(2) sr by (simp only: not_True_eq_False if_False)
      qed
    qed
  qed
qed

theorem every_response_well_formed_witness:
  "\<exists>w' resp. ServeHTTP (\<lambda>x. x) ''c'' demo_env (demo_request ''bytes=1-3'') demo_world = Inr (w', resp) \<and>
    response_wf (\<lambda>x. x) ''c'' demo_env (demo_request ''bytes=1-3'') demo_world resp"
proof -
  let ?rq = "demo_request ''bytes=1-3''"
  have safe: "serving_safe demo_store ''data'' ''c'' demo_env ?rq demo_world [1, 2, 3, 4, 5]"
    using demo_serving [of "''bytes=1-3''"] by (simp add: serving_serving_safe)
  have "resolveByteRange (RangeHeader ?rq) (int (length [1, 2, 3, 4, 5 :: byte])) = (1, 3, True)"
    using demo_resolve by (simp add: demo_request_def)
  moreover have "\<forall>i. chunk_reliable demo_store ''data'' (re_chunk demo_env i)"
    using demo_store_ranged by (simp add: chunk_reliable_def calm_def demo_env_def demo_chunk_env_def)
  ultimately obtain w' resp where r: "ServeHTTP (\<lambda>x. x) ''c'' demo_env ?rq demo_world = Inr (w', resp)"
    using serve_get_exact [OF safe, of 1 3 "\<lambda>x. x"]
    by (force simp: demo_request_def demo_env_def demo_store_def request_key_def trim_prefix_def has_prefix_def)
  have "\<forall>n. snd (ObjectSize (re_head demo_env) (w_backend demo_world) (request_key ?rq)) = Inr n \<longrightarrow> in_i64 n"
    by (simp add: ObjectSize_def demo_env_def demo_world_def demo_backend_def demo_request_def request_key_def trim_prefix_def
        has_prefix_def demo_store_def)
  with r every_response_well_formed show ?thesis by blast
qed

end
