(* ===== verification/Portal_Files.thy ===== *)
theory Portal_Files
  imports Complex_Main Go_Strings
begin

section \<open>The benchmark's file catalogue\<close>

text \<open>
  \<^verbatim>\<open>cmd/bench/s3.go\<close> (\<open>kind\<close>) and the catalogue part of \<^verbatim>\<open>cmd/bench/edu.go\<close>: how files are
  classified, which course a key belongs to, and the synthetic catalogue. \<^verbatim>\<open>math/rand\<close> is a record of
  four functions on a generator state and its seeding (\<open>rng\<close>), of which \<open>rng_ok\<close> states the documented ranges.
  Floating-point operations round by the parameter \<open>rnd\<close>.
\<close>

subsection \<open>Random numbers and conversions\<close>

record 'g rng =
  NewSource :: "int \<Rightarrow> 'g"
  Float64 :: "'g \<Rightarrow> rat \<times> 'g"
  ExpFloat64 :: "'g \<Rightarrow> rat \<times> 'g"
  Intn :: "int \<Rightarrow> 'g \<Rightarrow> int \<times> 'g"
  Int63n :: "int \<Rightarrow> 'g \<Rightarrow> int \<times> 'g"

definition rng_ok :: "'g rng \<Rightarrow> bool" where
  "rng_ok R \<longleftrightarrow>
     (\<forall>g. 0 \<le> fst (Float64 R g) \<and> fst (Float64 R g) < 1) \<and> (\<forall>g. 0 \<le> fst (ExpFloat64 R g)) \<and>
     (\<forall>n g. 0 < n \<longrightarrow> 0 \<le> fst (Intn R n g) \<and> fst (Intn R n g) < n) \<and>
     (\<forall>n g. 0 < n \<longrightarrow> 0 \<le> fst (Int63n R n g) \<and> fst (Int63n R n g) < n)"

text \<open>\<^verbatim>\<open>int64(x)\<close> of a float truncates towards zero.\<close>

definition trunc :: "rat \<Rightarrow> int" where
  "trunc x = (if x < 0 then - \<lfloor>- x\<rfloor> else \<lfloor>x\<rfloor>)"

subsection \<open>Classification\<close>

text \<open>
  \<^verbatim>\<open>strings.ToLower\<close> as far as an ASCII suffix of the result can tell: apart from the ASCII capitals, two
  characters have an ASCII lower case, the Kelvin sign (k) and the dotted capital I (i).
\<close>

fun to_lower :: "string \<Rightarrow> string" where
  "to_lower [] = []"
| "to_lower (c # cs) =
     (if 65 \<le> (of_char c :: nat) \<and> (of_char c :: nat) \<le> 90 then char_of (of_char c + 32 :: nat) # to_lower cs
      else if c = CHR 0xC4 \<and> cs \<noteq> [] \<and> hd cs = CHR 0xB0 then CHR ''i'' # to_lower (drop 1 cs)
      else if c = CHR 0xE2 \<and> take 2 cs = [CHR 0x84, CHR 0xAA] then CHR ''k'' # to_lower (drop 2 cs)
      else c # to_lower cs)"

definition kind :: "string \<Rightarrow> string" where
  "kind key =
     (let k = to_lower key
      in if has_suffix k ''.mp4'' \<or> has_suffix k ''.webm'' \<or> has_suffix k ''.mov'' then ''video''
         else if has_suffix k ''.pdf'' then ''pdf''
         else if has_suffix k ''.pptx'' \<or> has_suffix k ''.ppt'' \<or> has_suffix k ''.key'' then ''slides''
         else if has_suffix k ''.zip'' \<or> has_suffix k ''.csv'' \<or> has_suffix k ''.parquet'' \<or> has_suffix k ''.tar.gz''
         then ''dataset'' else ''other'')"

definition contentType :: "string \<Rightarrow> string" where
  "contentType key =
     (if kind key = ''video'' then ''video/mp4''
      else if kind key = ''pdf'' then ''application/pdf''
      else if kind key = ''slides'' then ''application/vnd.openxmlformats-officedocument.presentationml.presentation''
      else if kind key = ''dataset'' then ''application/zip''
      else ''application/octet-stream'')"

definition courseOf :: "string \<Rightarrow> string" where
  "courseOf key =
     (case index_sub key ''courses/'' of
        None \<Rightarrow> ''''
      | Some i \<Rightarrow>
          let rest = drop (i + length ''courses/'') key
          in case index_byte rest (CHR ''/'') of
               Some j \<Rightarrow> if j > 0 then take j rest else ''''
             | None \<Rightarrow> '''')"

subsection \<open>The catalogue\<close>

definition courseTitles :: "string list" where
  "courseTitles =
     [''intro-to-programming-python'', ''data-structures-and-algorithms'', ''machine-learning-foundations'',
      ''calculus-i'', ''linear-algebra'', ''statistics-for-data-science'', ''web-development-fullstack'',
      ''database-systems'', ''operating-systems'', ''computer-networks'', ''deep-learning'',
      ''discrete-mathematics'', ''physics-mechanics'', ''organic-chemistry'', ''microeconomics'',
      ''financial-accounting'', ''digital-marketing'', ''project-management'', ''cloud-computing-aws'',
      ''cybersecurity-essentials'', ''english-academic-writing'', ''world-history-modern'',
      ''psychology-101'', ''biology-cell-and-molecular'', ''ux-design-principles'',
      ''mobile-app-development'', ''computer-vision'', ''natural-language-processing'',
      ''business-analytics'', ''public-speaking'']"

definition lectureTopics :: "string list" where
  "lectureTopics =
     [''introduction'', ''core-concepts'', ''worked-examples'', ''deep-dive'', ''case-study'',
      ''lab-walkthrough'', ''problem-solving'', ''advanced-topics'', ''review-session'', ''exam-prep'',
      ''guest-lecture'', ''project-kickoff'']"

record eduFile =
  ef_key :: string
  ef_size :: int

text \<open>The verb \<^verbatim>\<open>%02d\<close>.\<close>

definition pad2 :: "nat \<Rightarrow> string" where
  "pad2 n = (if n < 10 then CHR ''0'' # show_nat n else show_nat n)"

definition mb :: "(rat \<Rightarrow> rat) \<Rightarrow> 'g rng \<Rightarrow> rat \<Rightarrow> rat \<Rightarrow> rat \<Rightarrow> 'g \<Rightarrow> int \<times> 'g" where
  "mb rnd R scale lo hi g =
     (let (x, g1) = Float64 R g
      in (trunc (rnd (rnd (rnd (rnd lo + rnd (x * rnd (rnd hi - rnd lo))) * scale) * 1000000)), g1))"

definition course_name :: "nat \<Rightarrow> string" where
  "course_name c = pad2 (c + 1) @ ''-'' @ courseTitles ! (c mod length courseTitles)"

definition course_dir :: "string \<Rightarrow> nat \<Rightarrow> string" where
  "course_dir pre c = pre @ ''courses/'' @ course_name c @ ''/''"

definition lecture_stem :: "nat \<Rightarrow> string" where
  "lecture_stem l = pad2 (l + 1) @ ''-'' @ lectureTopics ! (l mod length lectureTopics)"

text \<open>The two files of each lecture from \<open>l\<close> on; then the files of each course from \<open>c\<close> on.\<close>

fun lecture_files :: "(rat \<Rightarrow> rat) \<Rightarrow> 'g rng \<Rightarrow> rat \<Rightarrow> string \<Rightarrow> nat \<Rightarrow> nat \<Rightarrow> 'g \<Rightarrow> eduFile list \<times> 'g" where
  "lecture_files rnd R scale dir l 0 g = ([], g)"
| "lecture_files rnd R scale dir l (Suc n) g =
     (let (s1, g1) = mb rnd R scale 15 60 g; (s2, g2) = mb rnd R scale (1 / 2) 6 g1;
          (fs, g3) = lecture_files rnd R scale dir (l + 1) n g2
      in (\<lparr>ef_key = dir @ ''lectures/'' @ lecture_stem l @ ''.mp4'', ef_size = s1\<rparr> #
          \<lparr>ef_key = dir @ ''notes/'' @ lecture_stem l @ ''.pdf'', ef_size = s2\<rparr> # fs, g3))"

fun course_files :: "(rat \<Rightarrow> rat) \<Rightarrow> 'g rng \<Rightarrow> rat \<Rightarrow> string \<Rightarrow> nat \<Rightarrow> nat \<Rightarrow> 'g \<Rightarrow> eduFile list \<times> 'g" where
  "course_files rnd R scale pre c 0 g = ([], g)"
| "course_files rnd R scale pre c (Suc n) g =
     (let dir = course_dir pre c;
          (s1, g1) = mb rnd R scale (2 / 10) (12 / 10) g;
          (k, g2) = Intn R 5 g1;
          (fs, g3) = lecture_files rnd R scale dir 0 (nat (6 + k)) g2;
          (s2, g4) = mb rnd R scale 8 35 g3;
          (x, g5) = Float64 R g4;
          (ds, g6) =
            (if x < rnd (4 / 10)
             then let (s3, g') = mb rnd R scale 40 160 g5 in ([\<lparr>ef_key = dir @ ''resources/dataset.zip'', ef_size = s3\<rparr>], g')
             else ([], g5));
          (rest, g7) = course_files rnd R scale pre (c + 1) n g6
      in (\<lparr>ef_key = dir @ ''syllabus.pdf'', ef_size = s1\<rparr> # fs @
          \<lparr>ef_key = dir @ ''slides/course-deck.pptx'', ef_size = s2\<rparr> # ds @ rest, g7))"

definition buildCatalog :: "(rat \<Rightarrow> rat) \<Rightarrow> 'g rng \<Rightarrow> string \<Rightarrow> int \<Rightarrow> rat \<Rightarrow> int \<Rightarrow> eduFile list" where
  "buildCatalog rnd R pre courses scale seed = fst (course_files rnd R scale pre 0 (nat courses) (NewSource R seed))"

subsection \<open>What a key says\<close>

text \<open>The five sorts of files of a course, the path each has below the course's folder, and its kind.\<close>

datatype item = Syllabus | Lecture nat | Notes nat | Deck | Dataset

fun item_path :: "item \<Rightarrow> string" where
  "item_path Syllabus = ''syllabus.pdf''"
| "item_path (Lecture l) = ''lectures/'' @ lecture_stem l @ ''.mp4''"
| "item_path (Notes l) = ''notes/'' @ lecture_stem l @ ''.pdf''"
| "item_path Deck = ''slides/course-deck.pptx''"
| "item_path Dataset = ''resources/dataset.zip''"

fun item_kind :: "item \<Rightarrow> string" where
  "item_kind Syllabus = ''pdf''"
| "item_kind (Lecture l) = ''video''"
| "item_kind (Notes l) = ''pdf''"
| "item_kind Deck = ''slides''"
| "item_kind Dataset = ''dataset''"

definition item_key :: "string \<Rightarrow> nat \<Rightarrow> item \<Rightarrow> string" where
  "item_key pre c it = course_dir pre c @ item_path it"

lemma index_byte_plain: "c \<notin> set s \<Longrightarrow> index_byte (s @ c # t) c = Some (length s)"
  by (rule index_byte_append)

lemma title_plain: "t \<in> set courseTitles \<Longrightarrow> CHR ''/'' \<notin> set t"
  unfolding courseTitles_def by (elim set_ConsD [THEN disjE] | simp)+

lemma pad2_plain: "CHR ''/'' \<notin> set (pad2 n)"
proof -
  have "CHR ''/'' \<notin> set (show_nat n)"
    using show_nat_digits [of n] is_digit_neq(3) by (auto simp: list_all_iff)
  then show ?thesis by (simp add: pad2_def)
qed

lemma pad2_inj: "pad2 m = pad2 n \<longleftrightarrow> m = n"
proof -
  have "show_nat n \<noteq> CHR ''0'' # show_nat m" if "\<not> n < 10" for m n
  proof -
    have "hd (show_nat n) \<noteq> CHR ''0''" using that
    proof (induction n rule: show_nat.induct)
      case (1 n)
      have z: "CHR ''0'' = digit_char 0"
        unfolding digit_char_def by code_simp
      from 1 show ?case
        unfolding z
        by (cases "n div 10 < 10") (simp_all add: show_nat.simps [of n] show_nat.simps [of "n div 10"] digit_char_inj)
    qed
    then show ?thesis by auto
  qed
  then show ?thesis
    by (auto simp: pad2_def show_nat_inj) metis
qed

lemma course_name_plain: "CHR ''/'' \<notin> set (course_name c)"
proof -
  have "courseTitles ! (c mod length courseTitles) \<in> set courseTitles"
    by (intro nth_mem) (simp add: courseTitles_def)
  then show ?thesis
    using pad2_plain title_plain by (simp add: course_name_def)
qed

lemma index_sub_first:
  assumes "\<not> sublist p (s @ butlast p)" and "p \<noteq> []"
  shows "index_sub (s @ p @ t) p = Some (length s)"
  using assms(1)
proof (induction s)
  case Nil
  show ?case using assms(2) by (cases p) (simp_all add: has_prefix_def)
next
  case (Cons x s)
  have "\<not> has_prefix (x # s @ p @ t) p"
  proof
    assume "has_prefix (x # s @ p @ t) p"
    moreover have "x # s @ p @ t = (x # s @ butlast p) @ [last p] @ t"
      using append_butlast_last_id [OF assms(2)] by (metis append_Cons append_assoc)
    ultimately have "p = take (length p) ((x # s @ butlast p) @ [last p] @ t)"
      by (simp only: has_prefix_def)
    moreover have "length p \<le> length (x # s @ butlast p)"
      using assms(2) by simp
    ultimately have "p = take (length p) (x # s @ butlast p)"
      by (metis take_append append_Nil2 diff_is_0_eq take_0)
    then have "prefix p (x # s @ butlast p)"
      by (metis take_is_prefix)
    with Cons.prems show False by (simp add: prefix_imp_sublist)
  qed
  moreover have "\<not> sublist p (s @ butlast p)"
    using Cons.prems by (auto simp: sublist_Cons_right)
  ultimately show ?case
    using Cons.IH by simp
qed

lemma courseOf_item:
  assumes "\<not> sublist ''courses/'' pre"
  shows "courseOf (item_key pre c it) = course_name c"
proof -
  have s: "\<not> sublist ''courses/'' (pre @ butlast ''courses/'')"
  proof
    assume "sublist ''courses/'' (pre @ butlast ''courses/'')"
    then consider "sublist ''courses/'' ''courses''"
      | xs ys where "''courses/'' = xs @ ys" "suffix xs pre" "prefix ys ''courses''"
      using assms by (auto simp: sublist_append)
    then show False
    proof cases
      case 1
      then show False by (simp add: sublist_Cons_right)
    next
      case (2 xs ys)
      show False
      proof (cases "ys = []")
        case True
        with 2 assms show False by (simp add: suffix_imp_sublist)
      next
        case False
        with 2(1) have "last ys = CHR ''/''"
          by (metis last_appendR last.simps list.distinct(1))
        moreover have "last ys \<in> set ''courses''"
          using False 2(3) by (metis last_in_set set_mono_prefix subsetD)
        ultimately show False by simp
      qed
    qed
  qed
  have "index_sub (pre @ ''courses/'' @ course_name c @ ''/'' @ item_path it) ''courses/'' = Some (length pre)"
    by (rule index_sub_first [OF s]) simp
  moreover have "index_byte (course_name c @ CHR ''/'' # item_path it) (CHR ''/'') = Some (length (course_name c))"
    by (rule index_byte_append [OF course_name_plain])
  moreover have "0 < length (course_name c)"
    by (simp add: course_name_def)
  ultimately show ?thesis
    by (simp add: courseOf_def item_key_def course_dir_def)
qed

definition ascii_head :: "string \<Rightarrow> bool" where
  "ascii_head t \<longleftrightarrow> (case t of [] \<Rightarrow> True | c # cs \<Rightarrow> c \<noteq> CHR 0xB0 \<and> c \<noteq> CHR 0x84 \<and> c \<noteq> CHR 0xAA)"

lemma to_lower_append: "ascii_head t \<Longrightarrow> to_lower (s @ t) = to_lower s @ to_lower t"
proof (induction s rule: to_lower.induct)
  case (2 c cs)
  have h: "cs \<noteq> [] \<and> hd cs = CHR 0xB0 \<longleftrightarrow> cs @ t \<noteq> [] \<and> hd (cs @ t) = CHR 0xB0"
    using "2.prems" by (cases cs) (auto simp: ascii_head_def split: list.splits)
  have k: "take 2 (cs @ t) = [CHR 0x84, CHR 0xAA] \<longleftrightarrow> take 2 cs = [CHR 0x84, CHR 0xAA]"
    using "2.prems" by (cases cs; cases "tl cs"; cases t) (auto simp: ascii_head_def take_Cons')
  show ?case
  proof (cases "65 \<le> (of_char c :: nat) \<and> (of_char c :: nat) \<le> 90")
    case True
    then show ?thesis using 2 by simp
  next
    case a: False
    show ?thesis
    proof (cases "c = CHR 0xC4 \<and> cs \<noteq> [] \<and> hd cs = CHR 0xB0")
      case True
      then have "drop 1 (cs @ t) = drop 1 cs @ t" by (cases cs) auto
      with True a h 2 show ?thesis by simp
    next
      case b: False
      show ?thesis
      proof (cases "c = CHR 0xE2 \<and> take 2 cs = [CHR 0x84, CHR 0xAA]")
        case True
        then have "drop 2 (cs @ t) = drop 2 cs @ t"
          by (metis append_take_drop_id append.assoc drop_append length_Cons list.size(3) One_nat_def Suc_1
              diff_self_eq_0 drop0 length_take min.absorb_iff2 diff_is_0_eq min.cobounded1 min_def)
        with True a b h k 2 show ?thesis by simp
      next
        case c: False
        with a b h k 2 show ?thesis by auto
      qed
    qed
  qed
qed simp

lemma has_suffix_rev: "has_suffix s p \<longleftrightarrow> prefix (rev p) (rev s)"
  by (simp add: has_suffix_iff suffix_to_prefix)

lemma kind_suffix:
  "kind (s @ ''.mp4'') = ''video''" "kind (s @ ''.pdf'') = ''pdf''" "kind (s @ ''.pptx'') = ''slides''"
  "kind (s @ ''.zip'') = ''dataset''"
  by (simp_all add: kind_def Let_def to_lower_append ascii_head_def has_suffix_rev)

lemma kind_item: "kind (item_key pre c it) = item_kind it"
proof -
  have split: "''syllabus.pdf'' = ''syllabus'' @ ''.pdf''" "''slides/course-deck.pptx'' = ''slides/course-deck'' @ ''.pptx''"
    "''resources/dataset.zip'' = ''resources/dataset'' @ ''.zip''"
    by simp_all
  show ?thesis
    by (cases it) (simp_all only: item_key_def item_path.simps item_kind.simps split append_assoc [symmetric] kind_suffix)
qed

lemma append_sep_eq:
  assumes "c \<notin> set a" and "c \<notin> set b"
  shows "a @ c # s = b @ c # t \<longleftrightarrow> a = b \<and> s = t"
proof -
  have "takeWhile (\<lambda>x. x \<noteq> c) (a @ c # s) = a" "takeWhile (\<lambda>x. x \<noteq> c) (b @ c # t) = b"
    using assms by (auto simp: takeWhile_append2 takeWhile_tail)
  then show ?thesis by (metis same_append_eq list.inject)
qed

lemma pad2_no_hyphen: "CHR ''-'' \<notin> set (pad2 n)"
  using show_nat_digits [of n] is_digit_neq(1) by (auto simp: pad2_def list_all_iff)

lemma numbered_inj: "pad2 m @ ''-'' @ s = pad2 n @ ''-'' @ t \<longleftrightarrow> m = n \<and> s = t"
  using append_sep_eq [OF pad2_no_hyphen pad2_no_hyphen, of m s n t] by (simp add: pad2_inj)

lemma course_name_inj: "course_name c = course_name c' \<longleftrightarrow> c = c'"
  unfolding course_name_def by (metis numbered_inj Suc_eq_plus1 nat.inject)

lemma lecture_stem_inj: "lecture_stem l @ s = lecture_stem l' @ t \<longleftrightarrow> l = l' \<and> s = t"
proof -
  have "lecture_stem l @ s = pad2 (l + 1) @ ''-'' @ (lectureTopics ! (l mod length lectureTopics) @ s)" for l s
    by (simp add: lecture_stem_def)
  then show ?thesis
    by (metis numbered_inj Suc_eq_plus1 nat.inject same_append_eq)
qed

lemma item_path_inj: "item_path it = item_path it' \<longleftrightarrow> it = it'"
  using lecture_stem_inj [where s = "''''" and t = "''''"] by (cases it; cases it') (auto simp: lecture_stem_inj)

lemma item_key_inj: "item_key pre c it = item_key pre c' it' \<longleftrightarrow> c = c' \<and> it = it'"
  using append_sep_eq [OF course_name_plain course_name_plain, of c "item_path it" c' "item_path it'"]
  by (auto simp: item_key_def course_dir_def course_name_inj item_path_inj)

subsection \<open>The keys of the catalogue\<close>

definition lecture_items :: "nat \<Rightarrow> nat \<Rightarrow> item list" where
  "lecture_items l n = concat (map (\<lambda>i. [Lecture i, Notes i]) [l ..< l + n])"

lemma lecture_items_Suc: "lecture_items l (Suc n) = Lecture l # Notes l # lecture_items (Suc l) n"
  by (simp add: lecture_items_def upt_conv_Cons)

lemma lecture_items_facts:
  "set (lecture_items l n) = {it. \<exists>i \<in> {l ..< l + n}. it = Lecture i \<or> it = Notes i}" "distinct (lecture_items l n)"
proof -
  show s: "set (lecture_items l n) = {it. \<exists>i \<in> {l ..< l + n}. it = Lecture i \<or> it = Notes i}" for l
    by (auto simp: lecture_items_def)
  show "distinct (lecture_items l n)"
  proof (induction n arbitrary: l)
    case 0
    show ?case by (simp add: lecture_items_def)
  next
    case (Suc n)
    have "set (lecture_items (Suc l) n) = {it. \<exists>i \<in> {Suc l ..< Suc l + n}. it = Lecture i \<or> it = Notes i}"
      by (auto simp: lecture_items_def)
    with Suc show ?case by (simp add: lecture_items_Suc)
  qed
qed

lemma lecture_files_keys:
  "map ef_key (fst (lecture_files rnd R scale (course_dir pre c) l n g)) = map (item_key pre c) (lecture_items l n)"
proof (induction n arbitrary: l g)
  case 0
  show ?case by (simp add: lecture_items_def)
next
  case (Suc n)
  then show ?case
    by (simp add: lecture_items_Suc item_key_def split_beta Let_def)
qed

text \<open>The items of one course: six to ten lectures, perhaps a data set.\<close>

definition course_items :: "nat \<Rightarrow> bool \<Rightarrow> item list" where
  "course_items n ds = Syllabus # lecture_items 0 n @ Deck # (if ds then [Dataset] else [])"

lemma distinct_course_items: "distinct (course_items n ds)"
  using lecture_items_facts by (auto simp: course_items_def)

lemma course_files_step:
  "\<exists>n ds g'. map ef_key (fst (course_files rnd R scale pre c (Suc m) g)) =
     map (item_key pre c) (course_items n ds) @ map ef_key (fst (course_files rnd R scale pre (Suc c) m g')) \<and>
     (rng_ok R \<longrightarrow> 6 \<le> n \<and> n \<le> 10)"
proof -
  obtain s1 g1 where e1: "mb rnd R scale (2 / 10) (12 / 10) g = (s1, g1)" by fastforce
  obtain k g2 where e2: "Intn R 5 g1 = (k, g2)" by fastforce
  obtain fs g3 where e3: "lecture_files rnd R scale (course_dir pre c) 0 (nat (6 + k)) g2 = (fs, g3)" by fastforce
  obtain s2 g4 where e4: "mb rnd R scale 8 35 g3 = (s2, g4)" by fastforce
  obtain x g5 where e5: "Float64 R g4 = (x, g5)" by fastforce
  obtain s3 g6 where e6: "mb rnd R scale 40 160 g5 = (s3, g6)" by fastforce
  let ?g' = "if x < rnd (4 / 10) then g6 else g5"
  have "map ef_key fs = map (item_key pre c) (lecture_items 0 (nat (6 + k)))"
    using lecture_files_keys [of rnd R scale pre c 0 "nat (6 + k)" g2] e3 by simp
  then have "map ef_key (fst (course_files rnd R scale pre c (Suc m) g)) =
     map (item_key pre c) (course_items (nat (6 + k)) (x < rnd (4 / 10))) @
     map ef_key (fst (course_files rnd R scale pre (Suc c) m ?g'))"
    unfolding course_files.simps Let_def e1 e2 e3 e4 e5 e6 prod.case
    by (simp add: course_items_def item_key_def split_beta)
  moreover have "rng_ok R \<Longrightarrow> 6 \<le> nat (6 + k) \<and> nat (6 + k) \<le> 10"
  proof -
    assume "rng_ok R"
    then have "0 \<le> fst (Intn R 5 g1) \<and> fst (Intn R 5 g1) < 5"
      unfolding rng_ok_def by (metis zero_less_numeral)
    with e2 show ?thesis by (simp add: le_nat_iff nat_le_iff)
  qed
  ultimately show ?thesis by blast
qed

lemma course_files_keys:
  "distinct (map ef_key (fst (course_files rnd R scale pre c m g))) \<and>
   set (map ef_key (fst (course_files rnd R scale pre c m g))) \<subseteq> {item_key pre c' it | c' it. c \<le> c' \<and> c' < c + m} \<and>
   (rng_ok R \<longrightarrow> {item_key pre c' it | c' it. c \<le> c' \<and> c' < c + m \<and> it \<in> set (course_items 6 False)}
      \<subseteq> set (map ef_key (fst (course_files rnd R scale pre c m g))))"
proof (induction m arbitrary: c g)
  case 0
  show ?case by simp
next
  case (Suc m)
  obtain n ds g' where e: "map ef_key (fst (course_files rnd R scale pre c (Suc m) g)) =
     map (item_key pre c) (course_items n ds) @ map ef_key (fst (course_files rnd R scale pre (Suc c) m g'))"
    and n: "rng_ok R \<longrightarrow> 6 \<le> n \<and> n \<le> 10"
    using course_files_step [of rnd R scale pre c m g] by (elim exE conjE) (rule that)
  let ?K = "map ef_key (fst (course_files rnd R scale pre (Suc c) m g'))"
  note IH = Suc.IH [of "Suc c" g']
  have "inj_on (item_key pre c) (set (course_items n ds))"
    by (rule inj_onI) (simp add: item_key_inj)
  then have d1: "distinct (map (item_key pre c) (course_items n ds))"
    by (simp add: distinct_map distinct_course_items)
  have d2: "set (map (item_key pre c) (course_items n ds)) \<inter> set ?K = {}"
    using IH by (auto simp: item_key_inj subset_iff)
  have sub: "set (map (item_key pre c) (course_items n ds)) \<subseteq> {item_key pre c' it | c' it. c \<le> c' \<and> c' < c + Suc m}"
    by auto
  have "{item_key pre c' it | c' it. Suc c \<le> c' \<and> c' < Suc c + m} \<subseteq> {item_key pre c' it | c' it. c \<le> c' \<and> c' < c + Suc m}"
    by auto
  then have sub2: "set ?K \<subseteq> {item_key pre c' it | c' it. c \<le> c' \<and> c' < c + Suc m}"
    using IH by (meson subset_trans)
  have sup: "set (course_items 6 False) \<subseteq> set (course_items n ds)" if "rng_ok R"
    using n that lecture_items_facts(1) by (auto simp: course_items_def)
  show ?case
  proof (intro conjI impI)
    show "distinct (map ef_key (fst (course_files rnd R scale pre c (Suc m) g)))"
      unfolding e distinct_append using d1 d2 IH by blast
    show "set (map ef_key (fst (course_files rnd R scale pre c (Suc m) g)))
        \<subseteq> {item_key pre c' it | c' it. c \<le> c' \<and> c' < c + Suc m}"
      unfolding e set_append using sub sub2 by (rule Un_least)
  next
    assume R: "rng_ok R"
    show "{item_key pre c' it | c' it. c \<le> c' \<and> c' < c + Suc m \<and> it \<in> set (course_items 6 False)}
        \<subseteq> set (map ef_key (fst (course_files rnd R scale pre c (Suc m) g)))"
    proof
      fix x assume "x \<in> {item_key pre c' it | c' it. c \<le> c' \<and> c' < c + Suc m \<and> it \<in> set (course_items 6 False)}"
      then obtain c' it where x: "x = item_key pre c' it" "c \<le> c'" "c' < c + Suc m" "it \<in> set (course_items 6 False)"
        by blast
      show "x \<in> set (map ef_key (fst (course_files rnd R scale pre c (Suc m) g)))"
      proof (cases "c' = c")
        case True
        with x sup [OF R] show ?thesis unfolding e by auto
      next
        case False
        with x have "x \<in> {item_key pre c' it | c' it. Suc c \<le> c' \<and> c' < Suc c + m \<and> it \<in> set (course_items 6 False)}"
          by (intro CollectI exI [of _ c'] exI [of _ it]) auto
        with IH R show ?thesis unfolding e set_append by blast
      qed
    qed
  qed
qed

subsection \<open>Properties\<close>

text \<open>
  C38: The keys of the synthetic catalogue are distinct and say what they are: for any prefix without
  another \<open>courses/\<close>, any draws and any scale, every key is that of some item of one of the courses;
  from the key, \<open>courseOf\<close> gives back the course's folder and \<open>kind\<close> the item's kind. With a generator in its
  documented range every course has a syllabus, a slide deck and at least six lectures with notes.
\<close>

theorem catalog_keys_classify:
  assumes "\<not> sublist ''courses/'' pre" and "rng_ok R"
    and "files = buildCatalog rnd R pre courses scale seed"
  shows "distinct (map ef_key files) \<and>
    (\<forall>key \<in> set (map ef_key files). \<exists>c it. int c < courses \<and> key = item_key pre c it \<and>
       courseOf key = course_name c \<and> kind key = item_kind it) \<and>
    (\<forall>c it. int c < courses \<and> it \<in> set (course_items 6 False) \<longrightarrow> item_key pre c it \<in> set (map ef_key files))"
proof -
  have s: "set (map ef_key files) \<subseteq> {item_key pre c it | c it. c < nat courses}"
    and d: "distinct (map ef_key files)"
    and t: "{item_key pre c it | c it. c < nat courses \<and> it \<in> set (course_items 6 False)} \<subseteq> set (map ef_key files)"
    using course_files_keys [of rnd R scale pre 0 "nat courses" "NewSource R seed"] assms(2) unfolding assms(3) buildCatalog_def by auto
  have "\<exists>c it. int c < courses \<and> key = item_key pre c it \<and> courseOf key = course_name c \<and> kind key = item_kind it"
    if key: "key \<in> set (map ef_key files)" for key
  proof -
    obtain c it where "key = item_key pre c it" "c < nat courses"
      using key s by blast
    moreover from this have "int c < courses" by linarith
    ultimately show ?thesis
      using courseOf_item [OF assms(1), of c it] kind_item [of pre c it] by blast
  qed
  moreover have "item_key pre c it \<in> set (map ef_key files)" if "int c < courses \<and> it \<in> set (course_items 6 False)" for c it
  proof -
    have "c < nat courses" using that by linarith
    with that t show ?thesis by blast
  qed
  ultimately show ?thesis
    using d by blast
qed

text \<open>A generator that always draws zero.\<close>

definition zero_rng :: "unit rng" where
  "zero_rng = \<lparr>NewSource = (\<lambda>s. ()), Float64 = (\<lambda>g. (0, g)), ExpFloat64 = (\<lambda>g. (0, g)), Intn = (\<lambda>n g. (0, g)), Int63n = (\<lambda>n g. (0, g))\<rparr>"

lemma zero_rng_ok: "rng_ok zero_rng"
  by (simp add: zero_rng_def rng_ok_def)

theorem catalog_keys_classify_witness:
  "''edu/courses/01-intro-to-programming-python/lectures/01-introduction.mp4'' \<in>
     set (map ef_key (buildCatalog (\<lambda>x. x) zero_rng ''edu/'' 2 1 7))"
proof -
  have "item_key ''edu/'' 0 (Lecture 0) \<in> set (map ef_key (buildCatalog (\<lambda>x. x) zero_rng ''edu/'' 2 1 7))"
    using catalog_keys_classify [OF _ zero_rng_ok refl, of "''edu/''" "\<lambda>x. x" 2 1 7]
    by (simp add: sublist_Cons_right course_items_def lecture_items_facts(1))
  moreover have "show_nat (Suc 0) = ''1''"
    by (subst show_nat.simps) (simp add: digit_char_def, code_simp)
  ultimately show ?thesis
    by (simp add: item_key_def course_dir_def course_name_def lecture_stem_def pad2_def courseTitles_def lectureTopics_def)
qed

end
