(* ===== verification/Workload.thy ===== *)
theory Workload
  imports Portal_Files "HOL-Library.List_Lexorder" "HOL-Library.Char_ord"
begin

section \<open>The benchmark's workload\<close>

text \<open>
  \<^verbatim>\<open>cmd/bench/workload.go\<close>: the sessions a benchmark replays. A result \<open>None\<close> means that the function
  does not return (a loop whose step is zero), \<open>Inl\<close> is a panic. Floating-point operations round by
  \<open>fl_rnd\<close> of the parameter record \<open>float_ops\<close>, whose \<open>pow\<close> and \<open>sqrt\<close> are those of package \<^verbatim>\<open>math\<close>.
\<close>

type_synonym 'a outcome = "(go_panic + 'a) option"

record object =
  obj_key :: string
  obj_size :: int

record rangeReq =
  rq_off :: int
  rq_length :: int
  rq_seq :: int

record session =
  sess_obj :: object
  sess_kind :: string
  sess_reqs :: "rangeReq list"

record workloadConfig =
  wc_sessions :: int
  wc_maxBytes :: int
  wc_videoChunk :: int
  wc_pdfChunk :: int
  wc_downloadBuf :: int
  wc_zipfS :: rat
  wc_seed :: int

record float_ops =
  fl_rnd :: "rat \<Rightarrow> rat"
  fl_pow :: "rat \<Rightarrow> rat \<Rightarrow> rat"
  fl_sqrt :: "rat \<Rightarrow> rat"

subsection \<open>Read patterns\<close>

partial_function (option) sequential :: "int \<Rightarrow> int \<Rightarrow> int \<Rightarrow> int \<Rightarrow> rangeReq list option" where
  "sequential off to chunk i =
     (if off < to
      then Option.bind (sequential (i64 (off + chunk)) to chunk (i64 (i + 1)))
             (\<lambda>rs. Some (\<lparr>rq_off = off, rq_length = min chunk (i64 (to - off)), rq_seq = i\<rparr> # rs))
      else Some [])"

definition videoReads :: "(rat \<Rightarrow> rat) \<Rightarrow> 'g rng \<Rightarrow> int \<Rightarrow> int \<Rightarrow> 'g \<Rightarrow> (rangeReq list \<times> 'g) outcome" where
  "videoReads rnd R sz chunk g =
     (let (e, g1) = ExpFloat64 R g;
          watch = min 1 (rnd (rnd (8 / 100) + rnd (e * rnd (37 / 100))));
          end' = trunc (rnd (rnd (of_int sz) * watch));
          (x, g2) = Float64 R g1
      in if x < rnd (2 / 10)
         then let (k, g3) = Intn R 4 g2;
                  first = min end' (i64 (chunk * (2 + k)));
                  (d, g4) = Int63n R (max 1 (i64 (sz - first))) g3;
                  seek = i64 (first + d)
              in if chunk = 0 then Some (Inl DivideByZero)
                 else let seekTo = i64 (seek - seek smod chunk)
                      in Option.bind (sequential 0 first chunk 0) (\<lambda>reqs.
                         Option.bind (sequential seekTo (min sz (i64 (seekTo + i64 (end' - first)))) chunk 0) (\<lambda>more.
                           Some (Inr (reqs @ more, g4))))
         else Option.bind (sequential 0 (max end' (min sz chunk)) chunk 0) (\<lambda>reqs. Some (Inr (reqs, g2))))"

definition pdfReads :: "'g rng \<Rightarrow> int \<Rightarrow> int \<Rightarrow> 'g \<Rightarrow> (rangeReq list \<times> 'g) outcome" where
  "pdfReads R sz chunk g =
     (let tail = min sz 65536;
          (k, g1) = Intn R 14 g;
          pages = 2 + k
      in Option.bind (sequential 0 (min sz (i64 (pages * chunk))) chunk 0) (\<lambda>reqs.
           Some (Inr (\<lparr>rq_off = i64 (sz - tail), rq_length = tail, rq_seq = - 1\<rparr> # reqs, g1))))"

text \<open>The loop of \<^verbatim>\<open>capBytes\<close> at index \<open>i\<close>: where to cut, if anywhere.\<close>

fun cap_loop :: "int \<Rightarrow> nat \<Rightarrow> int \<Rightarrow> rangeReq list \<Rightarrow> nat option" where
  "cap_loop maxBytes i acc [] = None"
| "cap_loop maxBytes i acc (r # rs) =
     (let acc' = i64 (acc + rq_length r)
      in if acc' > maxBytes then Some (max 1 i) else cap_loop maxBytes (Suc i) acc' rs)"

definition capBytes :: "rangeReq list \<Rightarrow> int \<Rightarrow> rangeReq list" where
  "capBytes reqs maxBytes =
     (if maxBytes \<le> 0 then reqs
      else case cap_loop maxBytes 0 0 reqs of None \<Rightarrow> reqs | Some n \<Rightarrow> take n reqs)"

subsection \<open>Weighted choice\<close>

fun pick_loop :: "(rat \<Rightarrow> rat) \<Rightarrow> rat \<Rightarrow> nat \<Rightarrow> rat list \<Rightarrow> nat option" where
  "pick_loop rnd x i [] = None"
| "pick_loop rnd x i (v # vs) = (if x < v then Some i else pick_loop rnd (rnd (x - v)) (Suc i) vs)"

definition pickWeighted :: "(rat \<Rightarrow> rat) \<Rightarrow> 'g rng \<Rightarrow> rat list \<Rightarrow> 'g \<Rightarrow> int \<times> 'g" where
  "pickWeighted rnd R w g =
     (let wsum = foldl (\<lambda>s v. rnd (s + v)) 0 w; (x, g1) = Float64 R g
      in (case pick_loop rnd (rnd (x * wsum)) 0 w of Some i \<Rightarrow> int i | None \<Rightarrow> int (length w) - 1, g1))"

text \<open>\<^verbatim>\<open>xs[i]\<close>\<close>

definition index_checked :: "'a list \<Rightarrow> int \<Rightarrow> go_panic + 'a" where
  "index_checked xs i = (if 0 \<le> i \<and> i < int (length xs) then Inr (xs ! nat i) else Inl IndexBounds)"

subsection \<open>Sessions\<close>

text \<open>\<^verbatim>\<open>byCourse\<close>: course, then kind, then the files.\<close>

definition group_object ::
  "(string \<Rightarrow> (string \<Rightarrow> object list) option) \<Rightarrow> object \<Rightarrow> (string \<Rightarrow> (string \<Rightarrow> object list) option)" where
  "group_object byCourse obj =
     (let c = courseOf (obj_key obj); k = kind (obj_key obj);
          files = (case byCourse c of None \<Rightarrow> (\<lambda>_. []) | Some f \<Rightarrow> f)
      in byCourse(c \<mapsto> files(k := files k @ [obj])))"

definition group_by_course :: "object list \<Rightarrow> (string \<Rightarrow> (string \<Rightarrow> object list) option)" where
  "group_by_course objs = foldl group_object (\<lambda>_. None) objs"

definition course_list :: "object list \<Rightarrow> string list" where
  "course_list objs = sort (remdups (map (\<lambda>ob. courseOf (obj_key ob)) objs))"

definition all_kinds :: "string list" where
  "all_kinds = [''dataset'', ''other'', ''pdf'', ''slides'', ''video'']"

definition kindW :: "(rat \<Rightarrow> rat) \<Rightarrow> string \<Rightarrow> rat" where
  "kindW rnd k =
     (if k = ''video'' then rnd (55 / 100) else if k = ''pdf'' then rnd (25 / 100)
      else if k = ''slides'' then rnd (10 / 100) else if k = ''dataset'' then rnd (10 / 100)
      else if k = ''other'' then rnd (5 / 100) else 0)"

text \<open>One turn of the loop of \<^verbatim>\<open>buildSessions\<close>: the session it draws, before the test for an empty one.\<close>

definition session_reqs ::
  "float_ops \<Rightarrow> 'g rng \<Rightarrow> workloadConfig \<Rightarrow> string \<Rightarrow> int \<Rightarrow> 'g \<Rightarrow> (rangeReq list \<times> 'g) outcome" where
  "session_reqs F R cfg k sz g =
     (if k = ''video'' then videoReads (fl_rnd F) R sz (wc_videoChunk cfg) g
      else if k = ''pdf'' then pdfReads R sz (wc_pdfChunk cfg) g
      else Option.bind (sequential 0 sz (wc_downloadBuf cfg) 0) (\<lambda>reqs. Some (Inr (reqs, g))))"

definition draw_session ::
  "float_ops \<Rightarrow> 'g rng \<Rightarrow> workloadConfig \<Rightarrow> object list \<Rightarrow> 'g \<Rightarrow> (session \<times> 'g) outcome" where
  "draw_session F R cfg objs g =
     (let courses = course_list objs;
          courseW = map (\<lambda>i. fl_rnd F (1 / fl_pow F (of_nat (i + 1)) (wc_zipfS cfg))) [0 ..< length courses];
          (ci, g1) = pickWeighted (fl_rnd F) R courseW g
      in case index_checked courses ci of
           Inl e \<Rightarrow> Some (Inl e)
         | Inr course \<Rightarrow>
             let files = (case group_by_course objs course of None \<Rightarrow> (\<lambda>_. []) | Some f \<Rightarrow> f);
                 kinds = filter (\<lambda>k. files k \<noteq> []) all_kinds;
                 (ki, g2) = pickWeighted (fl_rnd F) R (map (kindW (fl_rnd F)) kinds) g1
             in case index_checked kinds ki of
                  Inl e \<Rightarrow> Some (Inl e)
                | Inr k \<Rightarrow>
                    let fs = sort_key obj_key (files k);
                        fw = map (\<lambda>i. fl_rnd F (1 / fl_sqrt F (of_nat (i + 1)))) [0 ..< length fs];
                        (fi, g3) = pickWeighted (fl_rnd F) R fw g2
                    in case index_checked fs fi of
                         Inl e \<Rightarrow> Some (Inl e)
                       | Inr ob \<Rightarrow>
                           Option.bind (session_reqs F R cfg k (obj_size ob) g3) (\<lambda>r.
                             Some (map_sum id (\<lambda>(reqs, g4).
                               (\<lparr>sess_obj = ob, sess_kind = k, sess_reqs = capBytes reqs (wc_maxBytes cfg)\<rparr>, g4)) r)))"

partial_function (option) session_loop ::
  "float_ops \<Rightarrow> 'g rng \<Rightarrow> workloadConfig \<Rightarrow> object list \<Rightarrow> session list \<Rightarrow> 'g \<Rightarrow> session list outcome" where
  "session_loop F R cfg objs out g =
     (if int (length out) < wc_sessions cfg
      then Option.bind (draw_session F R cfg objs g) (\<lambda>r.
             case r of
               Inl e \<Rightarrow> Some (Inl e)
             | Inr (s, g') \<Rightarrow> session_loop F R cfg objs (if sess_reqs s \<noteq> [] then out @ [s] else out) g')
      else Some (Inr out))"

definition buildSessions :: "float_ops \<Rightarrow> 'g rng \<Rightarrow> workloadConfig \<Rightarrow> object list \<Rightarrow> session list outcome" where
  "buildSessions F R cfg objs = session_loop F R cfg objs [] (NewSource R (wc_seed cfg))"

definition kindOrder :: "string \<Rightarrow> int" where
  "kindOrder k = (case index_sub ''video pdf slides dataset other'' k of Some i \<Rightarrow> int i | None \<Rightarrow> - 1)"

subsection \<open>Sequential reads cover the range\<close>

definition req_in :: "int \<Rightarrow> int \<Rightarrow> rangeReq \<Rightarrow> bool" where
  "req_in a b r \<longleftrightarrow> a \<le> rq_off r \<and> 0 < rq_length r \<and> rq_off r + rq_length r \<le> b"

definition req_bytes :: "rangeReq \<Rightarrow> int list" where
  "req_bytes r = [rq_off r .. rq_off r + rq_length r - 1]"

lemma req_in_mono: "req_in a b r \<Longrightarrow> a' \<le> a \<Longrightarrow> b \<le> b' \<Longrightarrow> req_in a' b' r"
  by (simp add: req_in_def)

lemma sequential_spec:
  assumes "0 < chunk" and "0 \<le> off" and "to + chunk < 2 ^ 63" and "0 \<le> i" and "off < to \<Longrightarrow> i + (to - off) < 2 ^ 63"
  shows "\<exists>rs. sequential off to chunk i = Some rs \<and> concat (map req_bytes rs) = [off .. to - 1] \<and>
    (\<forall>r \<in> set rs. req_in off to r \<and> rq_length r \<le> chunk) \<and>
    map rq_seq rs = [i .. i + int (length rs) - 1] \<and> (\<forall>r \<in> set (butlast rs). rq_length r = chunk)"
  using assms
proof (induction "nat (to - off)" arbitrary: off i rule: less_induct)
  case less
  show ?case
  proof (cases "off < to")
    case False
    then have "sequential off to chunk i = Some []"
      by (subst sequential.simps) simp
    with False show ?thesis by simp
  next
    case True
    let ?r = "\<lparr>rq_off = off, rq_length = min chunk (to - off), rq_seq = i\<rparr>"
    have e: "i64 (off + chunk) = off + chunk" "i64 (to - off) = to - off" "i64 (i + 1) = i + 1"
      using less.prems True by (auto intro!: i64_id)
    obtain rs where rs: "sequential (off + chunk) to chunk (i + 1) = Some rs"
      "concat (map req_bytes rs) = [off + chunk .. to - 1]"
      "\<forall>r \<in> set rs. req_in (off + chunk) to r \<and> rq_length r \<le> chunk"
      "map rq_seq rs = [i + 1 .. i + 1 + int (length rs) - 1]" "\<forall>r \<in> set (butlast rs). rq_length r = chunk"
      using less.hyps [of "off + chunk" "i + 1"] less.prems True by fastforce
    have "sequential off to chunk i = Some (?r # rs)"
      using True rs(1) e by (subst sequential.simps) simp
    moreover have "concat (map req_bytes (?r # rs)) = [off .. to - 1]"
    proof (cases "off + chunk < to")
      case c: True
      then have "req_bytes ?r = [off .. (off + chunk) - 1]"
        by (simp add: req_bytes_def)
      with c rs(2) less.prems(1) show ?thesis
        using upto_split1 [of off "off + chunk" "to - 1"] by simp
    next
      case False
      with rs(2) True show ?thesis by (simp add: req_bytes_def)
    qed
    moreover have "\<forall>r \<in> set (?r # rs). req_in off to r \<and> rq_length r \<le> chunk"
      using True less.prems(1) rs(3) by (auto simp: req_in_def)
    moreover have "map rq_seq (?r # rs) = [i .. i + int (length (?r # rs)) - 1]"
      using rs(4) upto_rec1 [of i "i + int (length rs)"] by simp
    moreover have "\<forall>r \<in> set (butlast (?r # rs)). rq_length r = chunk"
    proof (cases "rs = []")
      case False
      then have "\<not> to \<le> off + chunk"
        using rs(1) by (subst (asm) sequential.simps) (auto split: if_splits)
      with rs(5) show ?thesis by simp
    qed simp
    ultimately show ?thesis by blast
  qed
qed

text \<open>A step of zero never ends.\<close>

lemma sequential_stuck:
  assumes "sequential off to 0 i = Some rs" and "in_i64 off"
  shows "to \<le> off"
proof -
  have "chunk = 0 \<longrightarrow> in_i64 off \<longrightarrow> to \<le> off" if "sequential off to chunk i = Some rs" for chunk
  proof (rule sequential.raw_induct [OF _ that], intro impI, rule ccontr)
    fix seq :: "int \<Rightarrow> int \<Rightarrow> int \<Rightarrow> int \<Rightarrow> rangeReq list option" and off to chunk i rs
    assume IH: "\<And>off to chunk i rs. seq off to chunk i = Some rs \<Longrightarrow> chunk = 0 \<longrightarrow> in_i64 off \<longrightarrow> to \<le> off"
      and run: "(if off < to
        then Option.bind (seq (i64 (off + chunk)) to chunk (i64 (i + 1)))
               (\<lambda>rs. Some (\<lparr>rq_off = off, rq_length = min chunk (i64 (to - off)), rq_seq = i\<rparr> # rs))
        else Some []) = Some rs"
      and z: "chunk = 0" "in_i64 off" "\<not> to \<le> off"
    then obtain rs' where "seq (i64 (off + chunk)) to chunk (i64 (i + 1)) = Some rs'"
      by (auto split: if_splits Option.bind_splits)
    from IH [OF this] z show False by (simp add: i64_id)
  qed
  with assms show ?thesis by simp
qed

subsection \<open>Choices are in range\<close>

lemma pick_loop_range: "pick_loop rnd x i w = Some j \<Longrightarrow> i \<le> j \<and> j < i + length w"
  by (induction w arbitrary: x i) (fastforce split: if_splits)+

lemma pickWeighted_range:
  assumes "w \<noteq> []"
  shows "0 \<le> fst (pickWeighted rnd R w g) \<and> fst (pickWeighted rnd R w g) < int (length w)"
  using assms pick_loop_range [of rnd _ 0 w]
  by (auto simp: pickWeighted_def Let_def split_beta Suc_le_eq split: option.split)

lemma index_checked_pick:
  assumes "length w = length xs" and "xs \<noteq> []"
  obtains y where "index_checked xs (fst (pickWeighted rnd R w g)) = Inr y" "y \<in> set xs"
proof -
  have "w \<noteq> []" using assms by auto
  from pickWeighted_range [OF this, of rnd R g] assms that show thesis
    by (simp add: index_checked_def nat_less_iff)
qed

subsection \<open>The cap on bytes\<close>

definition req_sum :: "rangeReq list \<Rightarrow> int" where
  "req_sum rs = sum_list (map rq_length rs)"

lemma req_sum_simps [simp]: "req_sum [] = 0" "req_sum (r # rs) = rq_length r + req_sum rs"
  by (simp_all add: req_sum_def)

lemma req_sum_nonneg: "\<forall>r \<in> set rs. 0 < rq_length r \<Longrightarrow> 0 \<le> req_sum rs"
  unfolding req_sum_def by (rule sum_list_nonneg_int) auto

lemma cap_loop_spec:
  assumes "\<forall>r \<in> set rs. 0 < rq_length r" and "0 \<le> acc" and "acc \<le> m" and "acc + req_sum rs < 2 ^ 63"
  shows "case cap_loop m i acc rs of
      None \<Rightarrow> acc + req_sum rs \<le> m
    | Some n \<Rightarrow> \<exists>j < length rs. n = max 1 (i + j) \<and> acc + req_sum (take j rs) \<le> m \<and> m < acc + req_sum (take (Suc j) rs)"
  using assms
proof (induction rs arbitrary: acc i)
  case (Cons r rs)
  have p: "0 < rq_length r" and n: "0 \<le> req_sum rs"
    using Cons.prems(1) req_sum_nonneg [of rs] by auto
  have e: "i64 (acc + rq_length r) = acc + rq_length r"
    using Cons.prems p n by (intro i64_id) auto
  show ?case
  proof (cases "acc + rq_length r > m")
    case True
    then show ?thesis
      using e Cons.prems(3) by (auto intro!: exI [of _ 0])
  next
    case False
    then have IH: "case cap_loop m (Suc i) (acc + rq_length r) rs of
      None \<Rightarrow> acc + rq_length r + req_sum rs \<le> m
    | Some n \<Rightarrow> \<exists>j < length rs. n = max 1 (Suc i + j) \<and> acc + rq_length r + req_sum (take j rs) \<le> m \<and>
        m < acc + rq_length r + req_sum (take (Suc j) rs)"
      using Cons.prems p by (intro Cons.IH) auto
    show ?thesis
    proof (cases "cap_loop m (Suc i) (acc + rq_length r) rs")
      case None
      with IH False e show ?thesis by (simp add: add.assoc)
    next
      case (Some n)
      with IH obtain j where "j < length rs" "n = max 1 (Suc i + j)" "acc + rq_length r + req_sum (take j rs) \<le> m"
        "m < acc + rq_length r + req_sum (take (Suc j) rs)" by auto
      then have "Suc j < length (r # rs) \<and> n = max 1 (i + Suc j) \<and> acc + req_sum (take (Suc j) (r # rs)) \<le> m \<and>
          m < acc + req_sum (take (Suc (Suc j)) (r # rs))"
        by (simp add: add.assoc)
      then have "\<exists>j < length (r # rs). n = max 1 (i + j) \<and> acc + req_sum (take j (r # rs)) \<le> m \<and>
          m < acc + req_sum (take (Suc j) (r # rs))"
        by blast
      then show ?thesis using Some False e by simp
    qed
  qed
qed simp

lemma capBytes_spec:
  assumes "\<forall>r \<in> set rs. 0 < rq_length r" and "req_sum rs < 2 ^ 63"
  shows "prefix (capBytes rs m) rs \<and> (rs \<noteq> [] \<longrightarrow> capBytes rs m \<noteq> []) \<and>
    (0 < m \<longrightarrow> req_sum (capBytes rs m) \<le> m \<or> length (capBytes rs m) = 1) \<and>
    (capBytes rs m \<noteq> rs \<longrightarrow> 0 < m \<and> m < req_sum (take (Suc (length (capBytes rs m))) rs))"
proof (cases "0 < m")
  case True
  have spec: "case cap_loop m 0 0 rs of None \<Rightarrow> req_sum rs \<le> m
    | Some n \<Rightarrow> \<exists>j < length rs. n = max 1 j \<and> req_sum (take j rs) \<le> m \<and> m < req_sum (take (Suc j) rs)"
    using cap_loop_spec [OF assms(1), of 0 m 0] True assms(2) by (simp split: option.splits)
  show ?thesis
  proof (cases "cap_loop m 0 0 rs")
    case None
    with spec True show ?thesis by (simp add: capBytes_def)
  next
    case (Some n)
    with spec obtain j where j: "j < length rs" "n = max 1 j" "req_sum (take j rs) \<le> m" "m < req_sum (take (Suc j) rs)"
      by auto
    have c: "capBytes rs m = take (max 1 j) rs"
      using Some True j(2) by (simp add: capBytes_def)
    show ?thesis
    proof (cases "j = 0")
      case z: True
      then obtain r rs' where r: "rs = r # rs'" using j(1) by (cases rs) auto
      then have "m < req_sum (take 2 rs)" if "rs' \<noteq> []"
        using j(4) z that assms(1) by (cases rs') (auto simp: numeral_2_eq_2)
      with c z r True show ?thesis by (auto simp: numeral_2_eq_2)
    next
      case False
      with c j True show ?thesis by (auto simp: take_is_prefix max_def)
    qed
  qed
qed (simp add: capBytes_def)

subsection \<open>Requests lie in the file\<close>

text \<open>
  What is used of the rounding of 64-bit floats: it is monotone, exact on integers up to \<open>2^53\<close>, and
  loses less than a hundredth on numbers between a hundredth and one.
\<close>

definition float_ok :: "(rat \<Rightarrow> rat) \<Rightarrow> bool" where
  "float_ok rnd \<longleftrightarrow> mono rnd \<and> (\<forall>n. \<bar>n\<bar> \<le> 2 ^ 53 \<longrightarrow> rnd (of_int n) = of_int n) \<and>
     (\<forall>x. 1 / 100 \<le> x \<and> x \<le> 1 \<longrightarrow> 99 / 100 * x \<le> rnd x)"

lemma float_okD:
  assumes "float_ok rnd"
  shows "x \<le> y \<Longrightarrow> rnd x \<le> rnd y" "\<bar>n\<bar> \<le> 2 ^ 53 \<Longrightarrow> rnd (of_int n) = of_int n" "rnd 0 = 0" "rnd 1 = 1"
    "1 / 100 \<le> x \<Longrightarrow> x \<le> 1 \<Longrightarrow> 99 / 100 * x \<le> rnd x" "0 \<le> x \<Longrightarrow> 0 \<le> rnd x"
proof -
  have m: "\<And>x y. x \<le> y \<Longrightarrow> rnd x \<le> rnd y" and i: "\<And>n. \<bar>n\<bar> \<le> 2 ^ 53 \<Longrightarrow> rnd (of_int n) = of_int n"
    and r: "\<And>x. 1 / 100 \<le> x \<Longrightarrow> x \<le> 1 \<Longrightarrow> 99 / 100 * x \<le> rnd x"
    using assms by (auto simp: float_ok_def mono_def)
  show "x \<le> y \<Longrightarrow> rnd x \<le> rnd y" by (rule m)
  show "\<bar>n\<bar> \<le> 2 ^ 53 \<Longrightarrow> rnd (of_int n) = of_int n" by (rule i)
  show z: "rnd 0 = 0" "rnd 1 = 1" using i [of 0] i [of 1] by simp_all
  show "1 / 100 \<le> x \<Longrightarrow> x \<le> 1 \<Longrightarrow> 99 / 100 * x \<le> rnd x" by (rule r)
  show "0 \<le> x \<Longrightarrow> 0 \<le> rnd x" using m [of 0 x] z by simp
qed

lemma trunc_bounds: "of_int a \<le> x \<Longrightarrow> x \<le> of_int b \<Longrightarrow> 0 \<le> a \<Longrightarrow> a \<le> trunc x \<and> trunc x \<le> b"
proof -
  assume *: "of_int a \<le> x" "x \<le> of_int b" "0 \<le> a"
  then have "0 \<le> x" by (meson of_int_0_le_iff order_trans)
  with * show ?thesis
    by (simp add: trunc_def le_floor_iff floor_le_iff)
qed

text \<open>The part of a video that is watched.\<close>

lemma video_end:
  assumes "float_ok rnd" and "0 \<le> e" and "0 < sz" and "sz < 2 ^ 52"
    and "watch = min 1 (rnd (rnd (8 / 100) + rnd (e * rnd (37 / 100))))"
    and "end' = trunc (rnd (rnd (of_int sz) * watch))"
  shows "0 \<le> end' \<and> end' \<le> sz \<and> (13 \<le> sz \<longrightarrow> 1 \<le> end')"
proof -
  note R = float_okD [OF assms(1)]
  have sz: "rnd (of_int sz) = of_int sz"
    using assms(3,4) by (intro R(2)) simp
  let ?u = "rnd (8 / 100) + rnd (e * rnd (37 / 100))"
  have "(99 / 100 * (8 / 100) :: rat) \<le> rnd (8 / 100)"
    by (rule R(5)) simp_all
  moreover have "0 \<le> rnd (e * rnd (37 / 100))"
    using assms(2) R(6) by simp
  ultimately have u: "(99 / 100 * (8 / 100) :: rat) \<le> ?u"
    by linarith
  have "(99 / 100 * (99 / 100 * (8 / 100)) :: rat) \<le> rnd (99 / 100 * (8 / 100))"
    by (rule R(5)) simp_all
  also have "\<dots> \<le> rnd ?u"
    by (rule R(1) [OF u])
  finally have w: "(78 / 1000 :: rat) \<le> watch" "watch \<le> 1"
    unfolding assms(5) by simp_all
  have x: "0 \<le> rat_of_int sz * watch" "rat_of_int sz * watch \<le> of_int sz"
    using assms(3) w by (auto simp: mult_left_le)
  have "rnd (of_int sz * watch) \<le> of_int sz" "of_int 0 \<le> rnd (of_int sz * watch)"
    using R(1) [OF x(2)] R(6) [OF x(1)] sz by simp_all
  then have b: "0 \<le> end' \<and> end' \<le> sz"
    unfolding assms(6) sz by (intro trunc_bounds) auto
  have "1 \<le> end'" if "13 \<le> sz"
  proof -
    have "(13 :: rat) \<le> of_int sz" using that by (metis of_int_le_iff of_int_numeral)
    then have "13 * (78 / 1000) \<le> rat_of_int sz * watch"
      using w by (intro mult_mono) auto
    then have "1 \<le> rat_of_int sz * watch" by simp
    from R(1) [OF this] R(4) have "of_int 1 \<le> rnd (of_int sz * watch)" by simp
    with \<open>rnd (of_int sz * watch) \<le> of_int sz\<close> show ?thesis
      unfolding assms(6) sz using trunc_bounds by fastforce
  qed
  with b show ?thesis by blast
qed

text \<open>The reads of one session: inside the file, and not empty where the file is large enough.\<close>

definition reqs_ok :: "int \<Rightarrow> int \<Rightarrow> rangeReq list \<Rightarrow> bool" where
  "reqs_ok n sz rs \<longleftrightarrow> (\<forall>r \<in> set rs. req_in 0 sz r) \<and> req_sum rs \<le> n * sz"

lemma reqs_ok_append: "reqs_ok m sz xs \<Longrightarrow> reqs_ok n sz ys \<Longrightarrow> reqs_ok (m + n) sz (xs @ ys)"
  by (auto simp: reqs_ok_def req_sum_def algebra_simps)

lemma req_sum_bytes: "\<forall>r \<in> set rs. 0 < rq_length r \<Longrightarrow> req_sum rs = int (length (concat (map req_bytes rs)))"
  by (induction rs) (auto simp: req_bytes_def)

definition config_ok :: "workloadConfig \<Rightarrow> bool" where
  "config_ok c \<longleftrightarrow> 0 < wc_videoChunk c \<and> wc_videoChunk c < 2 ^ 58 \<and> 0 < wc_pdfChunk c \<and> wc_pdfChunk c < 2 ^ 58 \<and>
     0 < wc_downloadBuf c \<and> wc_downloadBuf c < 2 ^ 58"

lemma sequential_ok:
  assumes "0 < chunk" and "chunk < 2 ^ 58" and "0 \<le> off" and "to \<le> sz" and "sz < 2 ^ 52" and sz: "0 < sz"
  shows "\<exists>rs. sequential off to chunk 0 = Some rs \<and> reqs_ok 1 sz rs \<and> (off < to \<longrightarrow> rs \<noteq> []) \<and>
    concat (map req_bytes rs) = [off .. to - 1]"
proof -
  obtain rs where rs: "sequential off to chunk 0 = Some rs" "concat (map req_bytes rs) = [off .. to - 1]"
    "\<forall>r \<in> set rs. req_in off to r \<and> rq_length r \<le> chunk"
    using sequential_spec [of chunk off to 0] assms by auto
  have "\<forall>r \<in> set rs. 0 < rq_length r"
    using rs(3) by (auto simp: req_in_def)
  then have "req_sum rs \<le> sz"
    unfolding req_sum_bytes [OF \<open>\<forall>r \<in> set rs. 0 < rq_length r\<close>] rs(2) using assms(3-5) sz by simp
  then have "reqs_ok 1 sz rs"
    using rs(3) assms(3,4) req_in_mono [of off to _ 0 sz] by (auto simp: reqs_ok_def)
  moreover have "off < to \<longrightarrow> rs \<noteq> []"
    using rs(2) by (metis concat.simps(1) list.map(1) upto_Nil zle_diff1_eq not_less)
  ultimately show ?thesis using rs by blast
qed

lemma videoReads_ok:
  assumes "float_ok rnd" and "rng_ok R" and "0 < chunk" and "chunk < 2 ^ 58" and "0 < sz" and "sz < 2 ^ 52"
  shows "\<exists>reqs g'. videoReads rnd R sz chunk g = Some (Inr (reqs, g')) \<and> reqs_ok 2 sz reqs \<and> (13 \<le> sz \<longrightarrow> reqs \<noteq> [])"
proof -
  obtain e g1 where e: "ExpFloat64 R g = (e, g1)" by fastforce
  obtain x g2 where x: "Float64 R g1 = (x, g2)" by fastforce
  obtain k g3 where k: "Intn R 4 g2 = (k, g3)" by fastforce
  define watch where "watch = min 1 (rnd (rnd (8 / 100) + rnd (e * rnd (37 / 100))))"
  define end' where "end' = trunc (rnd (rnd (of_int sz) * watch))"
  define first where "first = min end' (i64 (chunk * (2 + k)))"
  obtain d g4 where d: "Int63n R (max 1 (i64 (sz - first))) g3 = (d, g4)" by fastforce
  have e0: "0 \<le> e"
    using assms(2) e unfolding rng_ok_def by (metis fst_conv)
  have end': "0 \<le> end'" "end' \<le> sz" "13 \<le> sz \<Longrightarrow> 1 \<le> end'"
    using video_end [OF assms(1) e0 assms(5,6) watch_def end'_def] by auto
  have k0: "0 \<le> k" "k < 4"
    using assms(2) k unfolding rng_ok_def by (metis fst_conv zero_less_numeral)+
  have c: "2 * chunk \<le> chunk * (2 + k)" "chunk * (2 + k) \<le> chunk * 5"
    using k0 assms(3) by (auto simp: mult.commute [of 2] intro!: mult_left_mono)
  have ck: "i64 (chunk * (2 + k)) = chunk * (2 + k)"
  proof -
    have "i64 p = p" if "2 * chunk \<le> p" "p \<le> chunk * 5" for p
      using that assms(3,4) by (intro i64_id) auto
    then show ?thesis using c by blast
  qed
  have first: "0 \<le> first" "first \<le> end'" "1 \<le> end' \<Longrightarrow> 1 \<le> first"
    using end' c assms(3) unfolding first_def ck by linarith+
  have sf: "i64 (sz - first) = sz - first"
    using first end' assms(6) by (intro i64_id) auto
  have d0: "0 \<le> d" "d < max 1 (sz - first)"
    using assms(2) d sf unfolding rng_ok_def by (metis fst_conv less_max_iff_disj zero_less_one)+
  define seek where "seek = i64 (first + d)"
  have seek: "seek = first + d" "0 \<le> seek" "seek \<le> sz"
    unfolding seek_def using first d0 end' assms(6) by (auto simp: i64_id)
  define seekTo where "seekTo = i64 (seek - seek smod chunk)"
  have m: "seek smod chunk = seek mod chunk"
    using seek(2) assms(3) by (cases "seek = 0") (auto simp: signed_modulo_int_eq_modulo_int)
  have mm: "0 \<le> seek mod chunk" "seek mod chunk \<le> seek"
    using seek(2) assms(3) by (auto intro: zmod_le_nonneg_dividend)
  have seekTo: "0 \<le> seekTo" "seekTo \<le> sz"
    unfolding seekTo_def m using mm seek assms(6) by (auto simp: i64_id)
  let ?to = "min sz (i64 (seekTo + i64 (end' - first)))"
  have fs: "first \<le> sz" and ms: "max end' (min sz chunk) \<le> sz" "0 < max end' (min sz chunk)"
    using first end' assms(3,5) by auto
  obtain r1 where r1: "sequential 0 first chunk 0 = Some r1" "reqs_ok 1 sz r1" "0 < first \<longrightarrow> r1 \<noteq> []"
    using sequential_ok [OF assms(3,4) order_refl fs assms(6,5)] by blast
  obtain r2 where r2: "sequential seekTo ?to chunk 0 = Some r2" "reqs_ok 1 sz r2"
    using sequential_ok [OF assms(3,4) seekTo(1) min.cobounded1 assms(6,5)] by blast
  obtain r3 where r3: "sequential 0 (max end' (min sz chunk)) chunk 0 = Some r3" "reqs_ok 1 sz r3" "r3 \<noteq> []"
    using sequential_ok [OF assms(3,4) order_refl ms(1) assms(6,5)] ms(2) by blast
  show ?thesis
  proof (cases "x < rnd (2 / 10)")
    case True
    then have "videoReads rnd R sz chunk g = Some (Inr (r1 @ r2, g4))"
      unfolding videoReads_def Let_def e x prod.case watch_def [symmetric] end'_def [symmetric] k first_def [symmetric] d
        seek_def [symmetric] seekTo_def [symmetric]
      using r1 r2 assms(3) by simp
    with reqs_ok_append [OF r1(2) r2(2)] r1(3) first end' show ?thesis
      by auto
  next
    case False
    then have "videoReads rnd R sz chunk g = Some (Inr (r3, g2))"
      unfolding videoReads_def Let_def e x prod.case watch_def [symmetric] end'_def [symmetric] k first_def [symmetric] d
      using r3 by simp
    with r3 assms(5) show ?thesis by (auto simp: reqs_ok_def)
  qed
qed

lemma pdfReads_ok:
  assumes "rng_ok R" and "0 < chunk" and "chunk < 2 ^ 58" and "0 < sz" and "sz < 2 ^ 52"
  shows "\<exists>reqs g'. pdfReads R sz chunk g = Some (Inr (reqs, g')) \<and> reqs_ok 2 sz reqs \<and> reqs \<noteq> []"
proof -
  obtain k g1 where k: "Intn R 14 g = (k, g1)" by fastforce
  have k0: "0 \<le> k" "k < 14"
    using assms(1) k unfolding rng_ok_def by (metis fst_conv zero_less_numeral)+
  obtain rs where rs: "sequential 0 (min sz (i64 ((2 + k) * chunk))) chunk 0 = Some rs" "reqs_ok 1 sz rs"
    using sequential_ok [OF assms(2,3) order_refl min.cobounded1 assms(5,4)] by blast
  have "i64 (sz - min sz 65536) = sz - min sz 65536"
    using assms(4,5) by (intro i64_id) auto
  then have "reqs_ok 1 sz [\<lparr>rq_off = i64 (sz - min sz 65536), rq_length = min sz 65536, rq_seq = - 1\<rparr>]"
    using assms(4) by (simp add: reqs_ok_def req_in_def)
  from reqs_ok_append [OF this rs(2)]
  have "reqs_ok 2 sz (\<lparr>rq_off = i64 (sz - min sz 65536), rq_length = min sz 65536, rq_seq = - 1\<rparr> # rs)"
    by simp
  with rs k show ?thesis
    by (simp add: pdfReads_def Let_def)
qed

lemma session_reqs_ok:
  assumes "float_ok (fl_rnd F)" and "rng_ok R" and "config_ok cfg" and "0 < sz" and "sz < 2 ^ 52"
  shows "\<exists>reqs g'. session_reqs F R cfg k sz g = Some (Inr (reqs, g')) \<and> reqs_ok 2 sz reqs \<and>
    (k = ''video'' \<longrightarrow> 13 \<le> sz \<longrightarrow> reqs \<noteq> []) \<and> (k \<noteq> ''video'' \<longrightarrow> reqs \<noteq> [])"
proof -
  have c: "0 < wc_videoChunk cfg" "wc_videoChunk cfg < 2 ^ 58" "0 < wc_pdfChunk cfg" "wc_pdfChunk cfg < 2 ^ 58"
    "0 < wc_downloadBuf cfg" "wc_downloadBuf cfg < 2 ^ 58"
    using assms(3) by (auto simp: config_ok_def)
  show ?thesis
  proof (cases "k = ''video''")
    case True
    then show ?thesis
      using videoReads_ok [OF assms(1,2) c(1,2) assms(4,5), of g] by (simp add: session_reqs_def)
  next
    case v: False
    show ?thesis
    proof (cases "k = ''pdf''")
      case True
      then show ?thesis
        using pdfReads_ok [OF assms(2) c(3,4) assms(4,5), of g] v by (simp add: session_reqs_def)
    next
      case False
      obtain rs where "sequential 0 sz (wc_downloadBuf cfg) 0 = Some rs" "reqs_ok 1 sz rs" "rs \<noteq> []"
        using sequential_ok [OF c(5,6) order_refl order_refl assms(5,4)] assms(4) by blast
      with v False assms(4) show ?thesis
        by (auto simp: session_reqs_def reqs_ok_def)
    qed
  qed
qed

subsection \<open>The grouping\<close>

lemma group_by_course_files:
  "(case group_by_course objs c of None \<Rightarrow> (\<lambda>_. []) | Some f \<Rightarrow> f) k =
     filter (\<lambda>ob. courseOf (obj_key ob) = c \<and> kind (obj_key ob) = k) objs"
proof -
  have "(case foldl group_object m objs c of None \<Rightarrow> (\<lambda>_. []) | Some f \<Rightarrow> f) k =
      (case m c of None \<Rightarrow> (\<lambda>_. []) | Some f \<Rightarrow> f) k @
      filter (\<lambda>ob. courseOf (obj_key ob) = c \<and> kind (obj_key ob) = k) objs" for m
    by (induction objs arbitrary: m) (auto simp: group_object_def Let_def split: option.splits)
  then show ?thesis by (simp add: group_by_course_def)
qed

lemma kind_in_all: "kind key \<in> set all_kinds"
  by (simp add: kind_def Let_def all_kinds_def)


subsection \<open>Sessions\<close>

definition session_ok :: "workloadConfig \<Rightarrow> object list \<Rightarrow> session \<Rightarrow> bool" where
  "session_ok cfg objs s \<longleftrightarrow>
     sess_obj s \<in> set objs \<and> sess_kind s = kind (obj_key (sess_obj s)) \<and>
     (\<forall>r \<in> set (sess_reqs s). req_in 0 (obj_size (sess_obj s)) r) \<and>
     (0 < wc_maxBytes cfg \<longrightarrow> req_sum (sess_reqs s) \<le> wc_maxBytes cfg \<or> length (sess_reqs s) = 1)"

definition sizes_ok :: "object list \<Rightarrow> bool" where
  "sizes_ok objs \<longleftrightarrow> (\<forall>ob \<in> set objs. 0 < obj_size ob \<and> obj_size ob < 2 ^ 52)"

lemma capped_session_ok:
  assumes "ob \<in> set objs" and "k = kind (obj_key ob)" and "reqs_ok 2 (obj_size ob) reqs" and "sizes_ok objs"
  shows "session_ok cfg objs \<lparr>sess_obj = ob, sess_kind = k, sess_reqs = capBytes reqs (wc_maxBytes cfg)\<rparr>"
    and "reqs \<noteq> [] \<Longrightarrow> capBytes reqs (wc_maxBytes cfg) \<noteq> []"
proof -
  have pos: "\<forall>r \<in> set reqs. 0 < rq_length r"
    using assms(3) by (simp add: reqs_ok_def req_in_def)
  have "obj_size ob < 2 ^ 52"
    using assms(1,4) by (auto simp: sizes_ok_def)
  then have "req_sum reqs < 2 ^ 63"
    using assms(3) by (simp add: reqs_ok_def)
  note c = capBytes_spec [OF pos this, of "wc_maxBytes cfg"]
  then have "set (capBytes reqs (wc_maxBytes cfg)) \<subseteq> set reqs"
    by (simp add: set_mono_prefix)
  with c assms show "session_ok cfg objs \<lparr>sess_obj = ob, sess_kind = k, sess_reqs = capBytes reqs (wc_maxBytes cfg)\<rparr>"
    by (auto simp: session_ok_def reqs_ok_def)
  show "reqs \<noteq> [] \<Longrightarrow> capBytes reqs (wc_maxBytes cfg) \<noteq> []"
    using c by blast
qed

lemma draw_session_ok:
  assumes "float_ok (fl_rnd F)" and "rng_ok R" and "config_ok cfg" and "objs \<noteq> []" and "sizes_ok objs"
  shows "\<exists>s g'. draw_session F R cfg objs g = Some (Inr (s, g')) \<and> session_ok cfg objs s \<and>
    (sess_kind s = ''video'' \<and> obj_size (sess_obj s) < 13 \<or> sess_reqs s \<noteq> [])"
proof -
  let ?cs = "course_list objs"
  let ?cw = "map (\<lambda>i. fl_rnd F (1 / fl_pow F (of_nat (i + 1)) (wc_zipfS cfg))) [0 ..< length ?cs]"
  obtain ci g1 where p1: "pickWeighted (fl_rnd F) R ?cw g = (ci, g1)" by fastforce
  have cs: "set ?cs = (\<lambda>ob. courseOf (obj_key ob)) ` set objs"
    by (simp add: course_list_def)
  then have "?cs \<noteq> []" using assms(4) by auto
  then obtain c where c: "index_checked ?cs ci = Inr c" "c \<in> set ?cs"
    using index_checked_pick [of ?cw ?cs "fl_rnd F" R g] p1 by auto
  define files where "files = (case group_by_course objs c of None \<Rightarrow> (\<lambda>_. []) | Some f \<Rightarrow> f)"
  have files: "files k = filter (\<lambda>ob. courseOf (obj_key ob) = c \<and> kind (obj_key ob) = k) objs" for k
    unfolding files_def by (rule group_by_course_files)
  let ?ks = "filter (\<lambda>k. files k \<noteq> []) all_kinds"
  obtain ki g2 where p2: "pickWeighted (fl_rnd F) R (map (kindW (fl_rnd F)) ?ks) g1 = (ki, g2)" by fastforce
  obtain ob0 where "ob0 \<in> set objs" "courseOf (obj_key ob0) = c"
    using c(2) cs by auto
  then have "kind (obj_key ob0) \<in> set ?ks"
    using kind_in_all by (auto simp: files filter_empty_conv)
  then have "?ks \<noteq> []" by (metis emptyE set_empty)
  then obtain k where k: "index_checked ?ks ki = Inr k" "k \<in> set ?ks"
    using index_checked_pick [of "map (kindW (fl_rnd F)) ?ks" ?ks "fl_rnd F" R g1] p2 by auto
  let ?fs = "sort_key obj_key (files k)"
  let ?fw = "map (\<lambda>i. fl_rnd F (1 / fl_sqrt F (of_nat (i + 1)))) [0 ..< length ?fs]"
  obtain fi g3 where p3: "pickWeighted (fl_rnd F) R ?fw g2 = (fi, g3)" by fastforce
  have "?fs \<noteq> []"
  proof
    assume "?fs = []"
    then have "files k = []" by (metis set_empty set_sort)
    with k(2) show False by simp
  qed
  then obtain ob where ob: "index_checked ?fs fi = Inr ob" "ob \<in> set ?fs"
    using index_checked_pick [of ?fw ?fs "fl_rnd F" R g2] p3 by auto
  have o: "ob \<in> set objs" "k = kind (obj_key ob)"
    using ob(2) by (auto simp: files)
  then have sz: "0 < obj_size ob" "obj_size ob < 2 ^ 52"
    using assms(5) by (auto simp: sizes_ok_def)
  obtain reqs g4 where reqs: "session_reqs F R cfg k (obj_size ob) g3 = Some (Inr (reqs, g4))" "reqs_ok 2 (obj_size ob) reqs"
    "k = ''video'' \<longrightarrow> 13 \<le> obj_size ob \<longrightarrow> reqs \<noteq> []" "k \<noteq> ''video'' \<longrightarrow> reqs \<noteq> []"
    using session_reqs_ok [OF assms(1-3) sz] by blast
  let ?s = "\<lparr>sess_obj = ob, sess_kind = k, sess_reqs = capBytes reqs (wc_maxBytes cfg)\<rparr>"
  have "draw_session F R cfg objs g = Some (Inr (?s, g4))"
    unfolding draw_session_def Let_def p1 prod.case c(1) sum.case files_def [symmetric] p2 k(1) p3 ob(1) reqs(1)
    by simp
  moreover have "session_ok cfg objs ?s"
    by (rule capped_session_ok(1) [OF o reqs(2) assms(5)])
  moreover have "k = ''video'' \<and> obj_size ob < 13 \<or> capBytes reqs (wc_maxBytes cfg) \<noteq> []"
    using reqs(3,4) capped_session_ok(2) [OF o reqs(2) assms(5)] by (meson not_less)
  ultimately show ?thesis by force
qed

lemma session_loop_ok:
  assumes "float_ok (fl_rnd F)" and "rng_ok R" and "config_ok cfg" and "objs \<noteq> []" and "sizes_ok objs"
    and "\<forall>ob \<in> set objs. kind (obj_key ob) = ''video'' \<longrightarrow> 13 \<le> obj_size ob"
    and "\<forall>s \<in> set out. session_ok cfg objs s \<and> sess_reqs s \<noteq> []"
    and "int (length out) \<le> max 0 (wc_sessions cfg)"
  shows "\<exists>res. session_loop F R cfg objs out g = Some (Inr res) \<and> int (length res) = max 0 (wc_sessions cfg) \<and>
    (\<forall>s \<in> set res. session_ok cfg objs s \<and> sess_reqs s \<noteq> [])"
  using assms(7,8)
proof (induction "nat (wc_sessions cfg - int (length out))" arbitrary: out g)
  case 0
  then show ?case by (subst session_loop.simps) auto
next
  case (Suc n)
  obtain s g' where s: "draw_session F R cfg objs g = Some (Inr (s, g'))" "session_ok cfg objs s"
    "sess_kind s = ''video'' \<and> obj_size (sess_obj s) < 13 \<or> sess_reqs s \<noteq> []"
    using draw_session_ok [OF assms(1-5)] by blast
  then have ne: "sess_reqs s \<noteq> []"
    using assms(6) by (fastforce simp: session_ok_def)
  have "\<exists>res. session_loop F R cfg objs (out @ [s]) g' = Some (Inr res) \<and> int (length res) = max 0 (wc_sessions cfg) \<and>
      (\<forall>s \<in> set res. session_ok cfg objs s \<and> sess_reqs s \<noteq> [])"
    using Suc.hyps(2) Suc.prems s(2) ne by (intro Suc.hyps(1)) auto
  moreover have "session_loop F R cfg objs out g = session_loop F R cfg objs (out @ [s]) g'"
  proof -
    have "int (length out) < wc_sessions cfg" using Suc.hyps(2) by linarith
    then show ?thesis using s(1) ne by (subst session_loop.simps) simp
  qed
  ultimately show ?case by simp
qed

subsection \<open>Properties\<close>

text \<open>
  The flag \<^verbatim>\<open>-max-bytes-per-session\<close> is documented as a cap on the bytes a session reads; a first request that is longer than the
  cap is kept all the same.
\<close>

lemma cap_keeps_first_request:
  assumes "0 < m" and "m < rq_length r" and "rq_length r < 2 ^ 63"
  shows "capBytes (r # rs) m = [r]"
  using assms i64_id [of "rq_length r"] by (simp add: capBytes_def Let_def)

text \<open>
  C32: The workload is well-formed and is always produced: over any non-empty listing of files of between 1 and
  \<open>2^52 - 1\<close> bytes (videos of at least 13 bytes) and with request sizes between 1 and \<open>2^58 - 1\<close>, \<open>buildSessions\<close>
  returns, without a panic, exactly the number of sessions asked for; each is about a listed file under that file's
  kind, has at least one request, every request is non-empty and lies inside the file, and the session reads no
  more than the cap on bytes unless it is a single request, which may exceed the cap.
\<close>

theorem workload_well_formed:
  assumes "float_ok (fl_rnd F)" and "rng_ok R" and "config_ok cfg" and "objs \<noteq> []" and "sizes_ok objs"
    and "\<forall>ob \<in> set objs. kind (obj_key ob) = ''video'' \<longrightarrow> 13 \<le> obj_size ob"
  shows "\<exists>res. buildSessions F R cfg objs = Some (Inr res) \<and> int (length res) = max 0 (wc_sessions cfg) \<and>
    (\<forall>s \<in> set res. session_ok cfg objs s \<and> sess_reqs s \<noteq> [])"
  unfolding buildSessions_def using session_loop_ok [OF assms, of "[]" "NewSource R (wc_seed cfg)"] by simp

definition exact_floats :: float_ops where
  "exact_floats = \<lparr>fl_rnd = (\<lambda>x. x), fl_pow = (\<lambda>x y. x), fl_sqrt = (\<lambda>x. x)\<rparr>"

lemma exact_floats_ok: "float_ok (fl_rnd exact_floats)"
  by (simp add: exact_floats_def float_ok_def mono_def)

definition demo_workload :: workloadConfig where
  "demo_workload =
     \<lparr>wc_sessions = 3, wc_maxBytes = 50331648, wc_videoChunk = 2097152, wc_pdfChunk = 262144, wc_downloadBuf = 4194304,
      wc_zipfS = 11 / 10, wc_seed = 42\<rparr>"

theorem workload_well_formed_witness:
  "\<exists>res. buildSessions exact_floats zero_rng demo_workload [\<lparr>obj_key = ''a.zip'', obj_size = 9\<rparr>] = Some (Inr res) \<and>
    length res = 3 \<and> session_ok demo_workload [\<lparr>obj_key = ''a.zip'', obj_size = 9\<rparr>] (hd res)"
proof -
  let ?objs = "[\<lparr>obj_key = ''a.zip'', obj_size = 9\<rparr>]"
  have "kind ''a.zip'' = ''dataset''"
    using kind_suffix(4) [of "''a''"] by simp
  then obtain res where "buildSessions exact_floats zero_rng demo_workload ?objs = Some (Inr res)"
    "int (length res) = max 0 (wc_sessions demo_workload)" "\<forall>s \<in> set res. session_ok demo_workload ?objs s \<and> sess_reqs s \<noteq> []"
    using workload_well_formed [OF exact_floats_ok zero_rng_ok, of demo_workload ?objs]
    by (auto simp: config_ok_def demo_workload_def sizes_ok_def)
  moreover from this have "length res = 3"
    by (simp add: demo_workload_def)
  moreover from this have "hd res \<in> set res"
    by (cases res) auto
  ultimately show ?thesis by blast
qed

text \<open>
  C36: A sequential reader asks for every byte of its range exactly once and in order, in requests of the chunk size
  (the last may be shorter) numbered from the start; and with a request size of zero the loop never
  ends (\<open>bench run -video-chunk 0\<close> appends requests until memory is exhausted).
\<close>

theorem sequential_reads_tile:
  assumes "0 \<le> off" and "off < to" and "to + chunk < 2 ^ 63" and "0 \<le> chunk"
  shows "if chunk = 0 then sequential off to chunk 0 = None
    else \<exists>rs. sequential off to chunk 0 = Some rs \<and> concat (map req_bytes rs) = [off .. to - 1] \<and>
      (\<forall>r \<in> set (butlast rs). rq_length r = chunk) \<and> (\<forall>r \<in> set rs. rq_length r \<le> chunk) \<and>
      map rq_seq rs = [0 .. int (length rs) - 1]"
proof (cases "chunk = 0")
  case True
  then have "sequential off to chunk 0 = None"
    using sequential_stuck [of off to 0] assms by (cases "sequential off to 0 0") auto
  with True show ?thesis by simp
next
  case False
  with sequential_spec [of chunk off to 0] assms show ?thesis by auto
qed

theorem sequential_reads_tile_witness:
  "sequential 0 5 0 0 = None \<and> (\<exists>rs. sequential 0 5 2 0 = Some rs \<and> concat (map req_bytes rs) = [0 .. 4])"
  using sequential_reads_tile [of 0 5 0] sequential_reads_tile [of 0 5 2] by auto

end
