(* ===== verification/Bench_Stats.thy ===== *)
theory Bench_Stats
  imports Workload Tracker
begin

section \<open>The benchmark's statistics\<close>

text \<open>
  The summary part of \<^verbatim>\<open>cmd/bench/run.go\<close>: \<open>stats\<close>, \<open>pct\<close> and \<open>summarize\<close>. Durations are nanoseconds.
  \<^verbatim>\<open>sort.SearchFloat64s\<close> is the binary search of package \<^verbatim>\<open>sort\<close>, proved to find the first edge that
  is not below the value. As in \<open>Workload\<close>, \<open>None\<close> is a loop that does not end and \<open>Inl\<close> a panic.
\<close>

record sample =
  s_Phase :: string
  s_Kind :: string
  s_Object :: string
  s_Offset :: int
  s_Length :: int
  s_Seq :: int
  s_Tier :: string
  s_TTFB :: int
  s_Latency :: int
  s_StartedAt :: int
  s_Err :: string

record Stats =
  st_Count :: nat
  st_Errors :: nat
  st_P50 :: rat
  st_P90 :: rat
  st_P99 :: rat
  st_P999 :: rat
  st_Max :: rat
  st_Mean :: rat
  st_TTFB50 :: rat
  st_TTFB99 :: rat

record PhaseSummary =
  ps_Phase :: string
  ps_WallSec :: rat
  ps_Bytes :: int
  ps_MBps :: rat
  ps_All :: Stats
  ps_Kinds :: "string \<Rightarrow> Stats option"
  ps_Tiers :: "string \<Rightarrow> Stats option"
  ps_Histogram :: "nat list"
  ps_HistEdges :: "rat list"
  ps_BySeq :: "rat list"

record bench_floats = float_ops +
  fl_log10 :: "rat \<Rightarrow> rat"

definition gbind :: "go_panic + 'a \<Rightarrow> ('a \<Rightarrow> go_panic + 'b) \<Rightarrow> go_panic + 'b" where
  "gbind r f = (case r of Inl e \<Rightarrow> Inl e | Inr x \<Rightarrow> f x)"

lemma gbind_simps [simp]: "gbind (Inl e) f = Inl e" "gbind (Inr x) f = f x"
  by (simp_all add: gbind_def)

subsection \<open>Percentiles\<close>

definition millis :: "(rat \<Rightarrow> rat) \<Rightarrow> int \<Rightarrow> rat" where
  "millis rnd d = rnd (rnd (of_int (d sdiv 1000)) / 1000)"

definition pct :: "(rat \<Rightarrow> rat) \<Rightarrow> rat list \<Rightarrow> rat \<Rightarrow> go_panic + rat" where
  "pct rnd xs q =
     (let i = \<lceil>rnd (rnd q * rnd (of_nat (length xs)))\<rceil> - 1
      in index_checked xs (max 0 (min i (int (length xs) - 1))))"

definition no_stats :: Stats where
  "no_stats =
     \<lparr>st_Count = 0, st_Errors = 0, st_P50 = 0, st_P90 = 0, st_P99 = 0, st_P999 = 0, st_Max = 0, st_Mean = 0,
      st_TTFB50 = 0, st_TTFB99 = 0\<rparr>"

text \<open>The first loop of \<open>stats\<close>: the counts, the latencies and the times to the first byte.\<close>

fun stats_loop ::
  "(rat \<Rightarrow> rat) \<Rightarrow> sample list \<Rightarrow> Stats \<Rightarrow> rat list \<Rightarrow> rat list \<Rightarrow> Stats \<times> rat list \<times> rat list" where
  "stats_loop rnd [] st lat ttfb = (st, lat, ttfb)"
| "stats_loop rnd (s # ss) st lat ttfb =
     (let st1 = st\<lparr>st_Count := st_Count st + 1\<rparr>
      in if s_Err s \<noteq> '''' then stats_loop rnd ss (st1\<lparr>st_Errors := st_Errors st1 + 1\<rparr>) lat ttfb
         else stats_loop rnd ss st1 (lat @ [millis rnd (s_Latency s)]) (ttfb @ [millis rnd (s_TTFB s)]))"

definition stats :: "(rat \<Rightarrow> rat) \<Rightarrow> sample list \<Rightarrow> go_panic + Stats" where
  "stats rnd ss =
     (case stats_loop rnd ss no_stats [] [] of (st, lat0, ttfb0) \<Rightarrow>
        if length lat0 = 0 then Inr st
        else let lat = sort lat0; ttfb = sort ttfb0; total = foldl (\<lambda>a v. rnd (a + v)) 0 lat
             in gbind (pct rnd lat (50 / 100)) (\<lambda>p50. gbind (pct rnd lat (90 / 100)) (\<lambda>p90.
                gbind (pct rnd lat (99 / 100)) (\<lambda>p99. gbind (pct rnd lat (999 / 1000)) (\<lambda>p999.
                gbind (index_checked lat (int (length lat) - 1)) (\<lambda>mx.
                gbind (pct rnd ttfb (50 / 100)) (\<lambda>t50. gbind (pct rnd ttfb (99 / 100)) (\<lambda>t99.
                  Inr (st\<lparr>st_Mean := rnd (total / rnd (of_nat (length lat))), st_P50 := p50, st_P90 := p90,
                          st_P99 := p99, st_P999 := p999, st_Max := mx, st_TTFB50 := t50, st_TTFB99 := t99\<rparr>)))))))))"

subsection \<open>Grouping and the histogram\<close>

definition by_key :: "(sample \<Rightarrow> 'k option) \<Rightarrow> sample list \<Rightarrow> 'k \<Rightarrow> sample list" where
  "by_key f ss =
     foldl (\<lambda>m s. case f s of None \<Rightarrow> m | Some k \<Rightarrow> m(k := m k @ [s])) (\<lambda>_. []) ss"

definition kind_group :: "sample \<Rightarrow> string option" where
  "kind_group s = Some (s_Kind s)"

definition tier_group :: "sample \<Rightarrow> string option" where
  "tier_group s = (if s_Err s = '''' then Some (s_Tier s) else None)"

definition seq_group :: "sample \<Rightarrow> int option" where
  "seq_group s = (if s_Kind s = ''video'' \<and> s_Seq s \<ge> 0 then Some (s_Seq s) else None)"

text \<open>The loops over the groups (in some order of the keys, which does not matter).\<close>

fun stats_each ::
  "(rat \<Rightarrow> rat) \<Rightarrow> (string \<Rightarrow> sample list) \<Rightarrow> string list \<Rightarrow> (string \<Rightarrow> Stats option) \<Rightarrow> go_panic + (string \<Rightarrow> Stats option)" where
  "stats_each rnd m [] res = Inr res"
| "stats_each rnd m (k # ks) res = gbind (stats rnd (m k)) (\<lambda>st. stats_each rnd m ks (res(k \<mapsto> st)))"

partial_function (option) edge_loop :: "bench_floats \<Rightarrow> rat \<Rightarrow> rat \<Rightarrow> rat list option" where
  "edge_loop F top_edge e =
     (if e \<le> top_edge
      then Option.bind (edge_loop F top_edge (fl_rnd F (e + 1 / 8))) (\<lambda>rest. Some (fl_pow F 10 e # rest))
      else Some [])"

definition hist_edges :: "bench_floats \<Rightarrow> rat list option" where
  "hist_edges F =
     edge_loop F (fl_rnd F (fl_log10 F (fl_rnd F 20000) + fl_rnd F (1 / 1000000000))) (fl_log10 F (fl_rnd F (2 / 100)))"

text \<open>\<^verbatim>\<open>sort.SearchFloat64s(a, x)\<close> from the interval \<open>[i, j)\<close>.\<close>

function search_floats :: "rat list \<Rightarrow> rat \<Rightarrow> nat \<Rightarrow> nat \<Rightarrow> nat" where
  "search_floats a x i j =
     (if i < j
      then let h = (i + j) div 2
           in if \<not> a ! h \<ge> x then search_floats a x (h + 1) j else search_floats a x i h
      else i)"
  by pat_completeness auto
termination
  by (relation "measure (\<lambda>(a, x, i, j). j - i)") auto

declare search_floats.simps [simp del]

text \<open>\<^verbatim>\<open>ps.Histogram[i]++\<close> for each successful sample.\<close>

fun hist_loop :: "(rat \<Rightarrow> rat) \<Rightarrow> rat list \<Rightarrow> sample list \<Rightarrow> nat list \<Rightarrow> go_panic + nat list" where
  "hist_loop rnd edges [] hist = Inr hist"
| "hist_loop rnd edges (s # ss) hist =
     (if s_Err s \<noteq> '''' then hist_loop rnd edges ss hist
      else let i = min (int (search_floats edges (millis rnd (s_Latency s)) 0 (length edges))) (int (length hist) - 1)
           in gbind (index_checked hist i) (\<lambda>c. hist_loop rnd edges ss (hist[nat i := c + 1])))"

text \<open>The loop over the depths of video runs, which stops at the first with fewer than five samples.\<close>

definition max_seq :: "sample list \<Rightarrow> int" where
  "max_seq ss = fold max (map s_Seq ss) 0"

lemma max_seq_ge: "s \<in> set ss \<Longrightarrow> s_Seq s \<le> max_seq ss"
proof -
  have "s \<in> set ss \<Longrightarrow> s_Seq s \<le> fold max (map s_Seq ss) a" for a
  proof (induction ss arbitrary: a)
    case (Cons t ss)
    have "b \<le> fold max (map s_Seq ss) b" for b
    proof (induction ss arbitrary: b)
      case (Cons u us)
      have "b \<le> max (s_Seq u) b" by simp
      also have "\<dots> \<le> fold max (map s_Seq us) (max (s_Seq u) b)" by (rule Cons)
      finally show ?case by simp
    qed simp
    then have "max (s_Seq t) a \<le> fold max (map s_Seq ss) (max (s_Seq t) a)" .
    with Cons show ?case by auto
  qed simp
  then show "s \<in> set ss \<Longrightarrow> s_Seq s \<le> max_seq ss" by (simp add: max_seq_def)
qed

lemma by_key_filter: "by_key f ss k = filter (\<lambda>s. f s = Some k) ss"
proof -
  have "foldl (\<lambda>m s. case f s of None \<Rightarrow> m | Some k \<Rightarrow> m(k := m k @ [s])) m ss k = m k @ filter (\<lambda>s. f s = Some k) ss" for m
    by (induction ss arbitrary: m) (auto split: option.split)
  then show ?thesis by (simp add: by_key_def)
qed

function by_seq_loop :: "(rat \<Rightarrow> rat) \<Rightarrow> sample list \<Rightarrow> int \<Rightarrow> go_panic + rat list" where
  "by_seq_loop rnd ss i =
     (if length (by_key seq_group ss i) < 5 then Inr []
      else gbind (stats rnd (by_key seq_group ss i)) (\<lambda>st.
           gbind (by_seq_loop rnd ss (i + 1)) (\<lambda>rest. Inr (st_P50 st # rest))))"
  by pat_completeness auto
termination
proof (relation "measure (\<lambda>(rnd, ss, i). nat (max_seq ss + 1 - i))", goal_cases)
  case 1
  show ?case by simp
next
  case (2 rnd ss i st)
  then have "by_key seq_group ss i \<noteq> []" by auto
  then obtain s where "s \<in> set ss" "seq_group s = Some i"
    by (auto simp: by_key_filter filter_empty_conv)
  then have "i \<le> max_seq ss"
    using max_seq_ge by (auto simp: seq_group_def split: if_splits)
  then show ?case by simp
qed

declare by_seq_loop.simps [simp del]

definition summarize :: "bench_floats \<Rightarrow> string \<Rightarrow> sample list \<Rightarrow> int \<Rightarrow> PhaseSummary outcome" where
  "summarize F phase samples wall =
     (let rnd = fl_rnd F; nbytes = foldl (\<lambda>a s. i64 (a + s_Length s)) 0 samples;
          kinds = remdups (map s_Kind samples); tiers = remdups (map s_Tier (filter (\<lambda>s. s_Err s = '''') samples))
      in Option.bind (hist_edges F) (\<lambda>edges. Some (
           gbind (stats rnd samples) (\<lambda>all.
           gbind (stats_each rnd (by_key kind_group samples) kinds (\<lambda>_. None)) (\<lambda>ks.
           gbind (stats_each rnd (by_key tier_group samples) tiers (\<lambda>_. None)) (\<lambda>ts.
           gbind (hist_loop rnd edges samples (replicate (length edges) 0)) (\<lambda>hist.
           gbind (by_seq_loop rnd samples 0) (\<lambda>bySeq.
             Inr \<lparr>ps_Phase = phase, ps_WallSec = seconds rnd wall, ps_Bytes = nbytes,
                  ps_MBps = rnd (rnd (rnd (of_int nbytes) / 1000000) / seconds rnd wall), ps_All = all, ps_Kinds = ks,
                  ps_Tiers = ts, ps_Histogram = hist, ps_HistEdges = edges, ps_BySeq = bySeq\<rparr>))))))))"

subsection \<open>What the statistics are\<close>

definition ok_samples :: "sample list \<Rightarrow> sample list" where
  "ok_samples ss = filter (\<lambda>s. s_Err s = '''') ss"

lemma stats_loop_spec:
  "stats_loop rnd ss st lat ttfb =
    (st\<lparr>st_Count := st_Count st + length ss, st_Errors := st_Errors st + length (filter (\<lambda>s. s_Err s \<noteq> '''') ss)\<rparr>,
     lat @ map (\<lambda>s. millis rnd (s_Latency s)) (ok_samples ss), ttfb @ map (\<lambda>s. millis rnd (s_TTFB s)) (ok_samples ss))"
  by (induction ss arbitrary: st lat ttfb) (simp_all add: ok_samples_def Let_def)

text \<open>The index \<open>pct\<close> reads.\<close>

definition pct_rank :: "(rat \<Rightarrow> rat) \<Rightarrow> nat \<Rightarrow> rat \<Rightarrow> nat" where
  "pct_rank rnd n q = nat (max 0 (min (\<lceil>rnd (rnd q * rnd (of_nat n))\<rceil> - 1) (int n - 1)))"

lemma pct_rank_less: "0 < n \<Longrightarrow> pct_rank rnd n q < n"
  by (simp add: pct_rank_def nat_less_iff)

lemma pct_rank_mono:
  assumes "mono rnd" and "q \<le> q'" and "0 \<le> rnd (of_nat n)"
  shows "pct_rank rnd n q \<le> pct_rank rnd n q'"
proof -
  have "rnd q * rnd (of_nat n) \<le> rnd q' * rnd (of_nat n)"
    using assms by (intro mult_right_mono) (auto dest: monoD)
  then have "rnd (rnd q * rnd (of_nat n)) \<le> rnd (rnd q' * rnd (of_nat n))"
    using assms(1) by (auto dest: monoD)
  then have "\<lceil>rnd (rnd q * rnd (of_nat n))\<rceil> \<le> \<lceil>rnd (rnd q' * rnd (of_nat n))\<rceil>"
    by (rule ceiling_mono)
  then show ?thesis
    unfolding pct_rank_def by (intro nat_mono) linarith
qed

lemma pct_rank_value: "xs \<noteq> [] \<Longrightarrow> pct rnd xs q = Inr (xs ! pct_rank rnd (length xs) q)"
  by (auto simp: pct_def Let_def index_checked_def pct_rank_def Suc_le_eq min_less_iff_disj)

definition ok_latencies :: "(rat \<Rightarrow> rat) \<Rightarrow> sample list \<Rightarrow> rat list" where
  "ok_latencies rnd ss = sort (map (\<lambda>s. millis rnd (s_Latency s)) (ok_samples ss))"

lemma length_ok_latencies [simp]: "length (ok_latencies rnd ss) = length (ok_samples ss)"
  by (simp add: ok_latencies_def)

lemma ok_latencies_empty [simp]: "ok_latencies rnd ss = [] \<longleftrightarrow> ok_samples ss = []"
  by (metis length_0_conv length_ok_latencies)

lemma stats_value:
  "\<exists>st. stats rnd ss = Inr st \<and> st_Count st = length ss \<and> st_Errors st = length (filter (\<lambda>s. s_Err s \<noteq> '''') ss) \<and>
    (ok_samples ss \<noteq> [] \<longrightarrow>
       (let lat = ok_latencies rnd ss; pick = (\<lambda>q. lat ! pct_rank rnd (length lat) q)
        in st_P50 st = pick (50 / 100) \<and> st_P90 st = pick (90 / 100) \<and> st_P99 st = pick (99 / 100) \<and>
           st_P999 st = pick (999 / 1000) \<and> st_Max st = last lat))"
proof (cases "ok_samples ss = []")
  case True
  then show ?thesis
    by (simp add: stats_def stats_loop_spec no_stats_def)
next
  case False
  let ?lat = "ok_latencies rnd ss" and ?ttfb = "sort (map (\<lambda>s. millis rnd (s_TTFB s)) (ok_samples ss))"
  have ne: "?lat \<noteq> []" "?ttfb \<noteq> []"
    using False length_ok_latencies [of rnd ss] by (metis length_0_conv, metis length_0_conv length_map length_sort)
  have m: "index_checked ?lat (int (length ?lat) - 1) = Inr (last ?lat)"
    using ne(1) by (simp add: index_checked_def last_conv_nth nat_diff_distrib Suc_le_eq)
  show ?thesis
    using False ne m unfolding stats_def stats_loop_spec prod.case append_Nil Let_def ok_latencies_def [symmetric]
    by (simp add: pct_rank_value no_stats_def)
qed

lemma sorted_last_max: "sorted xs \<Longrightarrow> x \<in> set xs \<Longrightarrow> x \<le> last xs"
  by (induction xs rule: rev_induct) (auto simp: sorted_append)

text \<open>Ranks and counts in a sorted list.\<close>

lemma count_le_nth: "sorted xs \<Longrightarrow> k < length xs \<Longrightarrow> Suc k \<le> length (filter (\<lambda>x. x \<le> xs ! k) xs)"
proof -
  assume s: "sorted xs" and k: "k < length xs"
  have "length (filter (\<lambda>x. x \<le> xs ! k) xs) =
      length (filter (\<lambda>x. x \<le> xs ! k) (take (Suc k) xs)) + length (filter (\<lambda>x. x \<le> xs ! k) (drop (Suc k) xs))"
    by (metis append_take_drop_id filter_append length_append)
  moreover have "filter (\<lambda>x. x \<le> xs ! k) (take (Suc k) xs) = take (Suc k) xs"
    using s k by (auto simp: filter_id_conv in_set_conv_nth sorted_iff_nth_mono)
  ultimately show ?thesis using k by simp
qed

lemma count_less_nth: "sorted xs \<Longrightarrow> k < length xs \<Longrightarrow> length (filter (\<lambda>x. x < xs ! k) xs) \<le> k"
proof -
  assume s: "sorted xs" and k: "k < length xs"
  have "length (filter (\<lambda>x. x < xs ! k) xs) =
      length (filter (\<lambda>x. x < xs ! k) (take k xs)) + length (filter (\<lambda>x. x < xs ! k) (drop k xs))"
    by (metis append_take_drop_id filter_append length_append)
  moreover have "filter (\<lambda>x. x < xs ! k) (drop k xs) = []"
    using s k by (auto simp: filter_empty_conv in_set_conv_nth not_less sorted_iff_nth_mono)
  ultimately show ?thesis
    using length_filter_le [of "\<lambda>x. x < xs ! k" "take k xs"] by simp
qed

text \<open>\<^verbatim>\<open>sort.SearchFloat64s\<close> finds the first element not below the value.\<close>

lemma search_floats_spec:
  assumes "sorted a" and "j \<le> length a" and "i \<le> j" and "\<forall>k < i. a ! k < x" and "\<forall>k. j \<le> k \<and> k < length a \<longrightarrow> x \<le> a ! k"
  shows "search_floats a x i j \<le> length a \<and> (\<forall>k < search_floats a x i j. a ! k < x) \<and>
    (\<forall>k. search_floats a x i j \<le> k \<and> k < length a \<longrightarrow> x \<le> a ! k)"
  using assms
proof (induction a x i j rule: search_floats.induct)
  case (1 a x i j)
  show ?case
  proof (cases "i < j")
    case False
    then have "search_floats a x i j = i" by (simp add: search_floats.simps [of a x i j])
    with False "1.prems" show ?thesis by simp
  next
    case True
    define h where "h = (i + j) div 2"
    have h: "i \<le> h" "h < j" "h < length a"
      using True "1.prems"(2) by (auto simp: h_def)
    have step: "search_floats a x i j = (if \<not> x \<le> a ! h then search_floats a x (h + 1) j else search_floats a x i h)"
      using True by (subst search_floats.simps) (simp add: h_def)
    show ?thesis
    proof (cases "x \<le> a ! h")
      case ge: True
      have up: "\<forall>k. h \<le> k \<and> k < length a \<longrightarrow> x \<le> a ! k"
        using ge "1.prems"(1) sorted_nth_mono order_trans by blast
      have e: "search_floats a x i j = search_floats a x i h" using step ge by simp
      from ge have "\<not> \<not> x \<le> a ! h" by simp
      from "1.IH"(2) [OF True h_def this "1.prems"(1) less_imp_le [OF h(3)] h(1) "1.prems"(4) up]
      show ?thesis unfolding e .
    next
      case lt: False
      have lo: "\<forall>k < h + 1. a ! k < x"
        using lt h sorted_nth_mono [OF "1.prems"(1), of _ h] by (auto simp: less_Suc_eq_le not_le intro: le_less_trans)
      have e: "search_floats a x i j = search_floats a x (h + 1) j" using step lt by simp
      have "h + 1 \<le> j" using h(2) by simp
      from "1.IH"(1) [OF True h_def lt "1.prems"(1,2) this lo "1.prems"(5)]
      show ?thesis unfolding e .
    qed
  qed
qed

text \<open>The bucket of a latency: the last one takes everything above.\<close>

definition in_bucket :: "rat list \<Rightarrow> nat \<Rightarrow> rat \<Rightarrow> bool" where
  "in_bucket edges b ms \<longleftrightarrow> (b = 0 \<or> edges ! (b - 1) < ms) \<and> (ms \<le> edges ! b \<or> Suc b = length edges)"

lemma search_bucket:
  assumes "sorted edges" and "b < length edges"
  shows "min (search_floats edges ms 0 (length edges)) (length edges - 1) = b \<longleftrightarrow> in_bucket edges b ms"
proof -
  let ?i = "search_floats edges ms 0 (length edges)"
  have i: "?i \<le> length edges" "\<And>k. k < ?i \<Longrightarrow> edges ! k < ms" "\<And>k. ?i \<le> k \<Longrightarrow> k < length edges \<Longrightarrow> ms \<le> edges ! k"
    using search_floats_spec [OF assms(1), of "length edges" 0 ms] by auto
  show ?thesis
  proof
    assume b: "min ?i (length edges - 1) = b"
    show "in_bucket edges b ms"
      unfolding in_bucket_def
    proof (intro conjI)
      show "b = 0 \<or> edges ! (b - 1) < ms"
        using b i(2) [of "b - 1"] by (cases "b = 0") auto
      show "ms \<le> edges ! b \<or> Suc b = length edges"
        using b i(3) [of b] assms(2) by (cases "?i \<le> b") auto
    qed
  next
    assume "in_bucket edges b ms"
    then have lo: "b = 0 \<or> edges ! (b - 1) < ms" and hi: "ms \<le> edges ! b \<or> Suc b = length edges"
      by (auto simp: in_bucket_def)
    have "b \<le> ?i"
    proof (rule ccontr)
      assume "\<not> b \<le> ?i"
      then have "ms \<le> edges ! (b - 1)" using i(3) [of "b - 1"] assms(2) by simp
      with lo \<open>\<not> b \<le> ?i\<close> show False by auto
    qed
    moreover have "?i \<le> b \<or> Suc b = length edges"
      using hi i(2) [of b] by (meson not_le)
    ultimately show "min ?i (length edges - 1) = b"
      using i(1) assms(2) by auto
  qed
qed

lemma hist_loop_spec:
  assumes "sorted edges" and "edges \<noteq> []" and "length hist = length edges"
  shows "\<exists>h. hist_loop rnd edges ss hist = Inr h \<and> length h = length edges \<and>
    (\<forall>b < length edges. h ! b = hist ! b + length (filter (\<lambda>s. in_bucket edges b (millis rnd (s_Latency s))) (ok_samples ss)))"
  using assms(3)
proof (induction ss arbitrary: hist)
  case Nil
  then show ?case by (simp add: ok_samples_def)
next
  case (Cons s ss)
  show ?case
  proof (cases "s_Err s = ''''")
    case False
    with Cons show ?thesis by (simp add: ok_samples_def)
  next
    case True
    let ?ms = "millis rnd (s_Latency s)"
    define i where "i = min (search_floats edges ?ms 0 (length edges)) (length edges - 1)"
    have il: "i < length edges"
      using assms(2) by (simp add: i_def min_less_iff_disj)
    have ii: "min (int (search_floats edges ?ms 0 (length edges))) (int (length hist) - 1) = int i"
    proof -
      have "int (length hist) - 1 = int (length edges - 1)"
        using Cons.prems assms(2) by (simp add: of_nat_diff Suc_le_eq)
      then show ?thesis by (simp only: i_def of_nat_min)
    qed
    have b: "in_bucket edges b ?ms \<longleftrightarrow> b = i" if "b < length edges" for b
      using search_bucket [OF assms(1) that, of ?ms] unfolding i_def by blast
    obtain h where h: "hist_loop rnd edges ss (hist[i := hist ! i + 1]) = Inr h" "length h = length edges"
      "\<forall>b < length edges. h ! b = hist[i := hist ! i + 1] ! b +
         length (filter (\<lambda>s. in_bucket edges b (millis rnd (s_Latency s))) (ok_samples ss))"
      using Cons.IH [of "hist[i := hist ! i + 1]"] Cons.prems by auto
    have "hist_loop rnd edges (s # ss) hist = Inr h"
    proof -
      have "index_checked hist (int i) = Inr (hist ! i)"
        using il Cons.prems by (simp add: index_checked_def)
      then show ?thesis
        by (simp only: hist_loop.simps True Let_def ii gbind_simps nat_int h(1) simp_thms if_False)
    qed
    moreover have "h ! c = hist ! c + length (filter (\<lambda>s. in_bucket edges c (millis rnd (s_Latency s))) (ok_samples (s # ss)))"
      if "c < length edges" for c
      using h(3) b [OF that] that True Cons.prems il by (simp add: ok_samples_def nth_list_update)
    ultimately show ?thesis using h(2) by blast
  qed
qed

lemma stats_each_spec:
  "\<exists>res'. stats_each rnd m ks res = Inr res' \<and>
    (\<forall>k. if k \<in> set ks then \<exists>st. res' k = Some st \<and> stats rnd (m k) = Inr st else res' k = res k)"
proof (induction ks arbitrary: res)
  case (Cons k ks)
  obtain st where st: "stats rnd (m k) = Inr st"
    using stats_value by blast
  obtain res' where r: "stats_each rnd m ks (res(k \<mapsto> st)) = Inr res'"
    "\<forall>k'. if k' \<in> set ks then \<exists>st. res' k' = Some st \<and> stats rnd (m k') = Inr st else res' k' = (res(k \<mapsto> st)) k'"
    using Cons.IH [of "res(k \<mapsto> st)"] by blast
  have "if k' \<in> set (k # ks) then \<exists>st. res' k' = Some st \<and> stats rnd (m k') = Inr st else res' k' = res k'" for k'
    using spec [OF r(2), of k'] st by (auto split: if_splits)
  then show ?case using st r(1) by (intro exI [of _ res']) simp
qed simp

lemma by_seq_loop_total: "\<exists>ps. by_seq_loop rnd ss i = Inr ps"
proof (induction rnd ss i rule: by_seq_loop.induct)
  case (1 rnd ss i)
  obtain st where st: "stats rnd (by_key seq_group ss i) = Inr st"
    using stats_value by blast
  show ?case
  proof (cases "length (by_key seq_group ss i) < 5")
    case True
    then show ?thesis by (subst by_seq_loop.simps) simp
  next
    case False
    with 1 [OF False] obtain ps where "by_seq_loop rnd ss (i + 1) = Inr ps" by blast
    then show ?thesis using False st by (subst by_seq_loop.simps) simp
  qed
qed

subsection \<open>Properties\<close>

text \<open>
  \<open>pct\<close> is the nearest-rank percentile (in exact arithmetic): of \<open>n\<close> sorted values it returns one of them, at
  least \<open>q n\<close> values are not above it, and fewer than \<open>q n\<close> are below it.
\<close>

lemma pct_nearest_rank:
  assumes "xs \<noteq> []" and "0 < q" and "q \<le> 1"
  shows "\<exists>p. pct (\<lambda>x. x) (sort xs) q = Inr p \<and> p \<in> set xs \<and>
    q * of_nat (length xs) \<le> of_nat (length (filter (\<lambda>x. x \<le> p) xs)) \<and>
    of_nat (length (filter (\<lambda>x. x < p) xs)) < q * of_nat (length xs)"
proof -
  let ?n = "length xs" and ?s = "sort xs"
  define k where "k = pct_rank (\<lambda>x. x) ?n q"
  have n: "0 < ?n" using assms(1) by simp
  then have pos: "0 < q * rat_of_nat ?n" and le: "q * rat_of_nat ?n \<le> of_nat ?n"
    using assms(2,3) by (auto simp: mult_left_le_one_le)
  have c: "1 \<le> \<lceil>q * rat_of_nat ?n\<rceil>" "\<lceil>q * rat_of_nat ?n\<rceil> \<le> int ?n"
    using pos le by (auto simp: ceiling_le_iff)
  then have k: "int k + 1 = \<lceil>q * rat_of_nat ?n\<rceil>" "k < length ?s"
    using pct_rank_less [OF n, of "\<lambda>x. x" q] by (auto simp: k_def pct_rank_def)
  have up: "q * rat_of_nat ?n \<le> of_nat (Suc k)"
    using k(1) le_of_int_ceiling [of "q * rat_of_nat ?n"] by (metis of_int_of_nat_eq of_nat_Suc Suc_eq_plus1 of_nat_add of_nat_1)
  have dn: "rat_of_nat k < q * of_nat ?n"
  proof -
    have "rat_of_int (int k) < q * of_nat ?n"
      using k(1) by (metis less_add_one less_ceiling_iff)
    then show ?thesis by simp
  qed
  have cnt: "length (filter P ?s) = length (filter P xs)" for P
    by (metis length_sort filter_sort)
  have "pct (\<lambda>x. x) ?s q = Inr (?s ! k)"
  proof -
    have "?s \<noteq> []" using k(2) by (metis less_nat_zero_code list.size(3))
    from pct_rank_value [OF this, of "\<lambda>x. x" q] show ?thesis by (simp add: k_def)
  qed
  moreover have "?s ! k \<in> set xs"
    using k(2) by (metis nth_mem set_sort)
  moreover have "of_nat (Suc k) \<le> rat_of_nat (length (filter (\<lambda>x. x \<le> ?s ! k) xs))"
    using count_le_nth [OF sorted_sort k(2)] unfolding cnt by (simp only: of_nat_le_iff)
  moreover have "rat_of_nat (length (filter (\<lambda>x. x < ?s ! k) xs)) \<le> of_nat k"
    using count_less_nth [OF sorted_sort k(2)] unfolding cnt by (simp only: of_nat_le_iff)
  ultimately show ?thesis
    using up dn by (meson order_trans le_less_trans)
qed

text \<open>
  \<open>stats\<close> never panics and counts every sample once, as a success or an error; with any successful sample
  its percentiles are latencies that occurred and are ordered as they should be, up to the maximum, which no
  latency exceeds, for every monotone rounding.
\<close>

lemma stats_ordered:
  assumes "mono rnd" and "rnd 0 = 0"
  shows "\<exists>st. stats rnd ss = Inr st \<and> st_Count st = length ss \<and>
    st_Errors st + length (ok_samples ss) = length ss \<and>
    (ok_samples ss = [] \<or>
      st_P50 st \<le> st_P90 st \<and> st_P90 st \<le> st_P99 st \<and> st_P99 st \<le> st_P999 st \<and> st_P999 st \<le> st_Max st \<and>
      {st_P50 st, st_P90 st, st_P99 st, st_P999 st, st_Max st} \<subseteq> set (ok_latencies rnd ss) \<and>
      (\<forall>x \<in> set (ok_latencies rnd ss). x \<le> st_Max st))"
proof -
  let ?lat = "ok_latencies rnd ss"
  define at' where "at' = (\<lambda>q. ?lat ! pct_rank rnd (length ?lat) q)"
  obtain st where st: "stats rnd ss = Inr st" "st_Count st = length ss"
    "st_Errors st = length (filter (\<lambda>s. s_Err s \<noteq> '''') ss)"
    "ok_samples ss \<noteq> [] \<longrightarrow> st_P50 st = at' (50 / 100) \<and> st_P90 st = at' (90 / 100) \<and> st_P99 st = at' (99 / 100) \<and>
       st_P999 st = at' (999 / 1000) \<and> st_Max st = last ?lat"
    using stats_value [of rnd ss] unfolding at'_def Let_def by blast
  have e: "st_Errors st + length (ok_samples ss) = length ss"
    unfolding st(3) ok_samples_def using sum_length_filter_compl [of "\<lambda>s. s_Err s = ''''" ss] by simp
  have s: "sorted ?lat" by (simp add: ok_latencies_def)
  have r0: "0 \<le> rnd (of_nat n)" for n
    using monoD [OF assms(1), of 0 "of_nat n"] assms(2) by simp
  show ?thesis
  proof (cases "ok_samples ss = []")
    case True
    with st e show ?thesis by blast
  next
    case False
    then have l: "0 < length ?lat" by simp
    have m: "at' q \<in> set ?lat" "at' q \<le> last ?lat" for q
      using pct_rank_less [OF l] sorted_last_max [OF s] by (auto simp: at'_def)
    have o: "at' q \<le> at' q'" if "q \<le> q'" for q q'
      unfolding at'_def using s pct_rank_mono [OF assms(1) that r0] pct_rank_less [OF l] by (rule sorted_nth_mono)
    have "at' (50 / 100) \<le> at' (90 / 100)" "at' (90 / 100) \<le> at' (99 / 100)" "at' (99 / 100) \<le> at' (999 / 1000)"
      by (rule o; simp)+
    moreover have "last ?lat \<in> set ?lat"
      using l by (intro last_in_set) simp
    ultimately show ?thesis
      using st e False m sorted_last_max [OF s] by (intro exI [of _ st]) (simp add: m)
  qed
qed

lemma summarize_parts:
  assumes "hist_edges F = Some edges" and "sorted edges" and "edges \<noteq> []"
  obtains ps where "summarize F phase samples wall = Some (Inr ps)"
    "\<And>k. if k \<in> s_Kind ` set samples then \<exists>st. ps_Kinds ps k = Some st \<and> stats (fl_rnd F) (by_key kind_group samples k) = Inr st
       else ps_Kinds ps k = None"
    "\<And>t. if t \<in> s_Tier ` set (ok_samples samples)
       then \<exists>st. ps_Tiers ps t = Some st \<and> stats (fl_rnd F) (by_key tier_group samples t) = Inr st else ps_Tiers ps t = None"
    "length (ps_Histogram ps) = length edges"
    "\<And>b. b < length edges \<Longrightarrow> ps_Histogram ps ! b =
       length (filter (\<lambda>s. in_bucket edges b (millis (fl_rnd F) (s_Latency s))) (ok_samples samples))"
proof -
  let ?rnd = "fl_rnd F"
  let ?ks = "remdups (map s_Kind samples)" and ?ts = "remdups (map s_Tier (filter (\<lambda>s. s_Err s = '''') samples))"
  obtain all where all: "stats ?rnd samples = Inr all"
    using stats_value by blast
  obtain ks where ks: "stats_each ?rnd (by_key kind_group samples) ?ks (\<lambda>_. None) = Inr ks"
    "\<forall>k. if k \<in> set ?ks then \<exists>st. ks k = Some st \<and> stats ?rnd (by_key kind_group samples k) = Inr st else ks k = None"
    using stats_each_spec [of ?rnd "by_key kind_group samples" ?ks "\<lambda>_. None"] by auto
  obtain ts where ts: "stats_each ?rnd (by_key tier_group samples) ?ts (\<lambda>_. None) = Inr ts"
    "\<forall>k. if k \<in> set ?ts then \<exists>st. ts k = Some st \<and> stats ?rnd (by_key tier_group samples k) = Inr st else ts k = None"
    using stats_each_spec [of ?rnd "by_key tier_group samples" ?ts "\<lambda>_. None"] by auto
  obtain hist where hist: "hist_loop ?rnd edges samples (replicate (length edges) 0) = Inr hist" "length hist = length edges"
    "\<forall>b < length edges. hist ! b = replicate (length edges) 0 ! b +
       length (filter (\<lambda>s. in_bucket edges b (millis ?rnd (s_Latency s))) (ok_samples samples))"
    using hist_loop_spec [OF assms(2,3), of "replicate (length edges) 0" ?rnd samples] by auto
  obtain seqs where seqs: "by_seq_loop ?rnd samples 0 = Inr seqs"
    using by_seq_loop_total by blast
  obtain ps where ps: "summarize F phase samples wall = Some (Inr ps)" "ps_Kinds ps = ks" "ps_Tiers ps = ts"
    "ps_Histogram ps = hist"
    unfolding summarize_def Let_def assms(1) Option.bind.simps all gbind_simps ks(1) ts(1) hist(1) seqs by auto
  have k: "if k \<in> s_Kind ` set samples then \<exists>st. ps_Kinds ps k = Some st \<and> stats ?rnd (by_key kind_group samples k) = Inr st
      else ps_Kinds ps k = None" for k
    using spec [OF ks(2), of k] unfolding ps(2) by simp
  have t: "if t \<in> s_Tier ` set (ok_samples samples)
      then \<exists>st. ps_Tiers ps t = Some st \<and> stats ?rnd (by_key tier_group samples t) = Inr st else ps_Tiers ps t = None" for t
    using spec [OF ts(2), of t] unfolding ps(3) ok_samples_def by simp
  show thesis
    by (rule that [OF ps(1) k t]) (use hist in \<open>simp_all add: ps(4)\<close>)
qed

text \<open>
  C35: The summary of a phase accounts for every sample: it is produced without a panic; each kind that occurs
  has the statistics of exactly its samples, each tier those of its successful samples; and, over increasing
  edges, each bucket of the histogram counts exactly the successful samples whose latency falls into it (the
  last bucket takes everything above the last but one edge).
\<close>

theorem summary_consistent:
  assumes "hist_edges F = Some edges" and "sorted edges" and "edges \<noteq> []"
  shows "\<exists>ps. summarize F phase samples wall = Some (Inr ps) \<and>
    (\<forall>k. let ss = filter (\<lambda>s. s_Kind s = k) samples
         in if ss = [] then ps_Kinds ps k = None else \<exists>st. ps_Kinds ps k = Some st \<and> stats (fl_rnd F) ss = Inr st) \<and>
    (\<forall>t. let ss = filter (\<lambda>s. s_Err s = '''' \<and> s_Tier s = t) samples
         in if ss = [] then ps_Tiers ps t = None else \<exists>st. ps_Tiers ps t = Some st \<and> stats (fl_rnd F) ss = Inr st) \<and>
    length (ps_Histogram ps) = length edges \<and>
    (\<forall>b < length edges. ps_Histogram ps ! b =
       length (filter (\<lambda>s. in_bucket edges b (millis (fl_rnd F) (s_Latency s))) (ok_samples samples)))"
proof -
  have kg: "by_key kind_group samples k = filter (\<lambda>s. s_Kind s = k) samples" for k
    by (simp add: by_key_filter kind_group_def)
  have tg: "by_key tier_group samples t = filter (\<lambda>s. s_Err s = '''' \<and> s_Tier s = t) samples" for t
    unfolding by_key_filter tier_group_def by (rule filter_cong) auto
  obtain ps where ps: "summarize F phase samples wall = Some (Inr ps)"
    and k: "\<And>k. if k \<in> s_Kind ` set samples then \<exists>st. ps_Kinds ps k = Some st \<and> stats (fl_rnd F) (by_key kind_group samples k) = Inr st
       else ps_Kinds ps k = None"
    and t: "\<And>t. if t \<in> s_Tier ` set (ok_samples samples)
       then \<exists>st. ps_Tiers ps t = Some st \<and> stats (fl_rnd F) (by_key tier_group samples t) = Inr st else ps_Tiers ps t = None"
    and h: "length (ps_Histogram ps) = length edges"
      "\<And>b. b < length edges \<Longrightarrow> ps_Histogram ps ! b =
         length (filter (\<lambda>s. in_bucket edges b (millis (fl_rnd F) (s_Latency s))) (ok_samples samples))"
    by (rule summarize_parts [OF assms, of phase samples wall]) (rule that)
  have "let ss = filter (\<lambda>s. s_Kind s = k) samples
      in if ss = [] then ps_Kinds ps k = None else \<exists>st. ps_Kinds ps k = Some st \<and> stats (fl_rnd F) ss = Inr st" for k
    using k [of k] unfolding kg by (auto simp: Let_def filter_empty_conv split: if_splits)
  moreover have "let ss = filter (\<lambda>s. s_Err s = '''' \<and> s_Tier s = t) samples
      in if ss = [] then ps_Tiers ps t = None else \<exists>st. ps_Tiers ps t = Some st \<and> stats (fl_rnd F) ss = Inr st" for t
    using t [of t] unfolding tg by (auto simp: Let_def filter_empty_conv ok_samples_def split: if_splits)
  ultimately show ?thesis
    using ps h by blast
qed

text \<open>Edges at the powers of ten: a rounding and functions under which the loop over the edges ends.\<close>

definition demo_floats :: bench_floats where
  "demo_floats = \<lparr>fl_rnd = (\<lambda>x. x), fl_pow = (\<lambda>b e. e), fl_sqrt = (\<lambda>x. x), fl_log10 = (\<lambda>x. if x < 1 then 0 else 1 / 8)\<rparr>"

lemma demo_edges: "hist_edges demo_floats = Some [0, 1 / 8]"
  by (simp add: hist_edges_def demo_floats_def edge_loop.simps)

definition demo_sample :: sample where
  "demo_sample =
     \<lparr>s_Phase = ''direct'', s_Kind = ''video'', s_Object = ''v.mp4'', s_Offset = 0, s_Length = 3, s_Seq = 0, s_Tier = ''s3'',
      s_TTFB = 1000, s_Latency = 5000, s_StartedAt = 0, s_Err = ''''\<rparr>"

theorem summary_consistent_witness:
  "\<exists>ps. summarize demo_floats ''direct'' [demo_sample] 1 = Some (Inr ps) \<and> length (ps_Histogram ps) = 2 \<and>
    ps_Kinds ps ''video'' \<noteq> None \<and> ps_Kinds ps ''pdf'' = None \<and> ps_Tiers ps ''s3'' \<noteq> None"
proof -
  obtain ps where ps: "summarize demo_floats ''direct'' [demo_sample] 1 = Some (Inr ps)"
    "\<forall>k. let ss = filter (\<lambda>s. s_Kind s = k) [demo_sample]
       in if ss = [] then ps_Kinds ps k = None else \<exists>st. ps_Kinds ps k = Some st \<and> stats (fl_rnd demo_floats) ss = Inr st"
    "\<forall>t. let ss = filter (\<lambda>s. s_Err s = '''' \<and> s_Tier s = t) [demo_sample]
       in if ss = [] then ps_Tiers ps t = None else \<exists>st. ps_Tiers ps t = Some st \<and> stats (fl_rnd demo_floats) ss = Inr st"
    "length (ps_Histogram ps) = length [0 :: rat, 1 / 8]"
    using summary_consistent [OF demo_edges, of "''direct''" "[demo_sample]" 1] by auto
  then show ?thesis
    using spec [OF ps(2), of "''video''"] spec [OF ps(2), of "''pdf''"] spec [OF ps(3), of "''s3''"]
    by (intro exI [of _ ps]) (auto simp: demo_sample_def)
qed

end
