(* ===== verification/Bench_Phase.thy ===== *)
theory Bench_Phase
  imports Bench_Stats Range_Requests Step_Interface "HOL-Library.Multiset"
begin

section \<open>Replaying the workload\<close>

text \<open>
  \<^verbatim>\<open>runPhase\<close> and the two readers of \<^verbatim>\<open>cmd/bench/run.go\<close>. The HTTP and S3 exchanges are parameters; that of
  the proxy reader is then instantiated with the modelled proxy. A phase is a step function: the
  main function hands sessions to idle students over the unbuffered channel, a student reads a request and
  appends its sample under the lock, takes the next session, and leaves when the channel is closed.
\<close>

subsection \<open>Readers\<close>

type_synonym read_result = "string \<times> int \<times> int \<times> string option"

definition bench_range :: "int \<Rightarrow> int \<Rightarrow> string" where
  "bench_range off len = ''bytes='' @ show_int off @ ''-'' @ show_int (i64 (i64 (off + len) - 1))"

text \<open>What \<^verbatim>\<open>GetObject\<close> and copying its body give: the time to the answer, the bytes copied, an error.\<close>

definition s3_read ::
  "(string \<Rightarrow> string \<Rightarrow> string \<Rightarrow> string + int \<times> int \<times> string option) \<Rightarrow> string \<Rightarrow> string \<Rightarrow> int \<Rightarrow> int \<Rightarrow> read_result" where
  "s3_read getObject bucket key off len =
     (case getObject bucket key (bench_range off len) of
        Inl err \<Rightarrow> (''s3'', 0, 0, Some err)
      | Inr (ttfb, n, err) \<Rightarrow> (''s3'', ttfb, n, err))"

record http_reply =
  hr_status :: int
  hr_status_text :: string
  hr_tier :: string
  hr_copied :: int
  hr_copy_err :: "string option"
  hr_ttfb :: int

fun trim_right_slash :: "string \<Rightarrow> string" where
  "trim_right_slash s = (if s \<noteq> [] \<and> last s = CHR ''/'' then trim_right_slash (butlast s) else s)"

declare trim_right_slash.simps [simp del]

record proxyReader =
  pr_base :: string
  pr_timeout :: int
  pr_maxIdleConns :: int
  pr_maxIdleConnsPerHost :: int
  pr_disableCompression :: bool

definition newProxyReader :: "string \<Rightarrow> int \<Rightarrow> proxyReader" where
  "newProxyReader base concurrency =
     \<lparr>pr_base = trim_right_slash base, pr_timeout = 2 * 60 * Second, pr_maxIdleConns = i64 (concurrency * 2),
      pr_maxIdleConnsPerHost = i64 (concurrency * 2), pr_disableCompression = True\<rparr>"

text \<open>The exchange gets the URL and the \<open>Range\<close> header; \<open>Inl\<close> is a URL or transport error.\<close>

definition proxy_read ::
  "(string \<Rightarrow> string \<Rightarrow> string + http_reply) \<Rightarrow> proxyReader \<Rightarrow> string \<Rightarrow> int \<Rightarrow> int \<Rightarrow> read_result" where
  "proxy_read exchange p key off len =
     (case exchange (pr_base p @ ''/'' @ key) (bench_range off len) of
        Inl err \<Rightarrow> ('''', 0, 0, Some err)
      | Inr r \<Rightarrow>
          let tier = (if hr_tier r = '''' then ''proxy'' else hr_tier r)
          in if hr_status r \<noteq> 206 then (tier, hr_ttfb r, hr_copied r, Some (hr_status_text r))
             else (tier, hr_ttfb r, hr_copied r, hr_copy_err r))"

definition ping :: "(string \<Rightarrow> string \<Rightarrow> string + http_reply) \<Rightarrow> proxyReader \<Rightarrow> string \<Rightarrow> string option" where
  "ping exchange p key = (case proxy_read exchange p key 0 1 of (tier, ttfb, n, err) \<Rightarrow> err)"

subsection \<open>The phase\<close>

definition short_read :: "int \<Rightarrow> int \<Rightarrow> string" where
  "short_read n len = ''short read: got '' @ show_int n @ '' of '' @ show_int len @ '' bytes''"

definition make_sample :: "string \<Rightarrow> session \<Rightarrow> rangeReq \<Rightarrow> read_result \<Rightarrow> int \<Rightarrow> int \<Rightarrow> sample" where
  "make_sample phase sess rq res latency startedAt =
     (case res of (tier, ttfb, n, err) \<Rightarrow>
        let err' = (if err = None \<and> n \<noteq> rq_length rq then Some (short_read n (rq_length rq)) else err)
        in \<lparr>s_Phase = phase, s_Kind = sess_kind sess, s_Object = obj_key (sess_obj sess), s_Offset = rq_off rq,
            s_Length = n, s_Seq = rq_seq rq, s_Tier = tier, s_TTFB = ttfb, s_Latency = latency, s_StartedAt = startedAt,
            s_Err = (case err' of None \<Rightarrow> '''' | Some e \<Rightarrow> e)\<rparr>)"

record phase_state =
  ph_work :: "session list"
  ph_closed :: bool
  ph_idle :: nat
  ph_busy :: "(session \<times> rangeReq list) list"
  ph_gone :: nat
  ph_samples :: "sample list"
  ph_done :: nat

definition start_phase :: "int \<Rightarrow> session list \<Rightarrow> phase_state" where
  "start_phase students work =
     \<lparr>ph_work = work, ph_closed = False, ph_idle = nat students, ph_busy = [], ph_gone = 0, ph_samples = [], ph_done = 0\<rparr>"

datatype phase_event =
    EvHand
  | EvRead nat read_result int int
  | EvNext nat
  | EvClose
  | EvLeave

fun phase_step :: "string \<Rightarrow> phase_event \<Rightarrow> phase_state \<Rightarrow> phase_state option" where
  "phase_step phase EvHand s =
     (case ph_work s of
        sess # rest \<Rightarrow>
          if ph_idle s > 0
          then Some (s\<lparr>ph_work := rest, ph_idle := ph_idle s - 1, ph_busy := ph_busy s @ [(sess, sess_reqs sess)]\<rparr>)
          else None
      | [] \<Rightarrow> None)"
| "phase_step phase (EvRead i res latency startedAt) s =
     (if i < length (ph_busy s)
      then case ph_busy s ! i of
             (sess, rq # rqs) \<Rightarrow>
               Some (s\<lparr>ph_busy := (ph_busy s)[i := (sess, rqs)],
                       ph_samples := ph_samples s @ [make_sample phase sess rq res latency startedAt],
                       ph_done := ph_done s + 1\<rparr>)
           | (sess, []) \<Rightarrow> None
      else None)"
| "phase_step phase (EvNext i) s =
     (if i < length (ph_busy s) \<and> snd (ph_busy s ! i) = []
      then Some (s\<lparr>ph_busy := take i (ph_busy s) @ drop (Suc i) (ph_busy s), ph_idle := ph_idle s + 1\<rparr>)
      else None)"
| "phase_step phase EvClose s =
     (if ph_work s = [] \<and> \<not> ph_closed s then Some (s\<lparr>ph_closed := True\<rparr>) else None)"
| "phase_step phase EvLeave s =
     (if ph_closed s \<and> ph_idle s > 0 then Some (s\<lparr>ph_idle := ph_idle s - 1, ph_gone := ph_gone s + 1\<rparr>) else None)"

text \<open>\<^verbatim>\<open>wg.Wait()\<close> returns after the close when all students have left.\<close>

definition phase_finished :: "int \<Rightarrow> phase_state \<Rightarrow> bool" where
  "phase_finished students s \<longleftrightarrow> ph_closed s \<and> ph_gone s = nat students"

inductive phase_reach :: "string \<Rightarrow> int \<Rightarrow> session list \<Rightarrow> phase_state \<Rightarrow> bool" for phase students work where
  phase_start: "phase_reach phase students work (start_phase students work)"
| phase_more: "phase_reach phase students work s \<Longrightarrow> phase_step phase ev s = Some s' \<Longrightarrow> phase_reach phase students work s'"

subsection \<open>The invariant of a phase\<close>

text \<open>What identifies a request of the workload, and the request a sample is about.\<close>

definition req_tag :: "session \<Rightarrow> rangeReq \<Rightarrow> string \<times> string \<times> int \<times> int" where
  "req_tag sess rq = (sess_kind sess, obj_key (sess_obj sess), rq_off rq, rq_seq rq)"

definition sample_tag :: "sample \<Rightarrow> string \<times> string \<times> int \<times> int" where
  "sample_tag s = (s_Kind s, s_Object s, s_Offset s, s_Seq s)"

lemma make_sample_tag [simp]: "sample_tag (make_sample phase sess rq res l t) = req_tag sess rq"
  by (simp add: make_sample_def sample_tag_def req_tag_def Let_def split: prod.split)

definition tags_of :: "session \<times> rangeReq list \<Rightarrow> (string \<times> string \<times> int \<times> int) multiset" where
  "tags_of p = mset (map (req_tag (fst p)) (snd p))"

definition work_tags :: "session list \<Rightarrow> (string \<times> string \<times> int \<times> int) multiset" where
  "work_tags work = sum_list (map (\<lambda>s. tags_of (s, sess_reqs s)) work)"

definition phase_inv :: "int \<Rightarrow> session list \<Rightarrow> phase_state \<Rightarrow> bool" where
  "phase_inv students work s \<longleftrightarrow>
     ph_idle s + length (ph_busy s) + ph_gone s = nat students \<and>
     mset (map sample_tag (ph_samples s)) + sum_list (map tags_of (ph_busy s)) + work_tags (ph_work s) = work_tags work \<and>
     (ph_closed s \<longrightarrow> ph_work s = []) \<and> (0 < ph_gone s \<longrightarrow> ph_closed s) \<and> ph_done s = length (ph_samples s)"

lemma phase_step_cases:
  assumes "phase_step phase ev s = Some s'"
  obtains (hand) sess rest where "ph_work s = sess # rest" "ph_idle s > 0"
      "s' = s\<lparr>ph_work := rest, ph_idle := ph_idle s - 1, ph_busy := ph_busy s @ [(sess, sess_reqs sess)]\<rparr>"
    | (read) i sess rq rqs res l t where "i < length (ph_busy s)" "ph_busy s ! i = (sess, rq # rqs)"
      "s' = s\<lparr>ph_busy := (ph_busy s)[i := (sess, rqs)],
             ph_samples := ph_samples s @ [make_sample phase sess rq res l t], ph_done := ph_done s + 1\<rparr>"
    | (next_session) i sess where "i < length (ph_busy s)" "ph_busy s ! i = (sess, [])"
      "s' = s\<lparr>ph_busy := take i (ph_busy s) @ drop (Suc i) (ph_busy s), ph_idle := ph_idle s + 1\<rparr>"
    | (closing) "ph_work s = []" "\<not> ph_closed s" "s' = s\<lparr>ph_closed := True\<rparr>"
    | (leave) "ph_closed s" "ph_idle s > 0" "s' = s\<lparr>ph_idle := ph_idle s - 1, ph_gone := ph_gone s + 1\<rparr>"
proof (cases ev)
  case EvHand
  with assms hand show thesis by (auto split: list.splits if_splits)
next
  case (EvRead i res l t)
  with assms obtain sess rq rqs where "i < length (ph_busy s)" "ph_busy s ! i = (sess, rq # rqs)"
    "s' = s\<lparr>ph_busy := (ph_busy s)[i := (sess, rqs)],
       ph_samples := ph_samples s @ [make_sample phase sess rq res l t], ph_done := ph_done s + 1\<rparr>"
    by (auto split: list.splits if_splits prod.splits)
  then show thesis by (rule read)
next
  case (EvNext i)
  with assms next_session [of i "fst (ph_busy s ! i)"] show thesis
    by (auto split: if_splits) (metis prod.collapse)
next
  case EvClose
  with assms closing show thesis by (auto split: if_splits)
next
  case EvLeave
  with assms leave show thesis by (auto split: if_splits)
qed

lemma phase_inv_step:
  assumes "phase_step phase ev s = Some s'" and inv: "phase_inv students work s"
  shows "phase_inv students work s'"
  using assms(1)
proof (cases rule: phase_step_cases)
  case (hand sess rest)
  then show ?thesis
    using inv by (auto simp: phase_inv_def work_tags_def ac_simps)
next
  case (read i sess rq rqs res l t)
  have "sum_list (map tags_of (ph_busy s)) =
      add_mset (req_tag sess rq) (sum_list (map tags_of ((ph_busy s)[i := (sess, rqs)])))"
    using read(1,2) by (simp add: sum_list_take_nth_drop [OF read(1)] sum_list_update_eq tags_of_def)
  with read inv show ?thesis
    by (auto simp: phase_inv_def)
next
  case (next_session i sess)
  have "sum_list (map tags_of (ph_busy s)) = sum_list (map tags_of (take i (ph_busy s) @ drop (Suc i) (ph_busy s)))"
    using next_session(1,2) by (simp add: sum_list_take_nth_drop [OF next_session(1)] tags_of_def)
  with next_session inv show ?thesis
    by (auto simp: phase_inv_def)
next
  case closing
  with inv show ?thesis by (simp add: phase_inv_def)
next
  case leave
  with inv show ?thesis by (auto simp: phase_inv_def)
qed

lemma phase_reach_inv: "phase_reach phase students work s \<Longrightarrow> phase_inv students work s"
proof (induction rule: phase_reach.induct)
  case phase_start
  show ?case by (simp add: phase_inv_def start_phase_def)
next
  case (phase_more s ev s')
  then show ?case by (blast intro: phase_inv_step)
qed

text \<open>How far a phase is from its end.\<close>

definition phase_left :: "phase_state \<Rightarrow> nat" where
  "phase_left s =
     sum_list (map (\<lambda>x. 2 + length (sess_reqs x)) (ph_work s)) + sum_list (map (\<lambda>(x, rqs). 1 + length rqs) (ph_busy s)) +
     (if ph_closed s then 0 else 1) + ph_idle s + length (ph_busy s)"

lemma phase_step_left:
  assumes "phase_step phase ev s = Some s'"
  shows "phase_left s' < phase_left s"
  using assms
proof (cases rule: phase_step_cases)
  case (read i sess rq rqs res l t)
  have "sum_list (map (\<lambda>(x, rqs). 1 + length rqs) (ph_busy s)) =
      1 + sum_list (map (\<lambda>(x, rqs). 1 + length rqs) ((ph_busy s)[i := (sess, rqs)]))"
    using read(1,2) by (simp only: sum_list_take_nth_drop [OF read(1)] sum_list_update_eq) simp
  with read show ?thesis by (simp add: phase_left_def)
next
  case (next_session i sess)
  have "sum_list (map (\<lambda>(x, rqs). 1 + length rqs) (ph_busy s)) =
      1 + sum_list (map (\<lambda>(x, rqs). 1 + length rqs) (take i (ph_busy s) @ drop (Suc i) (ph_busy s)))"
    using next_session(1,2) by (simp only: sum_list_take_nth_drop [OF next_session(1)]) simp
  with next_session show ?thesis by (simp add: phase_left_def)
qed (auto simp: phase_left_def)

lemma phase_progress:
  assumes inv: "phase_inv students work s" and "0 < students" and "\<not> phase_finished students s"
  shows "\<exists>ev s'. phase_step phase ev s = Some s'"
proof (cases "ph_busy s")
  case (Cons p ps)
  show ?thesis
  proof (cases "snd p")
    case Nil
    with Cons have "phase_step phase (EvNext 0) s \<noteq> None" by simp
    then show ?thesis by blast
  next
    case (Cons rq rqs)
    with \<open>ph_busy s = p # ps\<close> have "phase_step phase (EvRead 0 res 0 0) s \<noteq> None" for res
      by (cases p) simp
    then show ?thesis by blast
  qed
next
  case Nil
  then have n: "ph_idle s + ph_gone s = nat students" using inv by (simp add: phase_inv_def)
  show ?thesis
  proof (cases "ph_closed s")
    case True
    then have "ph_idle s > 0" using assms(3) n by (auto simp: phase_finished_def)
    with True have "phase_step phase EvLeave s \<noteq> None" by simp
    then show ?thesis by blast
  next
    case False
    show ?thesis
    proof (cases "ph_work s")
      case Nil
      with False have "phase_step phase EvClose s \<noteq> None" by simp
      then show ?thesis by blast
    next
      case (Cons x xs)
      show ?thesis
      proof (cases "ph_idle s > 0")
        case True
        with Cons have "phase_step phase EvHand s \<noteq> None" by simp
        then show ?thesis by blast
      next
        case i: False
        then have "ph_gone s > 0" using n assms(2) by simp
        with inv False show ?thesis by (simp add: phase_inv_def)
      qed
    qed
  qed
qed

interpretation phase: bounded_steps "phase_step phase" "\<lambda>s. 0 < students \<and> phase_inv students work s" phase_left
  "phase_finished students" for phase students work
  using phase_inv_step phase_step_left phase_progress by unfold_locales blast+

subsection \<open>The benchmark's requests at the proxy\<close>

lemma bench_range_resolves:
  assumes "req_in 0 n rq" and "n < 2 ^ 63"
  shows "resolveByteRange (bench_range (rq_off rq) (rq_length rq)) n = (rq_off rq, rq_off rq + rq_length rq - 1, True)"
proof -
  let ?a = "rq_off rq" and ?b = "rq_off rq + rq_length rq - 1"
  have b: "0 \<le> ?a" "?a \<le> ?b" "?b < n"
    using assms(1) by (auto simp: req_in_def)
  then have "i64 (i64 (?a + rq_length rq) - 1) = ?b"
    using assms(2) by (simp add: i64_id)
  then have "bench_range ?a (rq_length rq) = render (Closed ?a ?b)"
    by (simp add: bench_range_def)
  with resolve_render [of "Closed ?a ?b" n] b assms(2) show ?thesis
    by simp
qed

text \<open>
  The proxy as the other end of the exchange: the request path is what follows the base URL, and the
  reply is what \<^verbatim>\<open>net/http\<close> makes of what the modelled handler writes: the status line, the tier header, and the
  body, whose copying fails if it is shorter than the announced length. A key with a character that ends or
  escapes a URL's path is not delivered as it is, since the reader does not escape it; the request
  below is that of a plain key.
\<close>

definition plain_key :: "string \<Rightarrow> bool" where
  "plain_key key \<longleftrightarrow>
     key \<noteq> '''' \<and> list_all (\<lambda>c. c \<notin> set ''?#%'' \<and> 32 \<le> (of_char c :: nat) \<and> (of_char c :: nat) \<noteq> 127) key"

definition status_text :: "int \<Rightarrow> string" where
  "status_text code =
     (if code = 200 then ''OK'' else if code = 206 then ''Partial Content'' else if code = 400 then ''Bad Request''
      else if code = 405 then ''Method Not Allowed'' else if code = 416 then ''Requested Range Not Satisfiable''
      else if code = 502 then ''Bad Gateway'' else ''status code '' @ show_int code)"

definition reply_of :: "int \<Rightarrow> response \<Rightarrow> http_reply" where
  "reply_of ttfb resp =
     (let code = (case status resp of None \<Rightarrow> 200 | Some c \<Rightarrow> c); n = int (length (body resp))
      in \<lparr>hr_status = code, hr_status_text = show_int code @ '' '' @ status_text code,
          hr_tier = (case headers resp TierHeader of None \<Rightarrow> '''' | Some t \<Rightarrow> t),
          hr_copied = n,
          hr_copy_err = (case headers resp ''Content-Length'' of
             None \<Rightarrow> None | Some l \<Rightarrow> if l = show_int n then None else Some ''unexpected EOF''),
          hr_ttfb = ttfb\<rparr>)"

definition proxy_exchange ::
  "(rat \<Rightarrow> rat) \<Rightarrow> string \<Rightarrow> request_env \<Rightarrow> int \<Rightarrow> world \<Rightarrow> string \<Rightarrow> string \<Rightarrow> string \<Rightarrow> string + http_reply" where
  "proxy_exchange rnd baseDir re ttfb w base url hdr =
     (case ServeHTTP rnd baseDir re \<lparr>Method = ''GET'', UrlPath = drop (length base) url, RangeHeader = hdr\<rparr> w of
        Inl panic \<Rightarrow> Inl ''EOF''
      | Inr (w', resp) \<Rightarrow> Inr (reply_of ttfb resp))"

definition bench_request :: "string \<Rightarrow> int \<Rightarrow> int \<Rightarrow> request" where
  "bench_request key off len = \<lparr>Method = ''GET'', UrlPath = ''/'' @ key, RangeHeader = bench_range off len\<rparr>"

lemma proxy_read_eq:
  "proxy_read (proxy_exchange rnd baseDir re ttfb w (pr_base p)) p key off len =
     (case ServeHTTP rnd baseDir re (bench_request key off len) w of
        Inl panic \<Rightarrow> ('''', 0, 0, Some ''EOF'')
      | Inr (w', resp) \<Rightarrow>
          let r = reply_of ttfb resp; tier = (if hr_tier r = '''' then ''proxy'' else hr_tier r)
          in if hr_status r \<noteq> 206 then (tier, hr_ttfb r, hr_copied r, Some (hr_status_text r))
             else (tier, hr_ttfb r, hr_copied r, hr_copy_err r))"
  by (cases "ServeHTTP rnd baseDir re (bench_request key off len) w")
    (auto simp: proxy_read_def proxy_exchange_def bench_request_def Let_def)
subsection \<open>Properties\<close>

text \<open>
  C31: A finished phase has measured the whole workload: whatever the interleaving of the students and whatever
  the reads return, when \<open>runPhase\<close> returns there is exactly one sample for every request of every session,
  labelled with that request's file, kind, offset and position.
\<close>

theorem phase_measures_every_request:
  assumes "phase_reach phase students work s" and "phase_finished students s"
  shows "mset (map sample_tag (ph_samples s)) = work_tags work \<and> ph_done s = length (ph_samples s)"
proof -
  have inv: "phase_inv students work s"
    by (rule phase_reach_inv [OF assms(1)])
  then have "ph_busy s = []"
    using assms(2) by (simp add: phase_inv_def phase_finished_def)
  with inv assms(2) show ?thesis
    by (auto simp: phase_inv_def phase_finished_def work_tags_def)
qed

lemma phase_run_reach:
  "phase_reach phase students work s \<Longrightarrow> run_steps (phase_step phase) evs s = Some s' \<Longrightarrow> phase_reach phase students work s'"
  by (rule run_steps_reach [of "phase_reach phase students work", OF phase_more])

definition demo_session :: session where
  "demo_session =
     \<lparr>sess_obj = \<lparr>obj_key = ''v.mp4'', obj_size = 5\<rparr>, sess_kind = ''video'',
      sess_reqs = [\<lparr>rq_off = 1, rq_length = 3, rq_seq = 0\<rparr>]\<rparr>"

definition demo_events :: "phase_event list" where
  "demo_events = [EvHand, EvRead 0 (''s3'', 1, 3, None) 2 0, EvNext 0, EvClose, EvLeave]"

lemma demo_phase_run:
  "\<exists>s. run_steps (phase_step ''direct'') demo_events (start_phase 1 [demo_session]) = Some s \<and> phase_finished 1 s \<and> length (ph_samples s) = 1"
  by (simp add: demo_events_def start_phase_def demo_session_def phase_finished_def)

theorem phase_measures_every_request_witness:
  "\<exists>s. phase_finished 1 s \<and> length (ph_samples s) = 1 \<and> mset (map sample_tag (ph_samples s)) = work_tags [demo_session]"
proof -
  obtain s where s: "run_steps (phase_step ''direct'') demo_events (start_phase 1 [demo_session]) = Some s" "phase_finished 1 s"
    "length (ph_samples s) = 1"
    using demo_phase_run by blast
  from phase_measures_every_request [OF phase_run_reach [OF phase_start s(1)] s(2)] s(2,3) show ?thesis by blast
qed

text \<open>
  C34: A phase always ends: no run takes more steps than what is left says, and with at least one student every reachable
  state can be run on to the end, so no interleaving blocks or runs forever. Without students
  (\<open>bench run -students 0\<close>) a phase with any session is blocked at once, with the main function waiting
  to hand over the first session.
\<close>

theorem phase_ends_iff_students:
  assumes "phase_reach phase students work s"
  shows "(0 < students \<longrightarrow> (\<exists>evs s'. run_steps (phase_step phase) evs s = Some s' \<and> phase_finished students s')) \<and>
    (\<forall>evs s'. run_steps (phase_step phase) evs s = Some s' \<longrightarrow> length evs \<le> phase_left s) \<and>
    (students \<le> 0 \<and> work \<noteq> [] \<longrightarrow> \<not> ph_closed s \<and> (\<forall>ev. phase_step phase ev s = None))"
proof (intro conjI impI)
  have inv: "phase_inv students work s"
    by (rule phase_reach_inv [OF assms])
  show "\<exists>evs s'. run_steps (phase_step phase) evs s = Some s' \<and> phase_finished students s'" if "0 < students"
    using phase.can_finish [of students work s] inv that by blast
  show "\<forall>evs s'. run_steps (phase_step phase) evs s = Some s' \<longrightarrow> length evs \<le> phase_left s"
    using phase.run_bounded by (meson add_leD1)
next
  assume *: "students \<le> 0 \<and> work \<noteq> []"
  have stuck: "phase_step phase ev (start_phase students work) = None" for ev
    using * by (cases ev) (auto simp: start_phase_def split: list.split)
  have e: "s = start_phase students work"
    using assms by (induction rule: phase_reach.induct) (simp_all add: stuck)
  show "\<forall>ev. phase_step phase ev s = None"
    unfolding e using stuck by simp
  show "\<not> ph_closed s"
    unfolding e by (simp add: start_phase_def)
qed

theorem phase_ends_iff_students_witness:
  "(\<exists>evs s'. run_steps (phase_step ''direct'') evs (start_phase 2 [demo_session]) = Some s' \<and> phase_finished 2 s') \<and>
    phase_step ''direct'' EvHand (start_phase 0 [demo_session]) = None \<and> \<not> ph_closed (start_phase 0 [demo_session])"
  using phase_ends_iff_students [OF phase_start [of "''direct''" 0 "[demo_session]"]]
    phase_ends_iff_students [OF phase_start [of "''direct''" 2 "[demo_session]"]]
  by (simp del: phase_step.simps)

text \<open>
  An environment in which nothing fails: the size lookup answers, no fetch of a chunk is cancelled or fails, and the
  client reads the whole body.
\<close>

definition reliable :: "(string \<Rightarrow> bytes option) \<Rightarrow> string \<Rightarrow> string \<Rightarrow> request_env \<Rightarrow> string \<Rightarrow> bool" where
  "reliable store bucket baseDir re key \<longleftrightarrow>
     range_env_safe store bucket baseDir re key \<and> (\<forall>i. chunk_reliable store bucket (re_chunk re i)) \<and>
     (\<exists>n. re_head re bucket key = Inr n) \<and> re_accepts re = None"

text \<open>
  The benchmark and the proxy fit together: every request a session may make of a file (inside it, of
  positive length), sent by the proxy reader to the modelled proxy in any coherent state with the file in the
  store and in a reliable environment, is answered with exactly the bytes asked for. In any environment an error of
  the reader has a text, so that a sample without an error text has the length that was asked for.
\<close>

lemma bench_reads_succeed_at_proxy:
  assumes "no_collisions store" and "world_ok store bucket baseDir w" and "store key = Some obj" and "key \<noteq> ''''"
    and "reliable store bucket baseDir re key" and "int (length obj) < 2 ^ 63" and "req_in 0 (int (length obj)) rq"
  shows "\<exists>w' resp tier. ServeHTTP rnd baseDir re (bench_request key (rq_off rq) (rq_length rq)) w = Inr (w', resp) \<and>
    world_ok store bucket baseDir w' \<and>
    proxy_read (proxy_exchange rnd baseDir re ttfb w (pr_base p)) p key (rq_off rq) (rq_length rq) =
      (tier, ttfb, rq_length rq, None)"
proof -
  let ?hdr = "bench_range (rq_off rq) (rq_length rq)"
  let ?rq = "bench_request key (rq_off rq) (rq_length rq)"
  have re: "range_env_safe store bucket baseDir re key" "\<forall>i. chunk_reliable store bucket (re_chunk re i)"
    "\<exists>n. re_head re bucket key = Inr n"
    "re_accepts re = None"
    using assms(5) by (simp_all add: reliable_def)
  have k: "request_key ?rq = key" "RangeHeader ?rq = ?hdr" "Method ?rq = ''GET''"
    by (simp_all add: bench_request_def request_key_def trim_prefix_def has_prefix_def)
  have h: "?hdr \<noteq> ''''"
    by (simp add: bench_range_def)
  have "serving_safe store bucket baseDir re ?rq w obj"
    using assms(1-4,6) re(1) h unfolding serving_safe_def k by simp
  moreover have "resolveByteRange (RangeHeader ?rq) (int (length obj)) = (rq_off rq, rq_off rq + rq_length rq - 1, True)"
    using bench_range_resolves [OF assms(7,6)] k(2) by simp
  ultimately obtain w' resp where r: "ServeHTTP rnd baseDir re ?rq w = Inr (w', resp)" "world_ok store bucket baseDir w'"
    "status resp = Some 206" "body resp = subslice obj (nat (rq_off rq)) (Suc (nat (rq_off rq + rq_length rq - 1)))"
    "headers resp ''Content-Length'' = Some (show_int (int (length (body resp))))"
    using serve_get_exact [of store bucket baseDir re ?rq w obj "rq_off rq" "rq_off rq + rq_length rq - 1" rnd] re(2-4)
    unfolding k by auto
  have "int (length (body resp)) = rq_length rq"
    unfolding r(4) using assms(7) by (subst length_subslice) (auto simp: req_in_def)
  then have "proxy_read (proxy_exchange rnd baseDir re ttfb w (pr_base p)) p key (rq_off rq) (rq_length rq) =
      ((if hr_tier (reply_of ttfb resp) = '''' then ''proxy'' else hr_tier (reply_of ttfb resp)), ttfb, rq_length rq, None)"
    using r(1,3,5) by (simp add: proxy_read_eq reply_of_def Let_def)
  with r(1,2) show ?thesis by blast
qed

lemma proxy_error_text:
  assumes "proxy_read (proxy_exchange rnd baseDir re ttfb w (pr_base p)) p key off len = (tier, t, n, Some e)"
  shows "e \<noteq> ''''"
  using assms
  by (auto simp: proxy_read_eq reply_of_def Let_def split: sum.splits prod.splits if_splits option.splits)

lemma make_sample_complete:
  assumes "s_Err (make_sample phase sess rq (tier, t, n, err) l st) = ''''" and "err \<noteq> Some ''''"
  shows "s_Length (make_sample phase sess rq (tier, t, n, err) l st) = rq_length rq"
  using assms by (auto simp: make_sample_def short_read_def Let_def split: if_splits option.splits)

end
