(* ===== verification/Bench_Print.thy ===== *)
theory Bench_Print
  imports Bench_Phase
begin

section \<open>What the benchmark prints\<close>

text \<open>
  \<^verbatim>\<open>printPhase\<close> and the progress line of \<^verbatim>\<open>runPhase\<close> in \<^verbatim>\<open>cmd/bench/run.go\<close>, as the rows and numbers printed; the
  formatting of \<^verbatim>\<open>fmt\<close> is left out. The order in which the map of kinds is ranged over, and the unstable
  \<^verbatim>\<open>sort.Slice\<close>, are parameters.
\<close>

subsection \<open>The table of a phase\<close>

definition print_row :: "string \<Rightarrow> Stats \<Rightarrow> (string \<times> Stats) list" where
  "print_row name s = (if st_Count s = 0 then [] else [(name, s)])"

definition stats_at :: "(string \<Rightarrow> Stats option) \<Rightarrow> string \<Rightarrow> Stats" where
  "stats_at m k = (case m k of None \<Rightarrow> no_stats | Some s \<Rightarrow> s)"

definition printed_tiers :: "string list" where
  "printed_tiers = [''hot'', ''cold'', ''inflight'', ''backend'', ''proxy'', ''s3'']"

definition printPhase ::
  "((string \<Rightarrow> int) \<Rightarrow> string list \<Rightarrow> string list) \<Rightarrow> string list \<Rightarrow> PhaseSummary \<Rightarrow> (string \<times> Stats) list" where
  "printPhase sort_slice kinds ps =
     print_row ''all'' (ps_All ps) @
     concat (map (\<lambda>k. print_row k (stats_at (ps_Kinds ps) k)) (sort_slice kindOrder kinds)) @
     concat (map (\<lambda>t. print_row (''tier:'' @ t) (stats_at (ps_Tiers ps) t)) printed_tiers)"

text \<open>\<^verbatim>\<open>sort.Slice\<close> permutes its slice into an order; equal elements may come in any order.\<close>

definition sorts_slices :: "((string \<Rightarrow> int) \<Rightarrow> string list \<Rightarrow> string list) \<Rightarrow> bool" where
  "sorts_slices sort_slice \<longleftrightarrow> (\<forall>f xs. mset (sort_slice f xs) = mset xs \<and> sorted (map f (sort_slice f xs)))"

definition kinds_in_order :: "string list" where
  "kinds_in_order = [''video'', ''pdf'', ''slides'', ''dataset'', ''other'']"

lemma kindOrder_values: "map kindOrder kinds_in_order = [0, 6, 10, 17, 25]"
  by code_simp

lemma kinds_in_order_set: "set kinds_in_order = set all_kinds" "distinct kinds_in_order"
  by (auto simp: kinds_in_order_def all_kinds_def)

lemma kindOrder_inj: "inj_on kindOrder (set kinds_in_order)"
  by (rule eq_card_imp_inj_on) (simp_all add: kindOrder_values flip: set_map, simp add: kinds_in_order_def)

text \<open>The kinds come in one order whatever the map's.\<close>

lemma sorted_kinds:
  assumes "sorts_slices sort_slice" and "distinct kinds" and "set kinds \<subseteq> set all_kinds"
  shows "sort_slice kindOrder kinds = filter (\<lambda>k. k \<in> set kinds) kinds_in_order"
proof (rule map_sorted_distinct_set_unique [of kindOrder])
  let ?xs = "sort_slice kindOrder kinds" and ?ys = "filter (\<lambda>k. k \<in> set kinds) kinds_in_order"
  have m: "mset ?xs = mset kinds" and s: "sorted (map kindOrder ?xs)"
    using assms(1) by (auto simp: sorts_slices_def)
  then have st: "set ?xs = set kinds" "distinct ?xs"
    using assms(2) mset_eq_setD mset_eq_imp_distinct_iff by blast+
  have sub: "set kinds \<subseteq> set kinds_in_order"
    using assms(3) by (simp add: kinds_in_order_set)
  show "inj_on kindOrder (set ?xs \<union> set ?ys)"
    using kindOrder_inj sub st(1) by (auto intro: inj_on_subset)
  show "sorted (map kindOrder ?xs)" by (rule s)
  show "distinct (map kindOrder ?xs)"
    using st sub kindOrder_inj by (auto simp: distinct_map intro: inj_on_subset)
  have "sorted (map kindOrder kinds_in_order)"
    by (simp add: kindOrder_values)
  then show "sorted (map kindOrder ?ys)" by (rule sorted_filter)
  show "distinct (map kindOrder ?ys)"
    using kindOrder_inj kinds_in_order_set(2) by (auto simp: distinct_map intro: inj_on_subset)
  show "set ?xs = set ?ys"
    using st(1) sub by auto
qed

lemma count_groups:
  assumes "distinct ks" and "\<forall>s \<in> set ss. f s \<in> set ks"
  shows "sum_list (map (\<lambda>k. length (filter (\<lambda>s. f s = k) ss)) ks) = length ss"
  using assms(2)
proof (induction ss)
  case (Cons s ss)
  have "sum_list (map (\<lambda>k. length (filter (\<lambda>s. f s = k) (s # ss))) ks) =
      sum_list (map (\<lambda>k. (if k = f s then 1 else 0) + length (filter (\<lambda>s. f s = k) ss)) ks)"
    by (intro arg_cong [where f = sum_list] map_cong) auto
  also have "\<dots> = sum_list (map (\<lambda>k. if k = f s then 1 else 0) ks) + length ss"
    using Cons by (simp add: sum_list_addf)
  also have "sum_list (map (\<lambda>k. if k = f s then 1 else 0) ks) = (1 :: nat)"
    using assms(1) Cons.prems by (simp add: sum_list_distinct_conv_sum_set)
  finally show ?case by simp
qed simp

lemma print_rows_names:
  "map fst (concat (map (\<lambda>k. print_row (g k) (stats_at m k)) ks)) = map g (filter (\<lambda>k. st_Count (stats_at m k) \<noteq> 0) ks)"
  by (induction ks) (auto simp: print_row_def)

lemma print_rows_counts:
  "sum_list (map (\<lambda>(n, s). st_Count s) (concat (map (\<lambda>k. print_row (g k) (stats_at m k)) ks))) =
     sum_list (map (\<lambda>k. st_Count (stats_at m k)) ks)"
  by (induction ks) (auto simp: print_row_def)

lemma stats_count: "stats rnd ss = Inr st \<Longrightarrow> st_Count st = length ss"
  using stats_value [of rnd ss] by auto

lemma stats_at_group:
  assumes "if k \<in> f ` set ss then \<exists>st. m k = Some st \<and> stats rnd (filter (\<lambda>s. f s = k) ss) = Inr st else m k = None"
  shows "st_Count (stats_at m k) = length (filter (\<lambda>s. f s = k) ss)"
  using assms by (auto simp: stats_at_def no_stats_def filter_empty_conv stats_count split: if_splits)

subsection \<open>The progress line\<close>

definition phase_total :: "session list \<Rightarrow> int" where
  "phase_total work = foldl (\<lambda>a s. i64 (a + int (length (sess_reqs s)))) 0 work"

text \<open>A tick prints the requests done, their total and the percentage (none of a total of zero, which Go prints as NaN).\<close>

definition progress_line :: "(rat \<Rightarrow> rat) \<Rightarrow> session list \<Rightarrow> phase_state \<Rightarrow> int \<times> int \<times> rat option" where
  "progress_line rnd work s =
     (let d = int (ph_done s); n = phase_total work
      in (d, n, if n = 0 then None else Some (rnd (rnd (100 * rnd (of_int d)) / rnd (of_int n)))))"

lemma phase_total_size: "phase_total work = i64 (int (size (work_tags work)))"
proof -
  have "i64 a = a \<Longrightarrow> foldl (\<lambda>a s. i64 (a + int (length (sess_reqs s)))) a work = i64 (a + int (size (work_tags work)))" for a
    by (induction work arbitrary: a) (simp_all add: work_tags_def tags_of_def ac_simps)
  from this [of 0] show ?thesis
    by (simp add: phase_total_def)
qed

text \<open>The line never shows more done than there is, and at the end of the phase it shows all of it.\<close>

lemma progress_bounded:
  assumes "phase_reach phase students work s" and "int (size (work_tags work)) < 2 ^ 63"
  shows "\<exists>d n p. progress_line rnd work s = (d, n, p) \<and> 0 \<le> d \<and> d \<le> n \<and> (phase_finished students s \<longrightarrow> d = n)"
proof -
  have inv: "phase_inv students work s"
    by (rule phase_reach_inv [OF assms(1)])
  then have "size (mset (map sample_tag (ph_samples s)) + sum_list (map tags_of (ph_busy s)) + work_tags (ph_work s)) =
      size (work_tags work)" and d: "ph_done s = length (ph_samples s)"
    by (simp_all add: phase_inv_def)
  moreover have "ph_busy s = [] \<and> ph_work s = []" if "phase_finished students s"
    using inv that by (auto simp: phase_inv_def phase_finished_def)
  ultimately show ?thesis
    using assms(2) by (auto simp: progress_line_def Let_def phase_total_size i64_id work_tags_def)
qed

text \<open>
  The table accounts for every request: the row of all samples, then one row per kind that occurs, in a fixed
  order whatever the order of the map, then one per tier that occurs; the kinds' counts add up to that of all, the
  tiers' counts and the errors too.
\<close>

lemma print_phase_table:
  assumes "sorts_slices sort_slice" and "hist_edges F = Some edges" and "sorted edges" and "edges \<noteq> []"
    and "summarize F phase samples wall = Some (Inr ps)" and "distinct kinds" and "set kinds = dom (ps_Kinds ps)"
    and "\<forall>s \<in> set samples. s_Kind s \<in> set all_kinds \<and> (s_Err s = '''' \<longrightarrow> s_Tier s \<in> set printed_tiers)"
  shows "\<exists>ks ts. printPhase sort_slice kinds ps = print_row ''all'' (ps_All ps) @ ks @ ts \<and>
    map fst ks = filter (\<lambda>k. k \<in> s_Kind ` set samples) kinds_in_order \<and>
    map fst ts = map (\<lambda>t. ''tier:'' @ t) (filter (\<lambda>t. t \<in> s_Tier ` set (ok_samples samples)) printed_tiers) \<and>
    sum_list (map (\<lambda>(n, s). st_Count s) ks) = length samples \<and>
    sum_list (map (\<lambda>(n, s). st_Count s) ts) = length (ok_samples samples)"
proof -
  obtain ps' where ps': "summarize F phase samples wall = Some (Inr ps')"
    and k: "\<And>k. if k \<in> s_Kind ` set samples then \<exists>st. ps_Kinds ps' k = Some st \<and> stats (fl_rnd F) (by_key kind_group samples k) = Inr st
       else ps_Kinds ps' k = None"
    and t: "\<And>t. if t \<in> s_Tier ` set (ok_samples samples)
       then \<exists>st. ps_Tiers ps' t = Some st \<and> stats (fl_rnd F) (by_key tier_group samples t) = Inr st else ps_Tiers ps' t = None"
    by (rule summarize_parts [OF assms(2-4), of phase samples wall]) (rule that)
  have eq: "ps' = ps" using ps' assms(5) by simp
  note k = k [unfolded eq] and t = t [unfolded eq]
  have kg: "by_key kind_group samples k = filter (\<lambda>s. s_Kind s = k) samples" for k
    by (simp add: by_key_filter kind_group_def)
  have tg: "by_key tier_group samples t = filter (\<lambda>s. s_Tier s = t) (ok_samples samples)" for t
    unfolding by_key_filter tier_group_def ok_samples_def filter_filter by (rule filter_cong) auto
  have kc: "st_Count (stats_at (ps_Kinds ps) q) = length (filter (\<lambda>s. s_Kind s = q) samples)" for q
    using k [of q] unfolding kg by (intro stats_at_group [where rnd = "fl_rnd F"]) simp
  have tc: "st_Count (stats_at (ps_Tiers ps) q) = length (filter (\<lambda>s. s_Tier s = q) (ok_samples samples))" for q
    using t [of q] unfolding tg by (intro stats_at_group [where rnd = "fl_rnd F"]) simp
  have "q \<in> dom (ps_Kinds ps) \<longleftrightarrow> q \<in> s_Kind ` set samples" for q
    using k [of q] by (cases "q \<in> s_Kind ` set samples") (simp_all add: domIff, blast)
  then have dk: "set kinds = s_Kind ` set samples"
    using assms(7) by blast
  have order: "sort_slice kindOrder kinds = filter (\<lambda>k. k \<in> s_Kind ` set samples) kinds_in_order"
    using sorted_kinds [OF assms(1,6)] assms(8) by (auto simp: dk)
  let ?ks = "concat (map (\<lambda>k. print_row k (stats_at (ps_Kinds ps) k)) (filter (\<lambda>k. k \<in> s_Kind ` set samples) kinds_in_order))"
  let ?ts = "concat (map (\<lambda>t. print_row (''tier:'' @ t) (stats_at (ps_Tiers ps) t)) printed_tiers)"
  have "map fst ?ks = filter (\<lambda>k. k \<in> s_Kind ` set samples) kinds_in_order"
    using print_rows_names [of "\<lambda>k. k" "ps_Kinds ps"] by (auto simp: kc filter_empty_conv intro!: filter_cong)
  moreover have "map fst ?ts = map (\<lambda>t. ''tier:'' @ t) (filter (\<lambda>t. t \<in> s_Tier ` set (ok_samples samples)) printed_tiers)"
    unfolding print_rows_names by (auto simp: tc filter_empty_conv intro!: arg_cong [where f = "map _"] filter_cong)
  moreover have "sum_list (map (\<lambda>(n, s). st_Count s) ?ks) = length samples"
    unfolding print_rows_counts kc
    by (rule count_groups) (use assms(8) in \<open>auto simp: kinds_in_order_set\<close>)
  moreover have "sum_list (map (\<lambda>(n, s). st_Count s) ?ts) = length (ok_samples samples)"
    unfolding print_rows_counts tc
    by (rule count_groups) (use assms(8) in \<open>auto simp: ok_samples_def printed_tiers_def\<close>)
  ultimately show ?thesis
    unfolding printPhase_def order by blast
qed

end
