(* ===== verification/Synth_File.thy ===== *)
theory Synth_File
  imports Portal_Files Backend
begin

section \<open>The synthetic course file\<close>

text \<open>
  \<^verbatim>\<open>synthFile\<close> of \<^verbatim>\<open>cmd/bench/edu.go\<close>: a seekable stream of pseudo-random bytes with a format header,
  which the S3 client uploads. \<open>Read\<close> gets the caller's buffer and returns its new contents.
  The main theorem: however the stream is read and rewound, every byte depends on its position alone.
\<close>

record synthFile =
  sf_seed :: u64
  sf_size :: int
  sf_pos :: int
  sf_header :: bytes

definition synth_hash :: "u64 \<Rightarrow> string \<Rightarrow> u64" where
  "synth_hash h key = foldl (\<lambda>h c. (h XOR of_nat (of_char c)) * 1099511628211) h key"

definition synth_header :: "string \<Rightarrow> bytes" where
  "synth_header k =
     (if k = ''video''
      then [0, 0, 0, 0x20] @ bytes_of ''ftypisom'' @ [0, 0, 2, 0] @ bytes_of ''isomiso2avc1mp41''
      else if k = ''pdf'' then bytes_of ''%PDF-1.7'' @ [10] @ bytes_of ''%'' @ [0xe2, 0xe3, 0xcf, 0xd3, 10]
      else if k = ''slides'' \<or> k = ''dataset'' then bytes_of ''PK'' @ [3, 4]
      else [])"

definition newSynthFile :: "string \<Rightarrow> int \<Rightarrow> synthFile" where
  "newSynthFile key sz =
     \<lparr>sf_seed = synth_hash 14695981039346656037 key, sf_size = sz, sf_pos = 0, sf_header = synth_header (kind key)\<rparr>"

definition splitmix :: "u64 \<Rightarrow> u64" where
  "splitmix x0 =
     (let x1 = x0 + 0x9e3779b97f4a7c15;
          x2 = (x1 XOR drop_bit 30 x1) * 0xbf58476d1ce4e5b9;
          x3 = (x2 XOR drop_bit 27 x2) * 0x94d049bb133111eb
      in x3 XOR drop_bit 31 x3)"

text \<open>One turn of the loop of \<^verbatim>\<open>Read\<close>: the byte at offset \<open>off\<close>.\<close>

definition synth_byte :: "u64 \<Rightarrow> bytes \<Rightarrow> int \<Rightarrow> byte" where
  "synth_byte seed header off =
     (if off < int (length header) then header ! nat off
      else ucast (drop_bit (nat (8 * (off AND 7))) (splitmix (seed XOR uint64_of (drop_bit 3 off)))))"

definition synth_read :: "synthFile \<Rightarrow> bytes \<Rightarrow> synthFile \<times> bytes \<times> int \<times> io_error option" where
  "synth_read s buf =
     (if sf_pos s \<ge> sf_size s then (s, buf, 0, Some EOF)
      else let rem = sf_size s - sf_pos s;
               n = (if int (length buf) > rem then nat rem else length buf);
               filled = map (\<lambda>i. synth_byte (sf_seed s) (sf_header s) (sf_pos s + int i)) [0 ..< n]
           in (s\<lparr>sf_pos := sf_pos s + int n\<rparr>, filled @ drop n buf, int n, None))"

definition synth_seek :: "synthFile \<Rightarrow> int \<Rightarrow> int \<Rightarrow> synthFile \<times> (string + int)" where
  "synth_seek s offset whence =
     (let abs = (if whence = 0 then offset else if whence = 1 then i64 (sf_pos s + offset)
                 else if whence = 2 then i64 (sf_size s + offset) else 0)
      in if abs < 0 then (s, Inl ''synthFile: negative position'') else (s\<lparr>sf_pos := abs\<rparr>, Inr abs))"

subsection \<open>The contents\<close>

text \<open>The bytes of the file: a function of its seed, header and size.\<close>

definition synth_contents :: "synthFile \<Rightarrow> bytes" where
  "synth_contents s = map (\<lambda>i. synth_byte (sf_seed s) (sf_header s) (int i)) [0 ..< nat (sf_size s)]"

lemma length_synth_contents [simp]: "length (synth_contents s) = nat (sf_size s)"
  by (simp add: synth_contents_def)

lemma synth_contents_pos [simp]: "synth_contents (s\<lparr>sf_pos := p\<rparr>) = synth_contents s"
  by (simp add: synth_contents_def)

text \<open>What a read delivers, in terms of the contents.\<close>

definition synth_chunk :: "synthFile \<Rightarrow> nat \<Rightarrow> bytes" where
  "synth_chunk s n = take n (drop (nat (sf_pos s)) (synth_contents s))"

lemma synth_read_contents:
  assumes "0 \<le> sf_pos s"
  shows "synth_read s buf =
    (s\<lparr>sf_pos := sf_pos s + int (length (synth_chunk s (length buf)))\<rparr>,
     synth_chunk s (length buf) @ drop (length (synth_chunk s (length buf))) buf,
     int (length (synth_chunk s (length buf))), if sf_pos s \<ge> sf_size s then Some EOF else None)"
proof (cases "sf_pos s \<ge> sf_size s")
  case True
  then have "synth_chunk s (length buf) = []"
    by (simp add: synth_chunk_def nat_mono)
  with True show ?thesis by (simp add: synth_read_def)
next
  case False
  define n where "n = (if int (length buf) > sf_size s - sf_pos s then nat (sf_size s - sf_pos s) else length buf)"
  have n: "nat (sf_pos s) + n \<le> nat (sf_size s)" "n \<le> length buf" "n = min (length buf) (nat (sf_size s) - nat (sf_pos s))"
    using False assms by (auto simp: n_def min_def split: if_splits)
  have chunk: "synth_chunk s (length buf) =
      map (\<lambda>i. synth_byte (sf_seed s) (sf_header s) (sf_pos s + int i)) [0 ..< n]"
  proof (rule nth_equalityI)
    show l: "length (synth_chunk s (length buf)) =
        length (map (\<lambda>i. synth_byte (sf_seed s) (sf_header s) (sf_pos s + int i)) [0 ..< n])"
      using n(3) by (simp add: synth_chunk_def min.commute)
    fix i assume "i < length (synth_chunk s (length buf))"
    then have "i < n" using l by simp
    moreover from this have "nat (sf_pos s) + i < nat (sf_size s)" using n(1) by simp
    ultimately show "synth_chunk s (length buf) ! i =
        map (\<lambda>i. synth_byte (sf_seed s) (sf_header s) (sf_pos s + int i)) [0 ..< n] ! i"
      using n assms by (simp add: synth_chunk_def synth_contents_def)
  qed
  show ?thesis
    using False by (simp add: synth_read_def Let_def chunk flip: n_def)
qed

subsection \<open>Histories\<close>

datatype synth_op = OpRead bytes | OpSeek int int

text \<open>The positions and the bytes that the reads of a history deliver.\<close>

fun synth_run :: "synth_op list \<Rightarrow> synthFile \<Rightarrow> (int \<times> bytes) list \<times> synthFile" where
  "synth_run [] s = ([], s)"
| "synth_run (OpRead buf # ops) s =
     (case synth_read s buf of (s1, buf1, n, err) \<Rightarrow>
        case synth_run ops s1 of (out, s2) \<Rightarrow> ((sf_pos s, take (nat n) buf1) # out, s2))"
| "synth_run (OpSeek off whence # ops) s = synth_run ops (fst (synth_seek s off whence))"

text \<open>The file after a read of a buffer of \<open>n\<close> bytes.\<close>

definition synth_next :: "synthFile \<Rightarrow> nat \<Rightarrow> synthFile" where
  "synth_next s n = s\<lparr>sf_pos := sf_pos s + int (length (synth_chunk s n))\<rparr>"

lemma synth_next_facts [simp]:
  "synth_contents (synth_next s n) = synth_contents s" "sf_size (synth_next s n) = sf_size s"
  "sf_pos (synth_next s n) = sf_pos s + int (length (synth_chunk s n))"
  by (simp_all add: synth_next_def)

lemma synth_run_read:
  assumes "0 \<le> sf_pos s"
  shows "synth_run (OpRead buf # ops) s =
    ((sf_pos s, synth_chunk s (length buf)) # fst (synth_run ops (synth_next s (length buf))),
     snd (synth_run ops (synth_next s (length buf))))"
  using synth_read_contents [OF assms, of buf] by (simp add: synth_next_def split_beta)

declare synth_run.simps(2) [simp del]

lemma synth_seek_keeps:
  "synth_contents (fst (synth_seek s off w)) = synth_contents s" "0 \<le> sf_pos s \<Longrightarrow> 0 \<le> sf_pos (fst (synth_seek s off w))"
  by (simp_all add: synth_seek_def Let_def)

lemma synth_run_contents:
  assumes "0 \<le> sf_pos s" and "(p, d) \<in> set (fst (synth_run ops s))"
  shows "0 \<le> p \<and> (\<exists>n. d = take n (drop (nat p) (synth_contents s)))"
  using assms
proof (induction ops arbitrary: s)
  case (Cons op ops)
  show ?case
  proof (cases op)
    case (OpRead buf)
    let ?s = "synth_next s (length buf)"
    from Cons.prems OpRead have "(p, d) = (sf_pos s, synth_chunk s (length buf)) \<or> (p, d) \<in> set (fst (synth_run ops ?s))"
      by (simp add: synth_run_read)
    then show ?thesis
    proof
      assume "(p, d) = (sf_pos s, synth_chunk s (length buf))"
      then show ?thesis using Cons.prems(1) by (auto simp: synth_chunk_def)
    next
      assume "(p, d) \<in> set (fst (synth_run ops ?s))"
      from Cons.IH [OF _ this] Cons.prems(1) show ?thesis by simp
    qed
  next
    case (OpSeek off w)
    with Cons.IH [of "fst (synth_seek s off w)"] Cons.prems synth_seek_keeps [of s off w] show ?thesis
      by simp
  qed
qed simp

lemma synth_run_keeps:
  assumes "0 \<le> sf_pos s"
  shows "synth_contents (snd (synth_run ops s)) = synth_contents s \<and> 0 \<le> sf_pos (snd (synth_run ops s)) \<and>
    sf_size (snd (synth_run ops s)) = sf_size s"
  using assms
proof (induction ops arbitrary: s)
  case (Cons op ops)
  show ?case
  proof (cases op)
    case (OpRead buf)
    with Cons.IH [of "synth_next s (length buf)"] Cons.prems show ?thesis
      by (simp add: synth_run_read)
  next
    case (OpSeek off w)
    with Cons.IH [of "fst (synth_seek s off w)"] Cons.prems synth_seek_keeps [of s off w] show ?thesis
      by (simp add: synth_seek_def Let_def)
  qed
qed simp

text \<open>Reads in a row deliver consecutive pieces, whatever the sizes of the buffers.\<close>

lemma synth_reads_consecutive:
  assumes "0 \<le> sf_pos s"
  shows "concat (map snd (fst (synth_run (map OpRead bufs) s))) =
    take (sum_list (map length bufs)) (drop (nat (sf_pos s)) (synth_contents s))"
  using assms
proof (induction bufs arbitrary: s)
  case (Cons buf bufs)
  let ?s = "synth_next s (length buf)" and ?c = "synth_chunk s (length buf)"
  let ?d = "drop (nat (sf_pos s)) (synth_contents s)"
  have c: "?c = take (length buf) ?d"
    by (simp add: synth_chunk_def)
  have "nat (sf_pos ?s) = length ?c + nat (sf_pos s)"
    using Cons.prems by (simp add: nat_add_distrib)
  then have "drop (nat (sf_pos ?s)) (synth_contents ?s) = drop (length ?c) ?d"
    by (simp add: drop_drop)
  also have "\<dots> = drop (length buf) ?d"
    unfolding c by (cases "length buf \<le> length ?d") (simp_all add: min_def)
  finally have "concat (map snd (fst (synth_run (map OpRead bufs) ?s))) = take (sum_list (map length bufs)) (drop (length buf) ?d)"
    using Cons.IH [of ?s] Cons.prems by simp
  moreover have "concat (map snd (fst (synth_run (map OpRead (buf # bufs)) s))) =
      ?c @ concat (map snd (fst (synth_run (map OpRead bufs) ?s)))"
    using Cons.prems by (simp add: synth_run_read)
  ultimately show ?case
    unfolding c by (simp only: take_add list.map sum_list.Cons)
qed simp

subsection \<open>Properties\<close>

text \<open>
  C37: The synthetic file has fixed contents: after any history of reads (with buffers of any sizes) and seeks,
  valid or refused, every read delivers the bytes at its position of the same contents; and rewinding to
  the start and reading once through, in whatever pieces, delivers the contents completely, so an upload
  that is retried sends the same file. A file long enough begins with its format header.
\<close>

theorem synth_file_rereadable:
  assumes "s0 = newSynthFile key sz" and "s = snd (synth_run ops s0)" and "0 \<le> sz"
    and "sz \<le> int (sum_list (map length bufs))"
  shows "(\<forall>(p, d) \<in> set (fst (synth_run ops s0)). 0 \<le> p \<and> (\<exists>n. d = take n (drop (nat p) (synth_contents s0)))) \<and>
    concat (map snd (fst (synth_run (OpSeek 0 0 # map OpRead bufs) s))) = synth_contents s0 \<and>
    (int (length (synth_header (kind key))) \<le> sz \<longrightarrow> prefix (synth_header (kind key)) (synth_contents s0))"
proof (intro conjI impI)
  have p: "0 \<le> sf_pos s0" and z: "sf_size s0 = sz" and h: "sf_header s0 = synth_header (kind key)"
    by (simp_all add: assms(1) newSynthFile_def)
  show "\<forall>(p, d) \<in> set (fst (synth_run ops s0)). 0 \<le> p \<and> (\<exists>n. d = take n (drop (nat p) (synth_contents s0)))"
    using synth_run_contents [OF p] by blast
  have k: "synth_contents s = synth_contents s0"
    using synth_run_keeps [OF p, of ops] assms(2) by simp
  have "synth_run (OpSeek 0 0 # map OpRead bufs) s = synth_run (map OpRead bufs) (s\<lparr>sf_pos := 0\<rparr>)"
    by (simp add: synth_seek_def)
  then have "concat (map snd (fst (synth_run (OpSeek 0 0 # map OpRead bufs) s))) =
      take (sum_list (map length bufs)) (synth_contents s0)"
    using synth_reads_consecutive [of "s\<lparr>sf_pos := 0\<rparr>" bufs] k by simp
  then show "concat (map snd (fst (synth_run (OpSeek 0 0 # map OpRead bufs) s))) = synth_contents s0"
    using assms(4) z by simp
  assume "int (length (synth_header (kind key))) \<le> sz"
  then have l: "length (synth_header (kind key)) \<le> length (synth_contents s0)"
    using z by simp
  have "take (length (synth_header (kind key))) (synth_contents s0) = synth_header (kind key)"
    using l h by (intro nth_equalityI) (auto simp: synth_contents_def synth_byte_def)
  then show "prefix (synth_header (kind key)) (synth_contents s0)"
    by (metis take_is_prefix)
qed

theorem synth_file_rereadable_witness:
  "concat (map snd (fst (synth_run (OpSeek 0 0 # map OpRead [[0], [0, 0], [0]])
      (snd (synth_run [OpRead [0, 0], OpSeek (- 9) 1] (newSynthFile ''notes.pdf'' 4)))))) =
    synth_contents (newSynthFile ''notes.pdf'' 4)"
  using synth_file_rereadable [OF refl refl, of 4 "[[0], [0, 0], [0]]" "[OpRead [0, 0], OpSeek (- 9) 1]" "''notes.pdf''"]
  by simp

end
