(* ===== verification/Bench_Seed.thy ===== *)
theory Bench_Seed
  imports Synth_File Workload Step_Interface "HOL-Library.Multiset"
begin

section \<open>Seeding the bucket\<close>

text \<open>
  \<^verbatim>\<open>runSeed\<close> of \<^verbatim>\<open>cmd/bench/edu.go\<close> and the S3 helpers of \<^verbatim>\<open>cmd/bench/s3.go\<close>: the list of uploads, the listing
  of what the bucket already holds, and the pool of upload goroutines with its first error, as a step
  function. What \<^verbatim>\<open>PutObject\<close> answers is part of the event; when it succeeds the bucket holds the body.
\<close>

subsection \<open>Flags and client\<close>

record s3Flags =
  sf_bucket :: string
  sf_region :: string
  sf_endpoint :: string
  sf_prefix :: string

definition default_flags :: s3Flags where
  "default_flags =
     \<lparr>sf_bucket = ''predictive-proxy'', sf_region = ''us-east-2'', sf_endpoint = '''', sf_prefix = ''edu/''\<rparr>"

definition bench_transport :: Transport where
  "bench_transport =
     \<lparr>DialTimeout = 5 * Second, KeepAlive = 30 * Second, MaxIdleConns = 256, MaxIdleConnsPerHost = 256,
      IdleConnTimeout = 90 * Second, TLSHandshakeTimeout = 5 * Second, ExpectContinueTimeout = 0,
      DisableCompression = True\<rparr>"

definition flags_config :: "(load_option list \<Rightarrow> string + 'aws) \<Rightarrow> s3Flags \<Rightarrow> string + 'aws" where
  "flags_config load f = load [WithRegion (sf_region f), WithHTTPClient bench_transport]"

definition flags_option :: "s3Flags \<Rightarrow> s3_options \<Rightarrow> s3_options" where
  "flags_option f opts =
     (if sf_endpoint f \<noteq> ''''
      then opts\<lparr>BaseEndpoint := Some (sf_endpoint f), UsePathStyle := \<not> contains (sf_endpoint f) ''amazonaws.com''\<rparr>
      else opts)"

definition flags_client :: "(load_option list \<Rightarrow> string + 'aws) \<Rightarrow> s3Flags \<Rightarrow> string + 'aws \<times> (s3_options \<Rightarrow> s3_options)" where
  "flags_client load f =
     (case flags_config load f of
        Inl err \<Rightarrow> Inl (''load aws config: '' @ err)
      | Inr c \<Rightarrow> Inr (c, flags_option f))"

subsection \<open>Listing\<close>

text \<open>The pages of the listing, each an error or its entries (key and size, either of which may be absent).\<close>

fun list_pages :: "string \<Rightarrow> string \<Rightarrow> (string + (string option \<times> int option) list) list \<Rightarrow> object list \<Rightarrow> string + object list" where
  "list_pages bucket pre [] objs = Inr objs"
| "list_pages bucket pre (Inl err # ps) objs = Inl (''list s3://'' @ bucket @ ''/'' @ pre @ '': '' @ err)"
| "list_pages bucket pre (Inr page # ps) objs =
     list_pages bucket pre ps
       (objs @ map (\<lambda>(k, n). \<lparr>obj_key = (case k of None \<Rightarrow> '''' | Some x \<Rightarrow> x), obj_size = (case n of None \<Rightarrow> 0 | Some x \<Rightarrow> x)\<rparr>)
          (filter (\<lambda>(k, n). (case n of None \<Rightarrow> 0 | Some x \<Rightarrow> x) > 0) page))"

definition listObjects :: "(string \<Rightarrow> string \<Rightarrow> (string + (string option \<times> int option) list) list) \<Rightarrow> string \<Rightarrow> string \<Rightarrow> string + object list" where
  "listObjects pages bucket pre = list_pages bucket pre (pages bucket pre) []"

text \<open>The table of \<^verbatim>\<open>runCheck\<close>: files and bytes per kind, and the total.\<close>

definition count_kind :: "(string \<Rightarrow> (int \<times> int) option) \<Rightarrow> object \<Rightarrow> (string \<Rightarrow> (int \<times> int) option)" where
  "count_kind m ob =
     (let k = kind (obj_key ob); v = (case m k of None \<Rightarrow> (0, 0) | Some v \<Rightarrow> v)
      in m(k \<mapsto> (i64 (fst v + 1), i64 (snd v + obj_size ob))))"

definition check_table :: "object list \<Rightarrow> (string \<Rightarrow> (int \<times> int) option)" where
  "check_table objs = foldl count_kind (\<lambda>_. None) objs"

definition existing_sizes :: "string + object list \<Rightarrow> string \<Rightarrow> int option" where
  "existing_sizes listed =
     (case listed of Inl err \<Rightarrow> (\<lambda>_. None) | Inr objs \<Rightarrow> foldl (\<lambda>m ob. m(obj_key ob \<mapsto> obj_size ob)) (\<lambda>_. None) objs)"

subsection \<open>The uploads\<close>

datatype body_source = Synth string int | LocalFile string

record upload =
  up_key :: string
  up_size :: int
  up_body :: body_source

text \<open>
  The entries of \<^verbatim>\<open>-include-dir\<close> are given as the walk finds them: an error of the walk or of \<^verbatim>\<open>Info\<close>, a
  directory, or a file with its path, its slash-separated relative path and its size. An error ends the walk; so does,
  without one, nothing: empty files are skipped.
\<close>

datatype walk_entry = WalkError string | WalkDir | WalkFile string string int

fun walk_uploads :: "string \<Rightarrow> walk_entry list \<Rightarrow> upload list \<Rightarrow> string + upload list" where
  "walk_uploads pre [] ups = Inr ups"
| "walk_uploads pre (WalkError err # es) ups = Inl err"
| "walk_uploads pre (WalkDir # es) ups = walk_uploads pre es ups"
| "walk_uploads pre (WalkFile path rel n # es) ups =
     walk_uploads pre es
       (if n = 0 then ups else ups @ [\<lparr>up_key = pre @ ''uploads/'' @ rel, up_size = n, up_body = LocalFile path\<rparr>])"

definition catalog_uploads :: "eduFile list \<Rightarrow> upload list" where
  "catalog_uploads files = map (\<lambda>f. \<lparr>up_key = ef_key f, up_size = ef_size f, up_body = Synth (ef_key f) (ef_size f)\<rparr>) files"

definition seed_uploads :: "string \<Rightarrow> string \<Rightarrow> walk_entry list \<Rightarrow> eduFile list \<Rightarrow> string + upload list" where
  "seed_uploads includeDir pre walk files =
     (if includeDir = '''' then Inr (catalog_uploads files)
      else case walk_uploads pre walk (catalog_uploads files) of
             Inl err \<Rightarrow> Inl (''scan '' @ includeDir @ '': '' @ err)
           | Inr ups \<Rightarrow> Inr ups)"

text \<open>What an upload sends to \<^verbatim>\<open>PutObject\<close>.\<close>

record put_input =
  put_Bucket :: string
  put_Key :: string
  put_Body :: body_source
  put_ContentLength :: int
  put_ContentType :: string

definition put_request :: "string \<Rightarrow> upload \<Rightarrow> put_input" where
  "put_request bucket u =
     \<lparr>put_Bucket = bucket, put_Key = up_key u, put_Body = up_body u, put_ContentLength = up_size u,
      put_ContentType = contentType (up_key u)\<rparr>"

subsection \<open>The pool of uploaders\<close>

text \<open>
  A worker that has a job finds it existing, fails to open it, or puts it; then it takes the lock, counts and
  records the first error. The main function stops handing out jobs once an error is recorded.
\<close>

record seed_state =
  sd_todo :: "upload list"
  sd_closed :: bool
  sd_checked :: bool
  sd_idle :: nat
  sd_working :: "upload list"
  sd_reporting :: "(upload \<times> string option) list"
  sd_gone :: nat
  sd_done :: nat
  sd_sent :: int
  sd_firstErr :: "string option"
  sd_stored :: "put_input list"

definition start_seed :: "int \<Rightarrow> upload list \<Rightarrow> seed_state" where
  "start_seed nworkers ups =
     \<lparr>sd_todo = ups, sd_closed = False, sd_checked = False, sd_idle = nat nworkers, sd_working = [], sd_reporting = [],
      sd_gone = 0, sd_done = 0, sd_sent = 0, sd_firstErr = None, sd_stored = []\<rparr>"

datatype seed_event =
    SdCheck
  | SdHand
  | SdUpload nat "string option" "string option"
  | SdReport nat
  | SdClose
  | SdLeave

definition drop_nth :: "nat \<Rightarrow> 'a list \<Rightarrow> 'a list" where
  "drop_nth i xs = take i xs @ drop (Suc i) xs"

definition already_there :: "(string \<Rightarrow> int option) \<Rightarrow> upload \<Rightarrow> bool" where
  "already_there existing u \<longleftrightarrow> (case existing (up_key u) of None \<Rightarrow> 0 | Some n \<Rightarrow> n) = up_size u"

text \<open>
  One upload: its error, and whether the object was put. The first parameter is what opening a local file
  answers (a synthetic body always opens), the second what \<^verbatim>\<open>PutObject\<close> answers.
\<close>

definition upload_one ::
  "string \<Rightarrow> (string \<Rightarrow> int option) \<Rightarrow> string option \<Rightarrow> string option \<Rightarrow> upload \<Rightarrow> string option \<times> bool" where
  "upload_one bucket existing open_err put_err u =
     (if already_there existing u then (None, False)
      else case (case up_body u of Synth key n \<Rightarrow> None | LocalFile path \<Rightarrow> open_err) of
             Some err \<Rightarrow> (Some err, False)
           | None \<Rightarrow>
               case put_err of
                 Some err \<Rightarrow> (Some (''upload s3://'' @ bucket @ ''/'' @ up_key u @ '': '' @ err), False)
               | None \<Rightarrow> (None, True))"

fun seed_step :: "string \<Rightarrow> (string \<Rightarrow> int option) \<Rightarrow> seed_event \<Rightarrow> seed_state \<Rightarrow> seed_state option" where
  "seed_step bucket existing SdCheck s =
     (if sd_todo s \<noteq> [] \<and> \<not> sd_checked s \<and> \<not> sd_closed s
      then Some (if sd_firstErr s \<noteq> None then s\<lparr>sd_todo := [], sd_closed := True\<rparr> else s\<lparr>sd_checked := True\<rparr>) else None)"
| "seed_step bucket existing SdHand s =
     (case sd_todo s of
        u # us \<Rightarrow>
          if sd_checked s \<and> sd_idle s > 0
          then Some (s\<lparr>sd_todo := us, sd_checked := False, sd_idle := sd_idle s - 1, sd_working := sd_working s @ [u]\<rparr>)
          else None
      | [] \<Rightarrow> None)"
| "seed_step bucket existing (SdUpload i open_err put_err) s =
     (if i < length (sd_working s)
      then case upload_one bucket existing open_err put_err (sd_working s ! i) of
             (err, put) \<Rightarrow>
               Some (s\<lparr>sd_working := drop_nth i (sd_working s),
                      sd_reporting := sd_reporting s @ [(sd_working s ! i, err)],
                      sd_stored := (if put then sd_stored s @ [put_request bucket (sd_working s ! i)] else sd_stored s)\<rparr>)
      else None)"
| "seed_step bucket existing (SdReport i) s =
     (if i < length (sd_reporting s)
      then case sd_reporting s ! i of
             (u, err) \<Rightarrow>
               Some (s\<lparr>sd_reporting := drop_nth i (sd_reporting s), sd_idle := sd_idle s + 1, sd_done := sd_done s + 1,
                      sd_firstErr := (if err \<noteq> None \<and> sd_firstErr s = None then err else sd_firstErr s),
                      sd_sent := (if err = None then i64 (sd_sent s + up_size u) else sd_sent s)\<rparr>)
      else None)"
| "seed_step bucket existing SdClose s =
     (if sd_todo s = [] \<and> \<not> sd_closed s then Some (s\<lparr>sd_closed := True\<rparr>) else None)"
| "seed_step bucket existing SdLeave s =
     (if sd_closed s \<and> sd_idle s > 0 then Some (s\<lparr>sd_idle := sd_idle s - 1, sd_gone := sd_gone s + 1\<rparr>) else None)"

definition seed_finished :: "int \<Rightarrow> seed_state \<Rightarrow> bool" where
  "seed_finished nworkers s \<longleftrightarrow> sd_closed s \<and> sd_gone s = nat nworkers"

inductive seed_reach :: "string \<Rightarrow> (string \<Rightarrow> int option) \<Rightarrow> int \<Rightarrow> upload list \<Rightarrow> seed_state \<Rightarrow> bool" for bucket existing nworkers ups where
  seed_start: "seed_reach bucket existing nworkers ups (start_seed nworkers ups)"
| seed_more: "seed_reach bucket existing nworkers ups s \<Longrightarrow> seed_step bucket existing ev s = Some s' \<Longrightarrow> seed_reach bucket existing nworkers ups s'"

subsection \<open>The invariant of the pool\<close>

lemma mset_drop_nth: "i < length xs \<Longrightarrow> mset xs = add_mset (xs ! i) (mset (drop_nth i xs))"
  unfolding drop_nth_def by (subst id_take_nth_drop [of i xs]) simp_all

lemma length_drop_nth: "i < length xs \<Longrightarrow> length xs = Suc (length (drop_nth i xs))"
  by (simp add: drop_nth_def)

text \<open>
  What a seed run owes the bucket, said without the code's test: an upload must be put when the listing has its key with
  another size, or does not have its key. The one exception is an empty upload: a key that is not listed reads as
  size 0 in the code's map, so an upload of no bytes counts as present (\<^verbatim>\<open>edu.go\<close>, line 167).
\<close>

definition must_put :: "(string \<Rightarrow> int option) \<Rightarrow> upload \<Rightarrow> bool" where
  "must_put existing u \<longleftrightarrow>
     up_key u \<notin> dom existing \<and> up_size u \<noteq> 0 \<or> (\<exists>n. existing (up_key u) = Some n \<and> n \<noteq> up_size u)"

lemma already_there_iff: "already_there existing u \<longleftrightarrow> \<not> must_put existing u"
  by (auto simp: already_there_def must_put_def split: option.splits)

text \<open>What is still to be put, were no upload to fail, of the uploads the pool holds.\<close>

definition missing :: "(string \<Rightarrow> int option) \<Rightarrow> upload multiset \<Rightarrow> upload multiset" where
  "missing existing m = filter_mset (must_put existing) m"

lemma missing_simps [simp]:
  "missing existing {#} = {#}"
  "missing existing (m + m') = missing existing m + missing existing m'"
  "missing existing (add_mset u m) = (if already_there existing u then missing existing m else add_mset u (missing existing m))"
  by (simp_all add: missing_def already_there_iff)

definition failed :: "(upload \<times> string option) list \<Rightarrow> upload multiset" where
  "failed rs = image_mset fst (filter_mset (\<lambda>r. snd r \<noteq> None) (mset rs))"

lemma failed_simps [simp]:
  "failed [] = {#}"
  "failed (rs @ [(u, err)]) = (if err = None then failed rs else add_mset u (failed rs))"
  by (auto simp: failed_def)

lemma failed_drop_nth:
  "i < length rs \<Longrightarrow> failed rs = (if snd (rs ! i) = None then failed (drop_nth i rs) else add_mset (fst (rs ! i)) (failed (drop_nth i rs)))"
  by (simp add: failed_def mset_drop_nth)

definition seed_count :: "int \<Rightarrow> seed_state \<Rightarrow> bool" where
  "seed_count nworkers s \<longleftrightarrow>
     sd_idle s + length (sd_working s) + length (sd_reporting s) + sd_gone s = nat nworkers \<and>
     (sd_closed s \<longrightarrow> sd_todo s = []) \<and> (0 < sd_gone s \<longrightarrow> sd_closed s)"

definition seed_kept :: "string \<Rightarrow> (string \<Rightarrow> int option) \<Rightarrow> upload list \<Rightarrow> seed_state \<Rightarrow> bool" where
  "seed_kept bucket existing ups s \<longleftrightarrow>
     sd_firstErr s = None \<longrightarrow>
       image_mset (put_request bucket) (missing existing (mset (sd_todo s) + mset (sd_working s)) + failed (sd_reporting s)) +
         mset (sd_stored s) =
       image_mset (put_request bucket) (missing existing (mset ups))"

lemma upload_one_cases:
  assumes "upload_one bucket existing open_err put_err u = (err, put)"
  obtains (there) "already_there existing u" "err = None" "\<not> put"
    | (fail) "\<not> already_there existing u" "err \<noteq> None" "\<not> put"
    | (sent) "\<not> already_there existing u" "err = None" "put"
  using assms unfolding upload_one_def by (auto split: if_splits option.splits body_source.splits)

lemma seed_step_cases:
  assumes "seed_step bucket existing ev s = Some s'"
  obtains (stop) "sd_todo s \<noteq> []" "sd_firstErr s \<noteq> None" "\<not> sd_closed s" "s' = s\<lparr>sd_todo := [], sd_closed := True\<rparr>"
    | (check) "sd_todo s \<noteq> []" "sd_firstErr s = None" "\<not> sd_checked s" "s' = s\<lparr>sd_checked := True\<rparr>"
    | (hand) u us where "sd_todo s = u # us" "sd_checked s" "sd_idle s > 0"
      "s' = s\<lparr>sd_todo := us, sd_checked := False, sd_idle := sd_idle s - 1, sd_working := sd_working s @ [u]\<rparr>"
    | (upload) i err put oe pe where "i < length (sd_working s)" "upload_one bucket existing oe pe (sd_working s ! i) = (err, put)"
      "s' = s\<lparr>sd_working := drop_nth i (sd_working s), sd_reporting := sd_reporting s @ [(sd_working s ! i, err)],
             sd_stored := (if put then sd_stored s @ [put_request bucket (sd_working s ! i)] else sd_stored s)\<rparr>"
    | (report) i u err where "i < length (sd_reporting s)" "sd_reporting s ! i = (u, err)"
      "s' = s\<lparr>sd_reporting := drop_nth i (sd_reporting s), sd_idle := sd_idle s + 1, sd_done := sd_done s + 1,
             sd_firstErr := (if err \<noteq> None \<and> sd_firstErr s = None then err else sd_firstErr s),
             sd_sent := (if err = None then i64 (sd_sent s + up_size u) else sd_sent s)\<rparr>"
    | (closing) "sd_todo s = []" "\<not> sd_closed s" "s' = s\<lparr>sd_closed := True\<rparr>"
    | (leave) "sd_closed s" "sd_idle s > 0" "s' = s\<lparr>sd_idle := sd_idle s - 1, sd_gone := sd_gone s + 1\<rparr>"
proof (cases ev)
  case SdCheck
  with assms stop check show thesis by (auto split: if_splits)
next
  case SdHand
  with assms hand show thesis by (auto split: list.splits if_splits)
next
  case (SdUpload i oe pe)
  with assms upload [of i oe pe] show thesis by (auto split: if_splits prod.splits)
next
  case (SdReport i)
  with assms report [of i] show thesis by (auto split: if_splits prod.splits)
next
  case SdClose
  with assms closing show thesis by (auto split: if_splits)
next
  case SdLeave
  with assms leave show thesis by (auto split: if_splits)
qed

lemma seed_count_step:
  assumes "seed_step bucket existing ev s = Some s'" and inv: "seed_count nworkers s"
  shows "seed_count nworkers s'"
  using assms(1)
proof (cases rule: seed_step_cases)
  case (upload i err put oe pe)
  with inv length_drop_nth [OF upload(1)] show ?thesis by (auto simp: seed_count_def)
next
  case (report i u err)
  with inv length_drop_nth [OF report(1)] show ?thesis by (auto simp: seed_count_def)
qed (use inv in \<open>auto simp: seed_count_def\<close>)

lemma seed_kept_step:
  assumes "seed_step bucket existing ev s = Some s'" and inv: "seed_kept bucket existing ups s"
  shows "seed_kept bucket existing ups s'"
  using assms(1)
proof (cases rule: seed_step_cases)
  case (upload i err put oe pe)
  then show ?thesis
    using inv mset_drop_nth [OF upload(1)]
    by (cases rule: upload_one_cases [OF upload(2)]) (auto simp: seed_kept_def)
next
  case (report i u err)
  then show ?thesis
    using inv failed_drop_nth [OF report(1)] by (auto simp: seed_kept_def)
qed (use inv in \<open>auto simp: seed_kept_def\<close>)

lemma seed_reach_inv: "seed_reach bucket existing nworkers ups s \<Longrightarrow> seed_count nworkers s \<and> seed_kept bucket existing ups s"
proof (induction rule: seed_reach.induct)
  case seed_start
  show ?case by (simp add: seed_count_def seed_kept_def start_seed_def)
next
  case (seed_more s ev s')
  then show ?case using seed_count_step seed_kept_step by blast
qed

text \<open>How far the pool is from its end.\<close>

definition seed_left :: "seed_state \<Rightarrow> nat" where
  "seed_left s =
     5 * length (sd_todo s) + 3 * length (sd_working s) + 2 * length (sd_reporting s) + sd_idle s +
     (if sd_checked s then 0 else 1) + (if sd_closed s then 0 else 2)"

lemma seed_step_left: "seed_step bucket existing ev s = Some s' \<Longrightarrow> seed_left s' < seed_left s"
proof (erule seed_step_cases, goal_cases)
  case (4 i err put oe pe)
  then show ?case using length_drop_nth [OF 4(1)] by (auto simp: seed_left_def)
next
  case (5 i u err)
  then show ?case using length_drop_nth [OF 5(1)] by (auto simp: seed_left_def)
qed (auto simp: seed_left_def)

lemma seed_progress:
  assumes inv: "seed_count nworkers s" and "0 < nworkers" and "\<not> seed_finished nworkers s"
  shows "\<exists>ev s'. seed_step bucket existing ev s = Some s'"
proof (cases "sd_working s = [] \<and> sd_reporting s = []")
  case False
  then have "seed_step bucket existing (SdUpload 0 None None) s \<noteq> None \<or> seed_step bucket existing (SdReport 0) s \<noteq> None"
    by (auto split: prod.split)
  then show ?thesis by blast
next
  case True
  then have n: "sd_idle s + sd_gone s = nat nworkers" using inv by (simp add: seed_count_def)
  consider (leave) "sd_closed s" | (close) "\<not> sd_closed s" "sd_todo s = []" | (busy) "\<not> sd_closed s" "sd_todo s \<noteq> []"
    by blast
  then have "seed_step bucket existing SdLeave s \<noteq> None \<or> seed_step bucket existing SdClose s \<noteq> None \<or>
      seed_step bucket existing SdCheck s \<noteq> None \<or> seed_step bucket existing SdHand s \<noteq> None"
  proof cases
    case leave
    with n assms(3) show ?thesis by (auto simp: seed_finished_def)
  next
    case close
    then show ?thesis by simp
  next
    case busy
    then have "sd_gone s = 0" using inv by (auto simp: seed_count_def)
    with n assms(2) have "sd_idle s > 0" by simp
    with busy show ?thesis by (cases "sd_todo s") auto
  qed
  then show ?thesis by blast
qed

lemma seed_stored_step:
  assumes "seed_step bucket existing ev s = Some s'"
    and inv: "image_mset (put_request bucket) (missing existing (mset (sd_todo s) + mset (sd_working s))) + mset (sd_stored s) \<subseteq># M"
  shows "image_mset (put_request bucket) (missing existing (mset (sd_todo s') + mset (sd_working s'))) + mset (sd_stored s') \<subseteq># M"
  using assms(1)
proof (cases rule: seed_step_cases)
  case stop
  then show ?thesis
    using inv by (auto intro: subset_mset.order_trans [OF _ inv])
next
  case (upload i err put oe pe)
  then show ?thesis
    using inv mset_drop_nth [OF upload(1)]
    by (cases rule: upload_one_cases [OF upload(2)])
      (auto intro: subset_mset.order_trans [OF _ inv])
qed (use inv in auto)

lemma seed_stored_missing:
  assumes "seed_reach bucket existing nworkers ups s"
  shows "mset (sd_stored s) \<subseteq># image_mset (put_request bucket) (missing existing (mset ups))"
proof -
  have "image_mset (put_request bucket) (missing existing (mset (sd_todo s) + mset (sd_working s))) + mset (sd_stored s)
      \<subseteq># image_mset (put_request bucket) (missing existing (mset ups))"
    using assms
  proof (induction rule: seed_reach.induct)
    case seed_start
    show ?case by (simp add: start_seed_def)
  next
    case (seed_more s ev s')
    then show ?case by (blast intro: seed_stored_step)
  qed
  then show ?thesis
    by (rule subset_mset.order_trans [rotated]) simp
qed

interpretation seed: bounded_steps "seed_step bucket existing" "\<lambda>s. 0 < nworkers \<and> seed_count nworkers s" seed_left
  "seed_finished nworkers" for bucket existing nworkers
  using seed_count_step seed_step_left seed_progress by unfold_locales blast+

lemma seed_ends:
  assumes "seed_reach bucket existing nworkers ups s"
  shows "0 < nworkers \<Longrightarrow> \<exists>evs s'. run_steps (seed_step bucket existing) evs s = Some s' \<and> seed_finished nworkers s'"
    and "run_steps (seed_step bucket existing) evs s = Some s' \<Longrightarrow> length evs \<le> seed_left s"
  using seed.can_finish [of nworkers s bucket existing] seed_reach_inv [OF assms] seed.run_bounded [of bucket existing evs s s']
  by auto

subsection \<open>Properties\<close>

text \<open>
  C33: A seed run puts what is missing, once: whatever the interleaving of the uploaders, \<open>PutObject\<close> succeeds at
  most once per upload and only for those that must be put (the listing has no such key, or has it with another
  size; an unlisted upload of size 0 is the one the code forgets), and when \<open>runSeed\<close> returns without an error every
  one of them has been put, with its key, body, length and content type.
\<close>

theorem seed_puts_what_is_missing:
  assumes "seed_reach bucket existing nworkers ups s"
  shows "mset (sd_stored s) \<subseteq># image_mset (put_request bucket) (missing existing (mset ups)) \<and>
    (seed_finished nworkers s \<and> sd_firstErr s = None \<longrightarrow>
       mset (sd_stored s) = image_mset (put_request bucket) (missing existing (mset ups)))"
proof -
  have inv: "seed_count nworkers s" "seed_kept bucket existing ups s"
    using seed_reach_inv [OF assms] by auto
  have "mset (sd_stored s) = image_mset (put_request bucket) (missing existing (mset ups))"
    if "seed_finished nworkers s" "sd_firstErr s = None"
  proof -
    have "sd_todo s = []" "sd_working s = []" "sd_reporting s = []"
      using inv(1) that(1) by (simp_all add: seed_count_def seed_finished_def)
    with inv(2) that(2) show ?thesis by (simp add: seed_kept_def)
  qed
  with seed_stored_missing [OF assms] show ?thesis by blast
qed

lemma seed_run_reach:
  "seed_reach bucket existing nworkers ups s \<Longrightarrow> run_steps (seed_step bucket existing) evs s = Some s' \<Longrightarrow>
    seed_reach bucket existing nworkers ups s'"
  by (rule run_steps_reach [of "seed_reach bucket existing nworkers ups", OF seed_more])

definition demo_uploads :: "upload list" where
  "demo_uploads =
     [\<lparr>up_key = ''edu/a.pdf'', up_size = 3, up_body = Synth ''edu/a.pdf'' 3\<rparr>,
      \<lparr>up_key = ''edu/b.mp4'', up_size = 5, up_body = Synth ''edu/b.mp4'' 5\<rparr>]"

definition demo_seed_events :: "seed_event list" where
  "demo_seed_events =
     [SdCheck, SdHand, SdCheck, SdUpload 0 None None, SdReport 0, SdHand, SdUpload 0 None None, SdReport 0, SdClose, SdLeave]"

lemma demo_seed_run:
  "\<exists>s. run_steps (seed_step ''data'' [''edu/a.pdf'' \<mapsto> 3]) demo_seed_events (start_seed 1 demo_uploads) = Some s \<and>
    seed_finished 1 s \<and> sd_firstErr s = None \<and> length (sd_stored s) = 1"
  by (simp add: demo_seed_events_def start_seed_def demo_uploads_def seed_finished_def upload_one_def already_there_def
      drop_nth_def)

theorem seed_puts_what_is_missing_witness:
  "\<exists>s. seed_finished 1 s \<and> length (sd_stored s) = 1 \<and>
    mset (sd_stored s) = image_mset (put_request ''data'') (missing [''edu/a.pdf'' \<mapsto> 3] (mset demo_uploads))"
proof -
  obtain s where s: "run_steps (seed_step ''data'' [''edu/a.pdf'' \<mapsto> 3]) demo_seed_events (start_seed 1 demo_uploads) = Some s"
    "seed_finished 1 s" "sd_firstErr s = None" "length (sd_stored s) = 1"
    using demo_seed_run by blast
  from seed_puts_what_is_missing [OF seed_run_reach [OF seed_start s(1)]] s(2-4) show ?thesis by blast
qed

end
