(* ===== verification/Bench_Command.thy ===== *)
theory Bench_Command
  imports Bench_Print Bench_Seed
begin

section \<open>The benchmark's commands\<close>

text \<open>
  \<^verbatim>\<open>main\<close>, \<^verbatim>\<open>runCheck\<close>, the start of \<^verbatim>\<open>runSeed\<close> and \<^verbatim>\<open>runBench\<close> of \<^verbatim>\<open>cmd/bench\<close>: every early return with its
  message, the phases in order, the rows of the CSV file and the summary. The AWS SDK, the file system and
  what \<^verbatim>\<open>runPhase\<close> measures are parameters; flags are parsed already, and printing is left out.
\<close>

subsection \<open>Splitting and trimming\<close>

fun split_on :: "char \<Rightarrow> string \<Rightarrow> string list" where
  "split_on c [] = ['''']"
| "split_on c (x # xs) =
     (if x = c then '''' # split_on c xs
      else case split_on c xs of [] \<Rightarrow> [[x]] | p # ps \<Rightarrow> (x # p) # ps)"

text \<open>The encodings of the characters \<^verbatim>\<open>unicode.IsSpace\<close> accepts.\<close>

definition space_codes :: "string list" where
  "space_codes =
     [[CHR 0x09], [CHR 0x0A], [CHR 0x0B], [CHR 0x0C], [CHR 0x0D], [CHR 0x20],
      [CHR 0xC2, CHR 0x85], [CHR 0xC2, CHR 0xA0], [CHR 0xE1, CHR 0x9A, CHR 0x80]] @
     map (\<lambda>c. [CHR 0xE2, CHR 0x80, c])
       [CHR 0x80, CHR 0x81, CHR 0x82, CHR 0x83, CHR 0x84, CHR 0x85, CHR 0x86, CHR 0x87, CHR 0x88, CHR 0x89, CHR 0x8A,
        CHR 0xA8, CHR 0xA9, CHR 0xAF] @
     [[CHR 0xE2, CHR 0x81, CHR 0x9F], [CHR 0xE3, CHR 0x80, CHR 0x80]]"

lemma space_codes_nonempty: "p \<in> set space_codes \<Longrightarrow> p \<noteq> []"
  by (auto simp: space_codes_def)

function trim_left :: "string \<Rightarrow> string" where
  "trim_left s =
     (case find (has_prefix s) space_codes of None \<Rightarrow> s | Some p \<Rightarrow> trim_left (drop (length p) s))"
  by auto
termination
proof (relation "measure length")
  fix s p
  assume "find (has_prefix s) space_codes = Some p"
  then have "p \<noteq> []" "length p \<le> length s"
    using space_codes_nonempty by (auto simp: find_Some_iff has_prefix_def)
  then show "(drop (length p) s, s) \<in> measure length"
    by (cases s; cases p) auto
qed simp

function trim_right :: "string \<Rightarrow> string" where
  "trim_right s =
     (case find (has_suffix s) space_codes of None \<Rightarrow> s | Some p \<Rightarrow> trim_right (take (length s - length p) s))"
  by auto
termination
proof (relation "measure length")
  fix s p
  assume "find (has_suffix s) space_codes = Some p"
  then have "p \<noteq> []" "length p \<le> length s"
    using space_codes_nonempty by (auto simp: find_Some_iff has_suffix_def)
  then show "(take (length s - length p) s, s) \<in> measure length"
    by (cases s; cases p) auto
qed simp

declare trim_left.simps [simp del] trim_right.simps [simp del]

definition trim_space :: "string \<Rightarrow> string" where
  "trim_space s = trim_right (trim_left s)"

subsection \<open>\<^verbatim>\<open>bench check\<close>\<close>

record check_report =
  cr_arn :: string
  cr_table :: "string \<Rightarrow> (int \<times> int) option"
  cr_total :: int
  cr_objects :: nat

definition table_total :: "(string \<Rightarrow> (int \<times> int) option) \<Rightarrow> int" where
  "table_total m = foldl (\<lambda>a k. case m k of None \<Rightarrow> a | Some v \<Rightarrow> i64 (a + snd v)) 0 all_kinds"

text \<open>The identity lookup and the bucket probe get what the client is made of; \<open>quote\<close> is the verb \<^verbatim>\<open>%q\<close>.\<close>

definition runCheck ::
  "(load_option list \<Rightarrow> string + 'aws) \<Rightarrow> ('aws \<Rightarrow> string + string) \<Rightarrow>
     ('aws \<times> (s3_options \<Rightarrow> s3_options) \<Rightarrow> string \<Rightarrow> string option) \<Rightarrow>
     ('aws \<times> (s3_options \<Rightarrow> s3_options) \<Rightarrow> string \<Rightarrow> string \<Rightarrow> (string + (string option \<times> int option) list) list) \<Rightarrow>
     (string \<Rightarrow> string) \<Rightarrow> s3Flags \<Rightarrow> string + check_report" where
  "runCheck load identity headBucket pages quote f =
     (case flags_config load f of
        Inl err \<Rightarrow> Inl err
      | Inr c \<Rightarrow>
     (case identity c of
        Inl err \<Rightarrow> Inl (''credentials not usable (check ~/.aws/credentials or AWS_PROFILE): '' @ err)
      | Inr arn \<Rightarrow>
     (case flags_client load f of
        Inl err \<Rightarrow> Inl err
      | Inr client \<Rightarrow>
     (case headBucket client (sf_bucket f) of
        Some err \<Rightarrow> Inl (''bucket '' @ quote (sf_bucket f) @ '' not reachable in '' @ sf_region f @ '': '' @ err)
      | None \<Rightarrow>
     (case listObjects (pages client) (sf_bucket f) (sf_prefix f) of
        Inl err \<Rightarrow> Inl err
      | Inr objs \<Rightarrow>
          let byKind = check_table objs
          in Inr \<lparr>cr_arn = arn, cr_table = byKind, cr_total = table_total byKind, cr_objects = length objs\<rparr>)))))"

subsection \<open>\<^verbatim>\<open>bench seed\<close>, up to its uploaders\<close>

record seed_flags =
  se_s3 :: s3Flags
  se_courses :: int
  se_scale :: rat
  se_seed :: int
  se_includeDir :: string
  se_parallel :: int
  se_dryRun :: bool

definition uploads_size :: "upload list \<Rightarrow> int" where
  "uploads_size ups = foldl (\<lambda>a u. i64 (a + up_size u)) 0 ups"

definition uploads_kinds :: "upload list \<Rightarrow> string \<Rightarrow> int" where
  "uploads_kinds ups = foldl (\<lambda>m u. m(kind (up_key u) := i64 (m (kind (up_key u)) + 1))) (\<lambda>_. 0) ups"

datatype seed_begin =
    DryRun "upload list" int "string \<Rightarrow> int"
  | Uploading "string \<Rightarrow> int option" seed_state

definition runSeed ::
  "(rat \<Rightarrow> rat) \<Rightarrow> 'g rng \<Rightarrow> (load_option list \<Rightarrow> string + 'aws) \<Rightarrow>
     ('aws \<times> (s3_options \<Rightarrow> s3_options) \<Rightarrow> string \<Rightarrow> string \<Rightarrow> (string + (string option \<times> int option) list) list) \<Rightarrow>
     walk_entry list \<Rightarrow> seed_flags \<Rightarrow> string + seed_begin" where
  "runSeed rnd R load pages walk f =
     (case seed_uploads (se_includeDir f) (sf_prefix (se_s3 f)) walk
             (buildCatalog rnd R (sf_prefix (se_s3 f)) (se_courses f) (se_scale f) (se_seed f)) of
        Inl err \<Rightarrow> Inl err
      | Inr ups \<Rightarrow>
          if se_dryRun f then Inr (DryRun ups (uploads_size ups) (uploads_kinds ups))
          else case flags_client load (se_s3 f) of
                 Inl err \<Rightarrow> Inl err
               | Inr client \<Rightarrow>
                   Inr (Uploading (existing_sizes (listObjects (pages client) (sf_bucket (se_s3 f)) (sf_prefix (se_s3 f))))
                     (start_seed (se_parallel f) ups)))"

subsection \<open>\<^verbatim>\<open>bench run\<close>\<close>

record bench_flags =
  bf_s3 :: s3Flags
  bf_proxy :: string
  bf_phases :: string
  bf_sessions :: int
  bf_students :: int
  bf_maxBytes :: int
  bf_videoChunk :: int
  bf_pdfChunk :: int
  bf_downloadBuf :: int
  bf_zipf :: rat
  bf_seed :: int

definition bench_defaults :: "(rat \<Rightarrow> rat) \<Rightarrow> bench_flags" where
  "bench_defaults rnd =
     \<lparr>bf_s3 = default_flags, bf_proxy = ''http://localhost:8080'', bf_phases = ''direct,proxy-cold,proxy-warm'',
      bf_sessions = 300, bf_students = 16, bf_maxBytes = push_bit 20 48, bf_videoChunk = push_bit 20 2,
      bf_pdfChunk = push_bit 10 256, bf_downloadBuf = push_bit 20 4, bf_zipf = rnd (11 / 10), bf_seed = 42\<rparr>"

definition bench_workload :: "bench_flags \<Rightarrow> workloadConfig" where
  "bench_workload f =
     \<lparr>wc_sessions = bf_sessions f, wc_maxBytes = bf_maxBytes f, wc_videoChunk = bf_videoChunk f,
      wc_pdfChunk = bf_pdfChunk f, wc_downloadBuf = bf_downloadBuf f, wc_zipfS = bf_zipf f, wc_seed = bf_seed f\<rparr>"

record workload_totals =
  wt_reqs :: int
  wt_distinct :: nat
  wt_bytesPerPass :: int
  wt_datasetBytes :: int

definition work_totals :: "object list \<Rightarrow> session list \<Rightarrow> workload_totals" where
  "work_totals objs work =
     \<lparr>wt_reqs = foldl (\<lambda>a s. i64 (a + int (length (sess_reqs s)))) 0 work,
      wt_distinct = length (remdups (map (\<lambda>s. obj_key (sess_obj s)) work)),
      wt_bytesPerPass = foldl (\<lambda>a s. foldl (\<lambda>b r. i64 (b + rq_length r)) a (sess_reqs s)) 0 work,
      wt_datasetBytes = foldl (\<lambda>a ob. i64 (a + obj_size ob)) 0 objs\<rparr>"

definition csv_header :: "string list" where
  "csv_header =
     [''phase'', ''kind'', ''object'', ''offset'', ''length'', ''seq'', ''tier'', ''ttfb_us'', ''latency_us'',
      ''started_ms'', ''error'']"

definition csv_row :: "sample \<Rightarrow> string list" where
  "csv_row s =
     [s_Phase s, s_Kind s, s_Object s, show_int (s_Offset s), show_int (s_Length s), show_int (s_Seq s), s_Tier s,
      show_int (s_TTFB s sdiv 1000), show_int (s_Latency s sdiv 1000), show_int (s_StartedAt s sdiv 1000000), s_Err s]"

datatype cfg_value = CStr string | CInt int | CFloat rat

definition summary_config :: "bench_flags \<Rightarrow> object list \<Rightarrow> session list \<Rightarrow> string \<Rightarrow> (string \<times> cfg_value) list" where
  "summary_config f objs work started =
     (let t = work_totals objs work
      in [(''bucket'', CStr (sf_bucket (bf_s3 f))), (''region'', CStr (sf_region (bf_s3 f))), (''prefix'', CStr (sf_prefix (bf_s3 f))),
          (''dataset_files'', CInt (int (length objs))), (''dataset_bytes'', CInt (wt_datasetBytes t)),
          (''sessions'', CInt (int (length work))), (''distinct_files'', CInt (int (wt_distinct t))),
          (''requests_per_pass'', CInt (wt_reqs t)), (''bytes_per_pass'', CInt (wt_bytesPerPass t)),
          (''students'', CInt (bf_students f)), (''max_bytes_per_session'', CInt (bf_maxBytes f)),
          (''video_chunk'', CInt (bf_videoChunk f)), (''pdf_chunk'', CInt (bf_pdfChunk f)),
          (''download_chunk'', CInt (bf_downloadBuf f)), (''zipf'', CFloat (bf_zipf f)), (''seed'', CInt (bf_seed f)),
          (''started'', CStr started)])"

datatype bench_error = ErrText string | ErrPanic go_panic

datatype bench_reader = S3Reader string | ProxyReader proxyReader

text \<open>The reader of a phase; for the proxy phases a ping of the first session's file comes first.\<close>

definition choose_reader ::
  "(string \<Rightarrow> string \<Rightarrow> string + http_reply) \<Rightarrow> (string \<Rightarrow> string) \<Rightarrow> bench_flags \<Rightarrow> session list \<Rightarrow> string \<Rightarrow>
     bench_error + bench_reader" where
  "choose_reader exchange quote f work phase =
     (if phase = ''direct'' then Inr (S3Reader (sf_bucket (bf_s3 f)))
      else if phase = ''proxy-cold'' \<or> phase = ''proxy-warm''
      then let pr = newProxyReader (bf_proxy f) (bf_students f)
           in case index_checked work 0 of
                Inl e \<Rightarrow> Inl (ErrPanic e)
              | Inr s \<Rightarrow>
                  case ping exchange pr (obj_key (sess_obj s)) of
                    Some err \<Rightarrow> Inl (ErrText (''phase '' @ phase @ '': proxy not reachable at '' @ bf_proxy f @ '': '' @ err))
                  | None \<Rightarrow> Inr (ProxyReader pr)
      else Inl (ErrText (''unknown phase '' @ quote phase)))"

text \<open>What \<^verbatim>\<open>r.read\<close> of the chosen reader does.\<close>

definition reader_read ::
  "(string \<Rightarrow> string \<Rightarrow> string \<Rightarrow> string + int \<times> int \<times> string option) \<Rightarrow> (string \<Rightarrow> string \<Rightarrow> string + http_reply) \<Rightarrow>
     bench_reader \<Rightarrow> string \<Rightarrow> int \<Rightarrow> int \<Rightarrow> read_result" where
  "reader_read getObject exchange r key off len =
     (case r of
        S3Reader bucket \<Rightarrow> s3_read getObject bucket key off len
      | ProxyReader p \<Rightarrow> proxy_read exchange p key off len)"

text \<open>
  The loop over the phases: the error it ends with, the rows flushed to \<^verbatim>\<open>requests.csv\<close> (the header is flushed
  with the first phase) and the summaries. \<open>measure_phase\<close> is \<^verbatim>\<open>runPhase\<close> of the phase at this position: its samples and
  wall time, or \<open>None\<close> when it never returns.
\<close>

fun run_phases ::
  "bench_floats \<Rightarrow> (string \<Rightarrow> bench_error + bench_reader) \<Rightarrow> (nat \<Rightarrow> string \<Rightarrow> bench_reader \<Rightarrow> (sample list \<times> int) option) \<Rightarrow>
     string list \<Rightarrow> string list list \<Rightarrow> PhaseSummary list \<Rightarrow>
     (bench_error option \<times> string list list \<times> PhaseSummary list) option" where
  "run_phases F pick measure_phase [] rows summaries = Some (None, rows, summaries)"
| "run_phases F pick measure_phase (p # ps) rows summaries =
     (let phase = trim_space p
      in case pick phase of
           Inl err \<Rightarrow> Some (Some err, rows, summaries)
         | Inr r \<Rightarrow>
             Option.bind (measure_phase (length summaries) phase r) (\<lambda>(samples, wall).
               let rows' = (if summaries = [] then [csv_header] else rows) @ map csv_row samples
               in Option.bind (summarize F phase samples wall) (\<lambda>res.
                    case res of
                      Inl e \<Rightarrow> Some (Some (ErrPanic e), rows', summaries)
                    | Inr s \<Rightarrow> run_phases F pick measure_phase ps rows' (summaries @ [s]))))"

record bench_os =
  os_mkdirAll :: "string option"
  os_createCsv :: "string option"
  os_createSummary :: "string option"
  os_started :: string

record bench_result =
  br_err :: "bench_error option"
  br_csv :: "string list list option"
  br_summary :: "((string \<times> cfg_value) list \<times> PhaseSummary list) option"

definition bench_stop :: "bench_error \<Rightarrow> bench_result" where
  "bench_stop err = \<lparr>br_err = Some err, br_csv = None, br_summary = None\<rparr>"

text \<open>\<open>encode\<close> is the JSON encoder's verdict on the summary; \<open>None\<close> as a result is a run that does not end.\<close>

definition runBench ::
  "bench_floats \<Rightarrow> 'g rng \<Rightarrow> (load_option list \<Rightarrow> string + 'aws) \<Rightarrow>
     ('aws \<times> (s3_options \<Rightarrow> s3_options) \<Rightarrow> string \<Rightarrow> string \<Rightarrow> (string + (string option \<times> int option) list) list) \<Rightarrow>
     (string \<Rightarrow> string \<Rightarrow> string + http_reply) \<Rightarrow> (string \<Rightarrow> string) \<Rightarrow>
     (session list \<Rightarrow> nat \<Rightarrow> string \<Rightarrow> bench_reader \<Rightarrow> (sample list \<times> int) option) \<Rightarrow>
     ((string \<times> cfg_value) list \<times> PhaseSummary list \<Rightarrow> string option) \<Rightarrow> bench_os \<Rightarrow> bench_flags \<Rightarrow> bench_result option" where
  "runBench F R load pages exchange quote measure_phase encode env f =
     (case flags_client load (bf_s3 f) of
        Inl err \<Rightarrow> Some (bench_stop (ErrText err))
      | Inr client \<Rightarrow>
     (case listObjects (pages client) (sf_bucket (bf_s3 f)) (sf_prefix (bf_s3 f)) of
        Inl err \<Rightarrow> Some (bench_stop (ErrText err))
      | Inr objs \<Rightarrow>
          if objs = []
          then Some (bench_stop (ErrText (''no objects under s3://'' @ sf_bucket (bf_s3 f) @ ''/'' @ sf_prefix (bf_s3 f) @
            [CHR '' '', CHR 0xE2, CHR 0x80, CHR 0x94, CHR '' ''] @ ''run `bench seed` first'')))
          else Option.bind (buildSessions (float_ops.truncate F) R (bench_workload f) objs) (\<lambda>built.
            case built of
              Inl e \<Rightarrow> Some (bench_stop (ErrPanic e))
            | Inr work \<Rightarrow>
                case os_mkdirAll env of
                  Some err \<Rightarrow> Some (bench_stop (ErrText err))
                | None \<Rightarrow>
                    case os_createCsv env of
                      Some err \<Rightarrow> Some (bench_stop (ErrText err))
                    | None \<Rightarrow>
                        map_option (\<lambda>(err, rows, summaries).
                          let summary = (summary_config f objs work (os_started env), summaries);
                              err' = (if err \<noteq> None then err
                                      else if os_createSummary env \<noteq> None then map_option ErrText (os_createSummary env)
                                      else map_option ErrText (encode summary))
                          in \<lparr>br_err = err', br_csv = Some rows, br_summary = (if err' = None then Some summary else None)\<rparr>)
                        (run_phases F (choose_reader exchange quote f work) (measure_phase work)
                          (split_on (CHR '','') (bf_phases f)) [] []))))"

subsection \<open>The command line\<close>

text \<open>The exit code; a subcommand that panics makes the runtime exit with 2.\<close>

definition bench_main ::
  "(string list \<Rightarrow> bench_error option) \<Rightarrow> (string list \<Rightarrow> bench_error option) \<Rightarrow> (string list \<Rightarrow> bench_error option) \<Rightarrow>
     string list \<Rightarrow> int" where
  "bench_main check seed run args =
     (let exit_of = (\<lambda>err. case err of None \<Rightarrow> 0 | Some (ErrText e) \<Rightarrow> 1 | Some (ErrPanic e) \<Rightarrow> 2)
      in case args of
           prog # cmd # rest \<Rightarrow>
             if cmd = ''check'' then exit_of (check rest)
             else if cmd = ''seed'' then exit_of (seed rest)
             else if cmd = ''run'' then exit_of (run rest)
             else 2
         | _ \<Rightarrow> 2)"

subsection \<open>What a run reports\<close>

lemma gbind_Inr: "gbind r f = Inr y \<longleftrightarrow> (\<exists>x. r = Inr x \<and> f x = Inr y)"
  by (cases r) simp_all

lemma summarize_count:
  assumes "summarize F phase samples wall = Some (Inr ps)"
  shows "ps_Phase ps = phase \<and> st_Count (ps_All ps) = length samples"
  using assms stats_count
  by (auto simp: summarize_def Let_def gbind_Inr bind_eq_Some_conv)

text \<open>\<open>measures\<close>: what \<^verbatim>\<open>runPhase\<close> measures is what a finished phase of the modelled pool has collected.\<close>

definition measures :: "int \<Rightarrow> session list \<Rightarrow> (nat \<Rightarrow> string \<Rightarrow> bench_reader \<Rightarrow> (sample list \<times> int) option) \<Rightarrow> bool" where
  "measures students work measure_phase \<longleftrightarrow>
     (\<forall>n phase r samples wall. measure_phase n phase r = Some (samples, wall) \<longrightarrow>
        (\<exists>s. phase_reach phase students work s \<and> phase_finished students s \<and> ph_samples s = samples))"

definition work_size :: "session list \<Rightarrow> nat" where
  "work_size work = sum_list (map (\<lambda>s. length (sess_reqs s)) work)"

lemma size_work_tags: "size (work_tags work) = work_size work"
  by (induction work) (simp_all add: work_tags_def work_size_def tags_of_def)

lemma finished_phase_samples:
  assumes "phase_reach phase students work s" and "phase_finished students s"
  shows "length (ph_samples s) = work_size work"
proof -
  have inv: "phase_inv students work s"
    by (rule phase_reach_inv [OF assms(1)])
  then have "mset (map sample_tag (ph_samples s)) = work_tags work"
    using assms(2) by (auto simp: phase_inv_def phase_finished_def work_tags_def)
  then show ?thesis
    by (metis size_work_tags size_mset length_map)
qed

lemma measures_size:
  "measures students work mp \<Longrightarrow> mp n phase r = Some (samples, wall) \<Longrightarrow> length samples = work_size work"
  unfolding measures_def using finished_phase_samples by blast

text \<open>The rows flushed so far, \<open>n\<close> for each finished phase.\<close>

definition rows_ok :: "nat \<Rightarrow> string list list \<Rightarrow> PhaseSummary list \<Rightarrow> bool" where
  "rows_ok n rows done_phases \<longleftrightarrow>
     (if done_phases = [] then rows = [] else \<exists>data. rows = csv_header # data \<and> length data = n * length done_phases) \<and>
     (\<forall>p \<in> set done_phases. st_Count (ps_All p) = n)"

lemma rows_ok_more:
  assumes "rows_ok n rows done_phases" and "length samples = n" and "st_Count (ps_All s) = n"
  shows "rows_ok n ((if done_phases = [] then [csv_header] else rows) @ map csv_row samples) (done_phases @ [s])"
  using assms by (auto simp: rows_ok_def)

lemma run_phases_ConsE:
  assumes "run_phases F pick mp (p # ps) rows done_phases = Some (None, rows', all_phases)"
  obtains r samples wall s where "pick (trim_space p) = Inr r" "mp (length done_phases) (trim_space p) r = Some (samples, wall)"
    "summarize F (trim_space p) samples wall = Some (Inr s)"
    "run_phases F pick mp ps ((if done_phases = [] then [csv_header] else rows) @ map csv_row samples) (done_phases @ [s]) =
       Some (None, rows', all_phases)"
proof -
  obtain r where r: "pick (trim_space p) = Inr r"
    using assms by (cases "pick (trim_space p)") (auto simp: Let_def)
  with assms obtain samples wall where m: "mp (length done_phases) (trim_space p) r = Some (samples, wall)"
    by (auto simp: Let_def bind_eq_Some_conv)
  with assms r obtain res where s: "summarize F (trim_space p) samples wall = Some res"
    by (auto simp: Let_def bind_eq_Some_conv)
  then obtain s where "res = Inr s"
    using assms r m by (cases res) (auto simp: Let_def)
  with assms r m s show thesis
    by (intro that [OF r m]) (auto simp: Let_def)
qed

lemma run_phases_spec:
  assumes "run_phases F pick mp ps rows done_phases = Some (None, rows', all_phases)" and "measures students work mp"
    and "rows_ok (work_size work) rows done_phases"
  shows "rows_ok (work_size work) rows' all_phases \<and>
    map ps_Phase all_phases = map ps_Phase done_phases @ map trim_space ps \<and> (\<forall>p \<in> set ps. \<exists>r. pick (trim_space p) = Inr r)"
  using assms(1,3)
proof (induction ps arbitrary: rows done_phases)
  case Nil
  then show ?case by simp
next
  case (Cons p ps)
  from Cons.prems(1) obtain r samples wall s where step: "pick (trim_space p) = Inr r"
    "mp (length done_phases) (trim_space p) r = Some (samples, wall)" "summarize F (trim_space p) samples wall = Some (Inr s)"
    "run_phases F pick mp ps ((if done_phases = [] then [csv_header] else rows) @ map csv_row samples) (done_phases @ [s]) =
       Some (None, rows', all_phases)"
    by (elim run_phases_ConsE)
  have n: "length samples = work_size work"
    by (rule measures_size [OF assms(2) step(2)])
  have s: "ps_Phase s = trim_space p" "st_Count (ps_All s) = work_size work"
    using summarize_count [OF step(3)] n by auto
  from Cons.IH [OF step(4) rows_ok_more [OF Cons.prems(2) n s(2)]] step(1) s(1) show ?case
    by auto
qed

lemma split_on_nonempty [simp]: "split_on c s \<noteq> []"
  by (induction s) (auto split: list.split)

lemma choose_reader_known:
  "choose_reader exchange quote f work phase = Inr r \<Longrightarrow> phase \<in> {''direct'', ''proxy-cold'', ''proxy-warm''}"
  by (auto simp: choose_reader_def split: if_splits)

lemma runBench_success:
  assumes "runBench F R load pages exchange quote mp encode env f = Some r" and "br_err r = None"
  obtains client objs work rows phases where "flags_client load (bf_s3 f) = Inr client"
    "listObjects (pages client) (sf_bucket (bf_s3 f)) (sf_prefix (bf_s3 f)) = Inr objs"
    "buildSessions (float_ops.truncate F) R (bench_workload f) objs = Some (Inr work)"
    "run_phases F (choose_reader exchange quote f work) (mp work) (split_on (CHR '','') (bf_phases f)) [] [] = Some (None, rows, phases)"
    "r = \<lparr>br_err = None, br_csv = Some rows, br_summary = Some (summary_config f objs work (os_started env), phases)\<rparr>"
proof -
  obtain client where c: "flags_client load (bf_s3 f) = Inr client"
    using assms by (cases "flags_client load (bf_s3 f)") (auto simp: runBench_def bench_stop_def)
  obtain objs where o: "listObjects (pages client) (sf_bucket (bf_s3 f)) (sf_prefix (bf_s3 f)) = Inr objs"
    using assms c by (cases "listObjects (pages client) (sf_bucket (bf_s3 f)) (sf_prefix (bf_s3 f))")
      (auto simp: runBench_def bench_stop_def)
  have ne: "objs \<noteq> []"
    using assms c o by (auto simp: runBench_def bench_stop_def)
  obtain built where b: "buildSessions (float_ops.truncate F) R (bench_workload f) objs = Some built"
    using assms(1) c o ne by (auto simp: runBench_def bind_eq_Some_conv)
  obtain work where w: "built = Inr work"
    using assms c o ne b by (cases built) (auto simp: runBench_def bench_stop_def)
  have os: "os_mkdirAll env = None" "os_createCsv env = None"
    using assms c o ne b w by (auto simp: runBench_def bench_stop_def split: option.split_asm)
  obtain err rows phases where p:
    "run_phases F (choose_reader exchange quote f work) (mp work) (split_on (CHR '','') (bf_phases f)) [] [] = Some (err, rows, phases)"
    using assms(1) c o ne b w os by (auto simp: runBench_def)
  have "err = None"
    using assms c o ne b w os p by (auto simp: runBench_def Let_def split: if_splits)
  with assms c o ne b w os p show thesis
    by (intro that [OF c o]) (auto simp: runBench_def Let_def split: if_splits)
qed

text \<open>A phase with a student can always be run to its end.\<close>

lemma phase_can_finish:
  assumes "0 < students"
  shows "\<exists>s. phase_reach phase students work s \<and> phase_finished students s"
proof -
  have "phase_inv students work (start_phase students work)"
    by (rule phase_reach_inv [OF phase_start])
  with phase.can_finish assms obtain evs s where
    "run_steps (phase_step phase) evs (start_phase students work) = Some s" "phase_finished students s"
    by blast
  then show ?thesis
    using phase_run_reach [OF phase_start] by blast
qed

text \<open>
  C39: A run of the benchmark that ends without an error is complete: every entry of \<^verbatim>\<open>-phases\<close> (split at commas, blanks
  trimmed) is a known phase, the summary has exactly one entry for each, in this order, every one of them counts
  all requests of the workload, and \<^verbatim>\<open>requests.csv\<close> is the header followed by one row per request and phase.
\<close>

theorem finished_run_is_complete:
  assumes "runBench F R load pages exchange quote mp encode env f = Some r" and "br_err r = None"
    and "\<forall>work. measures (bf_students f) work (mp work)"
  shows "\<exists>client objs work rows config phases.
    flags_client load (bf_s3 f) = Inr client \<and>
    listObjects (pages client) (sf_bucket (bf_s3 f)) (sf_prefix (bf_s3 f)) = Inr objs \<and>
    buildSessions (float_ops.truncate F) R (bench_workload f) objs = Some (Inr work) \<and>
    br_csv r = Some (csv_header # rows) \<and> br_summary r = Some (config, phases) \<and>
    map ps_Phase phases = map trim_space (split_on (CHR '','') (bf_phases f)) \<and>
    set (map ps_Phase phases) \<subseteq> {''direct'', ''proxy-cold'', ''proxy-warm''} \<and>
    length rows = work_size work * length phases \<and> (\<forall>p \<in> set phases. st_Count (ps_All p) = work_size work)"
proof -
  obtain client objs work rows phases where run: "flags_client load (bf_s3 f) = Inr client"
    "listObjects (pages client) (sf_bucket (bf_s3 f)) (sf_prefix (bf_s3 f)) = Inr objs"
    "buildSessions (float_ops.truncate F) R (bench_workload f) objs = Some (Inr work)"
    "run_phases F (choose_reader exchange quote f work) (mp work) (split_on (CHR '','') (bf_phases f)) [] [] = Some (None, rows, phases)"
    "r = \<lparr>br_err = None, br_csv = Some rows, br_summary = Some (summary_config f objs work (os_started env), phases)\<rparr>"
    by (rule runBench_success [OF assms(1,2)])
  have "rows_ok (work_size work) [] []" by (simp add: rows_ok_def)
  from run_phases_spec [OF run(4) spec [OF assms(3)] this]
  have *: "rows_ok (work_size work) rows phases" "map ps_Phase phases = map trim_space (split_on (CHR '','') (bf_phases f))"
    "\<forall>p \<in> set (split_on (CHR '','') (bf_phases f)). \<exists>r. choose_reader exchange quote f work (trim_space p) = Inr r"
    by auto
  have "phases \<noteq> []"
    using *(2) split_on_nonempty by (metis map_is_Nil_conv)
  then obtain rows' where "rows = csv_header # rows'" "length rows' = work_size work * length phases"
    "\<forall>p \<in> set phases. st_Count (ps_All p) = work_size work"
    using *(1) by (auto simp: rows_ok_def)
  moreover have "set (map ps_Phase phases) \<subseteq> {''direct'', ''proxy-cold'', ''proxy-warm''}"
    unfolding *(2) using *(3) choose_reader_known by fastforce
  ultimately show ?thesis
    using run(1-3,5) *(2) by (intro exI conjI) auto
qed

subsection \<open>A concrete run\<close>

definition demo_flags :: "int \<Rightarrow> string \<Rightarrow> bench_flags" where
  "demo_flags n phases = (bench_defaults (\<lambda>x. x))\<lparr>bf_sessions := n, bf_students := 1, bf_phases := phases\<rparr>"

definition demo_pages :: "unit \<times> (s3_options \<Rightarrow> s3_options) \<Rightarrow> string \<Rightarrow> string \<Rightarrow> (string + (string option \<times> int option) list) list" where
  "demo_pages client bucket pre = [Inr [(Some ''a.zip'', Some 9), (Some ''edu/'', Some 0)]]"

definition demo_os :: bench_os where
  "demo_os = \<lparr>os_mkdirAll = None, os_createCsv = None, os_createSummary = None, os_started = ''''\<rparr>"

lemma trim_space_phases:
  "trim_space ''direct'' = ''direct''" "trim_space '' proxy-cold'' = ''proxy-cold''"
  by code_simp+

lemma demo_listing:
  "flags_client (\<lambda>opts. Inr ()) (bf_s3 (demo_flags n phases)) = Inr ((), flags_option default_flags)"
  "listObjects (demo_pages client) (sf_bucket (bf_s3 (demo_flags n phases))) (sf_prefix (bf_s3 (demo_flags n phases))) =
     Inr [\<lparr>obj_key = ''a.zip'', obj_size = 9\<rparr>]"
  by (simp_all add: flags_client_def flags_config_def demo_flags_def bench_defaults_def listObjects_def demo_pages_def)

lemma demo_sessions:
  "\<exists>work. buildSessions (float_ops.truncate demo_floats) zero_rng (bench_workload (demo_flags n phases))
     [\<lparr>obj_key = ''a.zip'', obj_size = 9\<rparr>] = Some (Inr work) \<and> int (length work) = max 0 n \<and>
     (\<forall>s \<in> set work. sess_reqs s \<noteq> [])"
proof -
  have k: "kind ''a.zip'' = ''dataset''"
    using kind_suffix(4) [of "''a''"] by simp
  have f: "float_ok (fl_rnd (float_ops.truncate demo_floats))"
    by (simp add: float_ops.defs demo_floats_def float_ok_def mono_def)
  have c: "config_ok (bench_workload (demo_flags n phases))" "wc_sessions (bench_workload (demo_flags n phases)) = n"
    by (simp_all add: config_ok_def bench_workload_def demo_flags_def bench_defaults_def push_bit_eq_mult)
  show ?thesis
    using session_loop_ok [OF f zero_rng_ok c(1), of "[\<lparr>obj_key = ''a.zip'', obj_size = 9\<rparr>]" "[]"] k c(2)
    unfolding buildSessions_def by (force simp: sizes_ok_def)
qed

lemma demo_measures: "\<exists>mp. (\<forall>work. measures 1 work (mp work)) \<and> (\<forall>work n phase r. \<exists>samples. mp work n phase r = Some (samples, 1))"
proof -
  let ?last = "\<lambda>work phase. SOME s. phase_reach phase 1 work s \<and> phase_finished 1 s"
  let ?mp = "\<lambda>work n phase r. Some (ph_samples (?last work phase), 1 :: int)"
  have "measures 1 work (?mp work)" for work
    unfolding measures_def using someI_ex [OF phase_can_finish [of 1]] by (auto intro!: exI [of _ "?last work _"])
  then show ?thesis
    by (intro exI [of _ ?mp]) simp
qed

lemma demo_run_phase:
  assumes "mp 0 ''direct'' (S3Reader ''predictive-proxy'') = Some (samples, 1)"
  obtains rows s where "run_phases demo_floats (choose_reader exchange quote (demo_flags n phases) work) mp [''direct''] [] [] =
    Some (None, rows, [s])"
proof -
  obtain s where "summarize demo_floats ''direct'' samples 1 = Some (Inr s)"
    by (rule summarize_parts [OF demo_edges, of "''direct''" samples 1]) auto
  with assms show thesis
    by (intro that [of "csv_header # map csv_row samples" s])
      (simp add: trim_space_phases choose_reader_def demo_flags_def bench_defaults_def default_flags_def)
qed

theorem finished_run_is_complete_witness:
  "\<exists>mp r rows config phases.
     runBench demo_floats zero_rng (\<lambda>opts. Inr ()) demo_pages (\<lambda>url hdr. Inl ''refused'') (\<lambda>s. s) mp (\<lambda>summary. None) demo_os
       (demo_flags 1 ''direct'') = Some r \<and> br_csv r = Some (csv_header # rows) \<and>
     br_summary r = Some (config, phases) \<and> map ps_Phase phases = [''direct''] \<and> rows \<noteq> []"
proof -
  obtain mp where mp: "\<forall>work. measures 1 work (mp work)" "\<forall>work n phase r. \<exists>samples. mp work n phase r = Some (samples, 1)"
    using demo_measures by blast
  obtain work where work: "buildSessions (float_ops.truncate demo_floats) zero_rng (bench_workload (demo_flags 1 ''direct''))
      [\<lparr>obj_key = ''a.zip'', obj_size = 9\<rparr>] = Some (Inr work)" "length work = 1" "\<forall>s \<in> set work. sess_reqs s \<noteq> []"
    using demo_sessions [of 1 "''direct''"] by auto
  let ?run = "runBench demo_floats zero_rng (\<lambda>opts. Inr ()) demo_pages (\<lambda>url hdr. Inl ''refused'') (\<lambda>s. s) mp
      (\<lambda>summary. None) demo_os (demo_flags 1 ''direct'')"
  obtain samples where "mp work 0 ''direct'' (S3Reader ''predictive-proxy'') = Some (samples, 1)"
    using mp(2) by blast
  from demo_run_phase [where mp = "mp work", OF this] obtain rows0 s where
    "run_phases demo_floats (choose_reader (\<lambda>url hdr. Inl ''refused'') (\<lambda>s. s) (demo_flags 1 ''direct'') work) (mp work) [''direct'']
       [] [] = Some (None, rows0, [s])"
    by blast
  moreover have "split_on (CHR '','') (bf_phases (demo_flags 1 ''direct'')) = [''direct'']"
    by (simp add: demo_flags_def)
  ultimately obtain r where r: "?run = Some r" "br_err r = None"
    by (simp add: runBench_def demo_listing work(1) demo_os_def)
  have "\<forall>work. measures (bf_students (demo_flags 1 ''direct'')) work (mp work)"
    using mp(1) by (simp add: demo_flags_def)
  from finished_run_is_complete [OF r this] obtain client objs work' rows config phases where
    *: "listObjects (demo_pages client) (sf_bucket (bf_s3 (demo_flags 1 ''direct''))) (sf_prefix (bf_s3 (demo_flags 1 ''direct''))) = Inr objs"
      "buildSessions (float_ops.truncate demo_floats) zero_rng (bench_workload (demo_flags 1 ''direct'')) objs = Some (Inr work')"
      "br_csv r = Some (csv_header # rows)" "br_summary r = Some (config, phases)"
      "map ps_Phase phases = map trim_space (split_on (CHR '','') (bf_phases (demo_flags 1 ''direct'')))"
      "length rows = work_size work' * length phases"
    by blast
  have "work' = work"
    using *(1,2) work(1) by (simp add: demo_listing)
  then have "0 < work_size work'"
    using work(2,3) by (cases work) (auto simp: work_size_def)
  moreover have ph: "map ps_Phase phases = [''direct'']"
    using *(5) by (simp add: demo_flags_def trim_space_phases)
  ultimately have "rows \<noteq> []"
    using *(6) by (cases phases) auto
  with r(1) *(3,4) ph show ?thesis
    by (intro exI conjI)
qed

subsection \<open>A phase that fails\<close>

lemma run_phases_fail:
  assumes "\<forall>q \<in> set good. \<exists>r. pick (trim_space q) = Inr r" and "pick (trim_space p) = Inl err"
    and "measures students work mp" and "\<forall>n phase r. mp n phase r \<noteq> None"
    and "hist_edges F = Some edges" and "sorted edges" and "edges \<noteq> []"
    and "rows_ok (work_size work) rows done_phases"
  shows "\<exists>rows' all_phases. run_phases F pick mp (good @ p # rest) rows done_phases = Some (Some err, rows', all_phases) \<and>
    rows_ok (work_size work) rows' all_phases \<and> length all_phases = length done_phases + length good"
  using assms(1,8)
proof (induction good arbitrary: rows done_phases)
  case Nil
  with assms(2) show ?case by simp
next
  case (Cons q qs)
  obtain r where r: "pick (trim_space q) = Inr r" using Cons.prems(1) by auto
  obtain samples wall where m: "mp (length done_phases) (trim_space q) r = Some (samples, wall)"
    using assms(4) by (metis not_None_eq surj_pair)
  obtain s where s: "summarize F (trim_space q) samples wall = Some (Inr s)"
    by (rule summarize_parts [OF assms(5-7), of "trim_space q" samples wall]) auto
  have n: "length samples = work_size work"
    by (rule measures_size [OF assms(3) m])
  then have "st_Count (ps_All s) = work_size work"
    using summarize_count [OF s] by simp
  from Cons.IH [OF _ rows_ok_more [OF Cons.prems(2) n this]] Cons.prems(1) r m s show ?case
    by (auto simp: Let_def)
qed

text \<open>
  C40: A phase that cannot start ends the run with its error, and then no summary is written, although the rows of the
  phases before it are in \<^verbatim>\<open>requests.csv\<close> (no header even, if it is the first). An unknown name is an
  error; a proxy phase over an empty workload (\<^verbatim>\<open>-sessions 0\<close>) is a panic, the index \<^verbatim>\<open>work[0]\<close> being out of range.
\<close>

theorem failing_phase_keeps_rows:
  assumes "flags_client load (bf_s3 f) = Inr client"
    and "listObjects (pages client) (sf_bucket (bf_s3 f)) (sf_prefix (bf_s3 f)) = Inr objs" and "objs \<noteq> []"
    and "buildSessions (float_ops.truncate F) R (bench_workload f) objs = Some (Inr work)"
    and "os_mkdirAll env = None" and "os_createCsv env = None"
    and "split_on (CHR '','') (bf_phases f) = good @ p # rest"
    and "\<forall>q \<in> set good. \<exists>r. choose_reader exchange quote f work (trim_space q) = Inr r"
    and "choose_reader exchange quote f work (trim_space p) = Inl err"
    and "measures (bf_students f) work (mp work)" and "\<forall>n phase r. mp work n phase r \<noteq> None"
    and "hist_edges F = Some edges" and "sorted edges" and "edges \<noteq> []"
  shows "(\<exists>rows. runBench F R load pages exchange quote mp encode env f =
      Some \<lparr>br_err = Some err, br_csv = Some rows, br_summary = None\<rparr> \<and>
      (if good = [] then rows = [] else \<exists>data. rows = csv_header # data \<and> length data = work_size work * length good)) \<and>
    (trim_space p \<notin> {''direct'', ''proxy-cold'', ''proxy-warm''} \<longrightarrow> err = ErrText (''unknown phase '' @ quote (trim_space p))) \<and>
    (trim_space p \<in> {''proxy-cold'', ''proxy-warm''} \<and> work = [] \<longrightarrow> err = ErrPanic IndexBounds)"
proof (intro conjI impI)
  have "rows_ok (work_size work) [] []" by (simp add: rows_ok_def)
  from run_phases_fail [OF assms(8-14) this, of rest] obtain rows all_phases where
    run: "run_phases F (choose_reader exchange quote f work) (mp work) (good @ p # rest) [] [] = Some (Some err, rows, all_phases)"
    and ok: "rows_ok (work_size work) rows all_phases" "length all_phases = length good"
    by auto
  have "runBench F R load pages exchange quote mp encode env f = Some \<lparr>br_err = Some err, br_csv = Some rows, br_summary = None\<rparr>"
    using assms(3) run by (simp add: runBench_def assms(1,2,4-7))
  moreover have "if good = [] then rows = [] else \<exists>data. rows = csv_header # data \<and> length data = work_size work * length good"
    using ok by (cases "good = []"; cases "all_phases = []") (auto simp: rows_ok_def)
  ultimately show "\<exists>rows. runBench F R load pages exchange quote mp encode env f =
      Some \<lparr>br_err = Some err, br_csv = Some rows, br_summary = None\<rparr> \<and>
      (if good = [] then rows = [] else \<exists>data. rows = csv_header # data \<and> length data = work_size work * length good)"
    by blast
qed (use assms(9) in \<open>auto simp: choose_reader_def index_checked_def Let_def\<close>)

theorem failing_phase_keeps_rows_witness:
  "\<exists>mp data. runBench demo_floats zero_rng (\<lambda>opts. Inr ()) demo_pages (\<lambda>url hdr. Inl ''refused'') (\<lambda>s. s) mp (\<lambda>summary. None)
     demo_os (demo_flags 0 ''direct, proxy-cold'') =
     Some \<lparr>br_err = Some (ErrPanic IndexBounds), br_csv = Some (csv_header # data), br_summary = None\<rparr>"
proof -
  obtain mp where mp: "\<forall>work. measures 1 work (mp work)" "\<forall>work n phase r. \<exists>samples. mp work n phase r = Some (samples, 1)"
    using demo_measures by blast
  let ?f = "demo_flags 0 ''direct, proxy-cold''"
  have work: "buildSessions (float_ops.truncate demo_floats) zero_rng (bench_workload ?f)
      [\<lparr>obj_key = ''a.zip'', obj_size = 9\<rparr>] = Some (Inr [])"
    using demo_sessions [of 0 "''direct, proxy-cold''"] by auto
  have split: "split_on (CHR '','') (bf_phases ?f) = [''direct''] @ '' proxy-cold'' # []"
    by (simp add: demo_flags_def)
  have first: "choose_reader (\<lambda>url hdr. Inl ''refused'') (\<lambda>s. s) ?f [] (trim_space ''direct'') = Inr (S3Reader ''predictive-proxy'')"
    by (simp add: choose_reader_def trim_space_phases demo_flags_def bench_defaults_def default_flags_def)
  have second: "choose_reader (\<lambda>url hdr. Inl ''refused'') (\<lambda>s. s) ?f [] (trim_space '' proxy-cold'') = Inl (ErrPanic IndexBounds)"
    by (simp add: choose_reader_def trim_space_phases index_checked_def)
  have mp': "measures (bf_students ?f) [] (mp [])" "\<forall>n phase r. mp [] n phase r \<noteq> None"
    using mp by (simp add: demo_flags_def, metis option.distinct(1))
  have os: "os_mkdirAll demo_os = None" "os_createCsv demo_os = None"
    by (simp_all add: demo_os_def)
  have good: "\<forall>q \<in> set [''direct'']. \<exists>r. choose_reader (\<lambda>url hdr. Inl ''refused'') (\<lambda>s. s) ?f [] (trim_space q) = Inr r"
    using first by simp
  from failing_phase_keeps_rows [where mp = mp and pages = demo_pages and encode = "\<lambda>summary. None", OF demo_listing _ work os split good second mp' demo_edges] show ?thesis
    by auto
qed

end
