(* ===== verification/Bench_Replay.thy ===== *)
theory Bench_Replay
  imports Bench_Command System
begin

section \<open>The benchmark running against the proxy\<close>

text \<open>
  \<^verbatim>\<open>runPhase\<close> of a proxy phase composed with the modelled proxy: a read event of the phase is one \<open>ServeHTTP\<close> on
  the proxy's current world, and between the events of the phase the proxy makes steps of its own (prefetch workers,
  evictions, requests of others). A read may meet any environment of the running system: a size lookup or a GET of the
  store that fails, a transfer that breaks off with an error, a cancelled wait, a connection that takes only a part of the
  body. The composition keeps both invariants, and only such reads can end as errors; they are counted.
\<close>

subsection \<open>The composed steps\<close>







subsection \<open>The invariant of the composition\<close>















subsection \<open>The composition ends\<close>






subsection \<open>What the summary says\<close>







subsection \<open>Properties\<close>






end
