(* ===== verification/Spec2Isabelle.thy ===== *)
theory Spec2Isabelle
  imports Ui Cold_Race Ebpf Kernel_Race Warm_Requests Responses Bench_Replay
begin

section \<open>A predictive caching proxy for object storage\<close>

text \<open>
  The program (module \<^verbatim>\<open>go-predictive-proxy\<close>) is an HTTP proxy in front of an S3 bucket. It answers
  ranged \<open>GET\<close>s of large objects from fixed chunks of 4 MiB, kept in a sharded in-memory LRU cache
  (\<^emph>\<open>hot\<close>) and, once evicted from it, in files on a local disk (\<^emph>\<open>cold\<close>); a tracker recognises
  sequential readers and lets a pool of workers fetch the next chunks before they are asked for.

  \<^bold>\<open>How the parts interact.\<close> \<^verbatim>\<open>main\<close> builds the components and wires them: the handler resolves each
  chunk of a request in the hot cache, then in the cold cache (putting what it finds back into the hot
  one), then at the backend, where concurrent fetches of one chunk share a single flight; it
  tells the tracker about every chunk, and the tracker calls the prefetcher's \<^verbatim>\<open>Schedule\<close>, whose
  workers fetch through the same backend into the same hot cache. Evictions from the hot cache start
  goroutines that write to the cold cache. The metrics registry counts all of this; the admin
  dashboard reads it.

  \<^bold>\<open>Theories, bottom up.\<close> The names of definitions are the source's; \<^verbatim>\<open>->\<close> names the source file.

  \<^item> \<open>Prelude\<close>: bytes, \<open>int64\<close>/\<open>uint64\<close> conversions with their wrap-around, the panics of Go, checked
    slicing, \<open>chunk_of\<close> (the i-th chunk of an object), and the lemma collections.
  \<^item> \<open>Go_Strings\<close>, \<open>Go_Path\<close>: the parts of Go's standard library the program uses: decimal printing and
    \<^verbatim>\<open>strconv.ParseInt\<close> (errors and \<open>int64\<close> bounds included), prefixes, \<^verbatim>\<open>IndexByte\<close>, \<^verbatim>\<open>filepath.Join\<close>
    with \<^verbatim>\<open>Clean\<close>, hexadecimal encoding.
  \<^item> \<open>Chunk_Key\<close> \<^verbatim>\<open>-> internal/cache/lru.go, disk.go\<close>: chunk keys, the 32-bit and 64-bit FNV-1a hashes as
    words, the shard index.
  \<^item> \<open>Cache_Interface\<close>, \<open>Fetch_Interface\<close>, \<open>Step_Interface\<close>: the locales. \<open>cache_tier\<close> is what a client of a cache relies
    on, \<open>notifying_cache\<close> adds the eviction callback, \<open>chunk_fetcher\<close> what a fetch
    promises, and \<open>fetch_through\<close> is a cache filled through a fetcher. They are interpreted on the hot
    cache, the cold cache, \<open>fetchChunk\<close>, the shared fetch and the prefetch job. \<open>bounded_steps\<close> is a pool of
    goroutines that ends, interpreted on the two pools of the benchmark and on a phase joined with the proxy.
  \<^item> \<open>Lru_Shard\<close>, \<open>Hot_Cache\<close> \<^verbatim>\<open>-> internal/cache/lru.go\<close>: one shard at the level of \<^verbatim>\<open>container/list\<close>
    elements, map and byte counter (every operation runs under the shard's mutex, so it is one step),
    its refinement to an abstract LRU list over whole histories, and the 256 shards with their hit
    counters, refined to 256 such lists. The eviction loop is a \<open>function\<close> with a termination proof.
  \<^item> \<open>Cold_Cache\<close>, \<open>Cold_Race\<close> \<^verbatim>\<open>-> internal/cache/disk.go\<close>: file names, and \<open>Put\<close>, \<open>Get\<close>, \<open>Delete\<close> over a
    file system with a fault at any system call; then the system calls of concurrent writers as a
    step relation over inodes.
  \<^item> \<open>Buffer_Pool\<close> \<^verbatim>\<open>-> internal/cache/pool.go\<close>: the pool of chunk buffers over \<^verbatim>\<open>sync.Pool\<close>.
  \<^item> \<open>Byte_Range\<close> \<^verbatim>\<open>-> internal/proxy/handler.go\<close>: the \<open>Range\<close> header parser and its resolution.
  \<^item> \<open>Backend\<close>, \<open>Single_Flight\<close> \<^verbatim>\<open>-> internal/proxy/backend.go\<close>: \<^verbatim>\<open>NewBackend\<close>, the ranged fetch over any
    reader (\<^verbatim>\<open>io.ReadFull\<close> as a terminating loop over the reads it makes), the size cache, and the
    flights of concurrent callers as a step relation.
  \<^item> \<open>Metrics\<close> \<^verbatim>\<open>-> internal/metrics/prometheus.go\<close>; \<open>Prefetch\<close>, \<open>Tracker\<close> \<^verbatim>\<open>-> internal/engine\<close>: the bounded
    queue, the workers and their gauge, the read-streak state and its velocity estimate.
  \<^item> \<open>Handler\<close> \<^verbatim>\<open>-> internal/proxy/handler.go\<close>: \<^verbatim>\<open>resolveChunk\<close>, \<^verbatim>\<open>proxyFull\<close> and \<^verbatim>\<open>ServeHTTP\<close> over the shared
    \<open>world\<close>. \<open>Handler_Coherence\<close> holds the invariant of the world and what each operation does to
    it, \<open>Range_Requests\<close> the properties of requests, \<open>Responses\<close> the shape of every response, and
    \<open>Warm_Requests\<close> (over \<open>System\<close>) what a request or a prefetch leaves for the next one.
  \<^item> \<open>System\<close> \<^verbatim>\<open>-> cmd/proxy/main.go\<close>: configuration, start-up, and the steps of the running proxy.
    \<open>Ui\<close> \<^verbatim>\<open>-> internal/ui/handler.go\<close>: the admin handler, its routes and endpoints.
  \<^item> \<open>Kernel_Tracker\<close> \<^verbatim>\<open>-> ebpf/tc_tracker.c\<close>: the program the kernel runs on outgoing packets, over its three maps,
    with the history of the traffic as its specification; \<open>Kernel_Race\<close>: the same program on several CPUs, one map
    access at a time. \<open>Ebpf\<close> \<^verbatim>\<open>-> ebpf/tracker.go, bpf_bpfel.go, tracker_stub.go,
    internal/metrics/ebpf.go\<close>: loading, the handles of the tracker, and what the Go side reads from the maps.

  \<^bold>\<open>The benchmark\<close> (\<^verbatim>\<open>cmd/bench\<close>) seeds a bucket with synthetic course files and replays student sessions
  against S3 and against the proxy.

  \<^item> \<open>Portal_Files\<close> \<^verbatim>\<open>-> edu.go, s3.go\<close>: the catalogue and how keys are classified. \<open>Synth_File\<close> \<^verbatim>\<open>-> edu.go\<close>: the
    contents of a synthetic file, generated on the fly by position. \<open>Bench_Seed\<close> \<^verbatim>\<open>-> edu.go, s3.go\<close>: listing,
    uploads, and the pool of uploaders as a step function.
  \<^item> \<open>Workload\<close> \<^verbatim>\<open>-> workload.go\<close>: the sessions and their read patterns. \<open>Bench_Phase\<close> \<^verbatim>\<open>-> run.go\<close>: the two
    readers, and the students of a phase as a step function; its proxy reader is joined with the modelled
    proxy. \<open>Bench_Stats\<close> \<^verbatim>\<open>-> run.go\<close>: percentiles, groups and the histogram; \<open>Bench_Print\<close> \<^verbatim>\<open>-> run.go\<close>: the
    table and the progress line a phase prints.
  \<^item> \<open>Bench_Command\<close> \<^verbatim>\<open>-> main.go, run.go, edu.go, s3.go\<close>: the commands, with every early return.
  \<^item> \<open>Bench_Replay\<close>: a proxy phase and the running proxy as one system, each read of a student being a request of the
    proxy, with the proxy's own steps in between.
\<close>

text \<open>
  \<^bold>\<open>What the lemmas show.\<close> Below: started on any configuration, the proxy answers every satisfiable range
  with the object's bytes, and nothing that happens to it (failing fetches, transfers that break off with
  an error, failing disk writes, clients that hang up) makes it incoherent, with one exception: a transfer that ends
  with \<^verbatim>\<open>io.ErrUnexpectedEOF\<close> is taken for the end of the object and cached. The component theories prove what this rests on and the
  rest of each component's contract: LRU refinement, counters and the memory bound; unique file names,
  atomicity of the cold cache's writes where it holds and a run where it does not; exclusive pool
  buffers; the range grammar; single flight, its data hand-over and progress; queue and
  gauge accounting; streak detection; tiers and metrics. Several theorems state behaviour the code
  presumably does not intend: colliding keys in the cold cache, truncated transfers taken for
  complete chunks, sizes that are never looked up again, overwrites that exceed a shard's capacity, a queue gauge below zero, the
  panic of a \<^verbatim>\<open>Schedule\<close> after \<^verbatim>\<open>Stop\<close>. For the benchmark: the catalogue's keys say what they are, synthetic
  files read the same however they are read, workloads are well-formed and are produced, a phase measures
  each request once and ends, seeding puts what is missing, statistics count every sample, a run
  reports every phase or the error that stopped it; and replayed against the proxy, a workload ends with no
  more errors than reads that met a failure of the store or a connection, and with exactly the announced bytes if there is
  no error. For the eBPF tracker: its maps are a function of the traffic's history,
  and which of its counts survive the interleaving of CPUs.

  \<^bold>\<open>Conventions.\<close> \<^verbatim>\<open>uint64\<close> and \<^verbatim>\<open>uint32\<close> are words; \<^verbatim>\<open>int64\<close> and \<^verbatim>\<open>int\<close> are \<open>int\<close> with \<open>i64\<close> around each
  operation that can wrap. Floating-point results are rationals passed through a rounding function
  \<open>rnd\<close>, a parameter (the theorems about velocities say what they need of it: \<open>steady_reader_prefetches\<close>
  holds for every rounding with the relative error of \<open>float64\<close>, and leaves a margin at the threshold). Strings are byte strings. A panic is \<open>Inl\<close> of a \<open>go_panic\<close>, an error
  a value of its own type. Goroutines appear as step relations whose steps are the sections between
  lock operations, system calls or channel operations; in the handler, what other goroutines do where
  it holds no lock is a function \<open>ce_others\<close>, arbitrary but for keeping the invariant, and what they do to the prefetch
  queue between the actions of a \<^verbatim>\<open>Schedule\<close> call is \<open>ce_sched\<close>, arbitrary but for leaving the queue open.

  \<^bold>\<open>Bounds.\<close> There is no fuel: loops are structural recursion, or functions with a measure (the eviction
  loop's is the length of the list, the read loop's the length of the reader's remaining answers). The
  loops of the benchmark that flags can keep from ending are partial functions whose value is then \<open>None\<close>.
  Hypotheses on numbers are those of the code: lengths below \<open>2^63\<close>, and chunk indices below \<open>2^41\<close>, which
  every range inside an \<open>int64\<close>-sized object satisfies.

  \<^bold>\<open>Parameters.\<close> The S3 client, the AWS configuration loader, the YAML and JSON decoders, \<^verbatim>\<open>os.ExpandEnv\<close>,
  the Prometheus registry's \<^verbatim>\<open>Gather\<close>, the clock, the choice \<^verbatim>\<open>sync.Pool\<close> makes and the file system's
  faults are arguments, as are the benchmark's random generator, its floating-point functions and the
  answers of \<^verbatim>\<open>PutObject\<close>. \<open>s3_honest\<close> is the documented behaviour of ranged reads,
  of which any may fail or break off with an error; \<open>s3_ranged\<close> is a store none of whose reads fail, for the properties
  that promise an answer; \<open>s3_sim\<close> is a store that has both, used by the witnesses.

  \<^bold>\<open>Not modelled.\<close> Logging, the formatting of what is printed, and flag parsing; the HTTP servers themselves and signal
  delivery; the text format of the metrics endpoint; the contents of the dashboard page; the specification types
  of the generated eBPF loader, which nothing uses; entries the kernel drops while another CPU holds a pointer to them.
\<close>

subsection \<open>Properties\<close>





end
